(* ===== verification/Prelude.thy ===== *)
theory Prelude
  imports Complex_Main "HOL-Library.AList" "HOL-Library.Sublist"
begin

text \<open>
  Shared vocabulary of the development: Go byte strings and the functions of Go's
  \<open>strings\<close> package the program calls, Go maps as association lists with distinct keys,
  and the collections of rewrite rules the component proofs use.

  A Go string is a sequence of bytes, and Isabelle's \<open>char\<close> is a byte, so \<open>string\<close>
  models it exactly; text outside ASCII appears as its UTF-8 bytes. Go's \<open>int\<close>,
  \<open>int64\<close> and \<open>time.Time\<close> (in nanoseconds or seconds, as each theory says) are
  modelled by \<open>int\<close>; a width is written out where it can be observed.
\<close>

named_theorems gomap_simps \<open>rewriting of Go maps kept as association lists\<close>

section \<open>Bytes and strings\<close>

definition byte :: "char \<Rightarrow> nat" where
  "byte c = of_char c"

text \<open>\<open>strings.ToUpper\<close> on ASCII text.\<close>

definition upper_char :: "char \<Rightarrow> char" where
  "upper_char c = (if 97 \<le> byte c \<and> byte c \<le> 122 then char_of (byte c - 32) else c)"

definition to_upper :: "string \<Rightarrow> string" where
  "to_upper s = map upper_char s"

lemma length_to_upper [simp]: "length (to_upper s) = length s"
  by (simp add: to_upper_def)

lemma to_upper_Nil_iff [simp]: "to_upper s = [] \<longleftrightarrow> s = []"
  by (simp add: to_upper_def)

text \<open>The class \<open>\s\<close> of Go's \<open>regexp\<close> syntax: tab, line feed, form feed, carriage return, space.\<close>

definition re_space :: "char \<Rightarrow> bool" where
  "re_space c \<longleftrightarrow> byte c = 9 \<or> byte c = 10 \<or> byte c = 12 \<or> byte c = 13 \<or> byte c = 32"

text \<open>The class \<open>\d\<close>.\<close>

definition re_digit :: "char \<Rightarrow> bool" where
  "re_digit c \<longleftrightarrow> 48 \<le> byte c \<and> byte c \<le> 57"

section \<open>strings.TrimSpace\<close>

text \<open>
  The UTF-8 encodings of the code points \<open>unicode.IsSpace\<close> accepts. \<open>strings.TrimSpace\<close>
  removes them from both ends; a byte sequence that is not valid UTF-8 decodes to
  U+FFFD, which is no space, so looking for one of these encodings at the end is what
  the decoding loop does.
\<close>

definition space_encs :: "string list" where
  "space_encs =
     [[CHR 0x09], [CHR 0x0A], [CHR 0x0B], [CHR 0x0C], [CHR 0x0D], [CHR 0x20],
      [CHR 0xC2, CHR 0x85], [CHR 0xC2, CHR 0xA0], [CHR 0xE1, CHR 0x9A, CHR 0x80],
      [CHR 0xE2, CHR 0x80, CHR 0x80], [CHR 0xE2, CHR 0x80, CHR 0x81],
      [CHR 0xE2, CHR 0x80, CHR 0x82], [CHR 0xE2, CHR 0x80, CHR 0x83],
      [CHR 0xE2, CHR 0x80, CHR 0x84], [CHR 0xE2, CHR 0x80, CHR 0x85],
      [CHR 0xE2, CHR 0x80, CHR 0x86], [CHR 0xE2, CHR 0x80, CHR 0x87],
      [CHR 0xE2, CHR 0x80, CHR 0x88], [CHR 0xE2, CHR 0x80, CHR 0x89],
      [CHR 0xE2, CHR 0x80, CHR 0x8A], [CHR 0xE2, CHR 0x80, CHR 0xA8],
      [CHR 0xE2, CHR 0x80, CHR 0xA9], [CHR 0xE2, CHR 0x80, CHR 0xAF],
      [CHR 0xE2, CHR 0x81, CHR 0x9F], [CHR 0xE3, CHR 0x80, CHR 0x80]]"

function trim_encs :: "string list \<Rightarrow> string \<Rightarrow> string" where
  "trim_encs es s =
     (case find (\<lambda>e. e \<noteq> [] \<and> prefix e s) es of
        None \<Rightarrow> s
      | Some e \<Rightarrow> trim_encs es (drop (length e) s))"
  by pat_completeness auto
termination
  by (relation "measure (\<lambda>(es, s). length s)")
    (auto simp: find_Some_iff prefix_def)

declare trim_encs.simps [simp del]

definition trim_space :: "string \<Rightarrow> string" where
  "trim_space s = rev (trim_encs (map rev space_encs) (rev (trim_encs space_encs s)))"

lemma trim_encs_fixed: "\<forall>e\<in>set es. e = [] \<or> \<not> prefix e s \<Longrightarrow> trim_encs es s = s"
  by (subst trim_encs.simps) (auto split: option.splits simp: find_Some_iff)

lemma trim_encs_done:
  "e \<in> set es \<Longrightarrow> e \<noteq> [] \<Longrightarrow> \<not> prefix e (trim_encs es s)"
proof (induction es s rule: trim_encs.induct)
  case (1 es s)
  show ?case
  proof (cases "find (\<lambda>e. e \<noteq> [] \<and> prefix e s) es")
    case None
    then have "trim_encs es s = s" by (subst trim_encs.simps) simp
    with None "1.prems" show ?thesis by (auto simp: find_None_iff)
  next
    case (Some f)
    with "1.IH"[OF Some "1.prems"] show ?thesis by (subst trim_encs.simps) simp
  qed
qed

lemma suffix_trim_encs: "suffix (trim_encs es s) s"
proof (induction es s rule: trim_encs.induct)
  case (1 es s)
  show ?case
  proof (cases "find (\<lambda>e. e \<noteq> [] \<and> prefix e s) es")
    case (Some f)
    then show ?thesis
      using "1.IH"[OF Some] suffix_drop suffix_order.trans
      by (subst trim_encs.simps) fastforce
  qed (subst trim_encs.simps, simp)
qed

text \<open>The result is a contiguous part of the input, and neither end of it is a space.\<close>

lemma trim_space_sublist: "sublist (trim_space s) s"
proof -
  have "suffix (trim_encs (map rev space_encs) (rev (trim_encs space_encs s))) (rev (trim_encs space_encs s))"
    by (rule suffix_trim_encs)
  then have "prefix (trim_space s) (trim_encs space_encs s)"
    unfolding trim_space_def by (simp add: suffix_to_prefix)
  then obtain zs where zs: "trim_encs space_encs s = trim_space s @ zs" by (auto elim: prefixE)
  obtain ys where "s = ys @ trim_encs space_encs s"
    using suffix_trim_encs[of space_encs s] by (auto simp: suffix_def)
  with zs have "s = ys @ trim_space s @ zs" by simp
  then show ?thesis unfolding sublist_def by blast
qed

text \<open>Text that begins and ends with a visible ASCII character is left alone.\<close>

definition graphic :: "char \<Rightarrow> bool" where
  "graphic c \<longleftrightarrow> 33 \<le> byte c \<and> byte c \<le> 126"

lemma space_encs_not_graphic:
  "list_all (\<lambda>e. e \<noteq> [] \<and> \<not> graphic (hd e) \<and> \<not> graphic (last e)) space_encs"
  by code_simp

lemma prefix_hd: "prefix e s \<Longrightarrow> e \<noteq> [] \<Longrightarrow> hd s = hd e"
  by (auto simp: prefix_def)

lemma trim_space_graphic:
  assumes "graphic (hd s)" "graphic (last s)"
  shows "trim_space s = s"
proof (cases "s = []")
  case True
  moreover have "trim_space [] = []" by code_simp
  ultimately show ?thesis by simp
next
  case False
  have l: "trim_encs space_encs s = s"
    using space_encs_not_graphic assms(1)
    by (intro trim_encs_fixed) (auto simp: list_all_iff dest: prefix_hd)
  have "trim_encs (map rev space_encs) (rev s) = rev s"
    using space_encs_not_graphic assms(2) False
    by (intro trim_encs_fixed) (auto simp: list_all_iff hd_rev dest!: prefix_hd)
  with l show ?thesis by (simp add: trim_space_def)
qed

section \<open>Other string functions\<close>

text \<open>\<open>strings.Cut\<close> with a one-byte separator: the part before it, the part after it, found or not.\<close>

definition cut_at :: "char \<Rightarrow> string \<Rightarrow> string \<times> string \<times> bool" where
  "cut_at c s = (if c \<in> set s then (takeWhile (\<lambda>x. x \<noteq> c) s, tl (dropWhile (\<lambda>x. x \<noteq> c) s), True)
                 else (s, [], False))"

text \<open>\<open>strings.IndexByte\<close> and \<open>LastIndexByte\<close>; None stands for -1.\<close>

definition index_byte :: "char \<Rightarrow> string \<Rightarrow> nat option" where
  "index_byte c s = (if c \<in> set s then Some (length (takeWhile (\<lambda>x. x \<noteq> c) s)) else None)"

definition last_index_byte :: "char \<Rightarrow> string \<Rightarrow> nat option" where
  "last_index_byte c s = map_option (\<lambda>i. length s - 1 - i) (index_byte c (rev s))"

section \<open>Go maps\<close>

text \<open>
  A Go map is an association list with distinct keys. Assignment is \<open>AList.update\<close>,
  \<open>delete\<close> is \<open>AList.delete\<close>, \<open>len\<close> is \<open>length\<close>. The order of the pairs stands
  for nothing: no definition of the development reads it.
\<close>

definition gomap_ok :: "('k \<times> 'v) list \<Rightarrow> bool" where
  "gomap_ok m \<longleftrightarrow> distinct (map fst m)"

lemma gomap_ok_Nil [simp]: "gomap_ok []"
  by (simp add: gomap_ok_def)

lemma gomap_ok_update [simp]: "gomap_ok m \<Longrightarrow> gomap_ok (AList.update k v m)"
  by (simp add: gomap_ok_def distinct_update)

lemma gomap_ok_delete [simp]: "gomap_ok m \<Longrightarrow> gomap_ok (AList.delete k m)"
  by (simp add: gomap_ok_def distinct_delete)

lemma gomap_ok_filter [simp]: "gomap_ok m \<Longrightarrow> gomap_ok (filter P m)"
  by (simp add: gomap_ok_def distinct_map_filter)

lemma gomap_get_set [gomap_simps]: "map_of (AList.update k v m) = (map_of m)(k \<mapsto> v)"
  by (simp add: update_conv')

lemma gomap_get_delete [gomap_simps]: "map_of (AList.delete k m) = (map_of m)(k := None)"
  by (simp add: delete_conv')

lemma gomap_len_set [gomap_simps]:
  "length (AList.update k v m) = (if map_of m k = None then Suc (length m) else length m)"
  by (induction m) auto

lemma gomap_len_delete_le: "length (AList.delete k m) \<le> length m"
  by (induction m) auto

lemma gomap_len_delete [gomap_simps]:
  "gomap_ok m \<Longrightarrow> length (AList.delete k m) = (if map_of m k = None then length m else length m - 1)"
proof (induction m)
  case (Cons p m)
  obtain k' v' where p: "p = (k', v')" by (cases p)
  show ?case
  proof (cases "k = k'")
    case True
    with Cons.prems p have "AList.delete k m = m"
      by (simp add: gomap_ok_def delete_idem)
    with True p show ?thesis by simp
  next
    case False
    with Cons p have "m \<noteq> [] \<or> map_of m k = None" by (cases m) auto
    with False Cons p show ?thesis by (cases m) (auto simp: gomap_ok_def)
  qed
qed simp

lemma gomap_get_filter:
  assumes "gomap_ok m"
  shows "map_of (filter P m) k = (case map_of m k of None \<Rightarrow> None | Some v \<Rightarrow> if P (k, v) then Some v else None)"
  using assms
proof (induction m)
  case (Cons p m)
  obtain k' v' where p: "p = (k', v')" by (cases p)
  with Cons.prems have "gomap_ok m" "map_of m k' = None"
    by (auto simp: gomap_ok_def map_of_eq_None_iff)
  with Cons.IH p show ?case by (cases "k = k'") auto
qed simp

section \<open>Searching\<close>

lemma find_some_in: "find P xs = Some x \<Longrightarrow> x \<in> set xs \<and> P x"
  by (auto simp: find_Some_iff)

lemma find_eq_None: "find P xs = None \<longleftrightarrow> (\<forall>x\<in>set xs. \<not> P x)"
  by (auto simp: find_None_iff)

lemma find_unique:
  assumes "x \<in> set xs" "P x" "\<And>y. y \<in> set xs \<Longrightarrow> P y \<Longrightarrow> y = x"
  shows "find P xs = Some x"
proof (cases "find P xs")
  case None
  with assms(1,2) show ?thesis by (auto simp: find_None_iff)
next
  case (Some y)
  then have "y \<in> set xs \<and> P y" by (rule find_some_in)
  with assms(3) Some show ?thesis by simp
qed

lemma append_Cons_eq_cases:
  "ys @ r # zs = ys' @ m # zs' \<Longrightarrow>
     ys = ys' \<and> r = m \<and> zs = zs' \<or> m \<in> set ys \<and> r \<in> set zs' \<or> r \<in> set ys' \<and> m \<in> set zs"
proof (induction ys arbitrary: ys')
  case Nil
  then show ?case by (cases ys') auto
next
  case (Cons y ys)
  show ?case
  proof (cases ys')
    case Nil
    with Cons.prems show ?thesis by auto
  next
    case (Cons y' ys'')
    with Cons.prems Cons.IH[of ys''] show ?thesis by auto
  qed
qed

end
