(* ===== verification/DjClass.thy ===== *)
theory DjClass
  imports Prelude "HOL-Library.Product_Lexorder"
begin

text \<open>
  The badge rules of \<open>internal/djclass/djclass.go\<close>: parsing a V-ARCHIVE class string into
  rank and level, the sort key, the selection of one row and the badge built from it.

  A \<open>float64\<close> is modelled by the rational number it denotes. The values come from JSON and
  from SQLite, so they are finite; the code compares them with one constant and floors them,
  and both are exact on that number. \<open>TheoryConversion\<close> is the \<open>float64\<close> nearest to
  9999.9847, written out as the dyadic number it is.
\<close>

section \<open>Tables\<close>

definition TheoryPower :: int where
  "TheoryPower = 10000"

definition TheoryConversion :: rat where
  "TheoryConversion = 343596857976003 / 34359738368"

definition RankOrder :: "string list" where
  "RankOrder =
     [''THE LORD OF DJMAX'', ''BEAT MAESTRO'', ''SHOWSTOPPER'', ''HEADLINER'', ''TREND SETTER'',
      ''PROFESSIONAL'', ''HIGH CLASS'', ''PRO DJ'', ''MIDDLEMAN'', ''STREET DJ'', ''ROOKIE'',
      ''AMATEUR'', ''TRAINEE'', ''BEGINNER'']"

definition rankThresholds :: "(string \<times> (string \<times> int) list) list" where
  "rankThresholds =
    [(''THE LORD OF DJMAX'', [(''default'', 9980)]),
     (''BEAT MAESTRO'', [(''IV'', 9900), (''III'', 9930), (''II'', 9950), (''I'', 9970)]),
     (''SHOWSTOPPER'', [(''IV'', 9700), (''III'', 9750), (''II'', 9800), (''I'', 9850)]),
     (''HEADLINER'', [(''IV'', 9400), (''III'', 9500), (''II'', 9600), (''I'', 9650)]),
     (''TREND SETTER'', [(''IV'', 9000), (''III'', 9100), (''II'', 9200), (''I'', 9300)]),
     (''PROFESSIONAL'', [(''IV'', 8600), (''III'', 8700), (''II'', 8800), (''I'', 8900)]),
     (''HIGH CLASS'', [(''IV'', 7800), (''III'', 8000), (''II'', 8200), (''I'', 8400)]),
     (''PRO DJ'', [(''IV'', 7000), (''III'', 7200), (''II'', 7400), (''I'', 7600)]),
     (''MIDDLEMAN'', [(''IV'', 6200), (''III'', 6400), (''II'', 6600), (''I'', 6800)]),
     (''STREET DJ'', [(''IV'', 5200), (''III'', 5500), (''II'', 5800), (''I'', 6000)]),
     (''ROOKIE'', [(''IV'', 4000), (''III'', 4300), (''II'', 4600), (''I'', 4900)]),
     (''AMATEUR'', [(''IV'', 2400), (''III'', 2800), (''II'', 3200), (''I'', 3600)]),
     (''TRAINEE'', [(''IV'', 500), (''III'', 1000), (''II'', 1500), (''I'', 2000)]),
     (''BEGINNER'', [(''default'', 0)])]"

definition shortNames :: "(string \<times> string) list" where
  "shortNames =
    [(''THE LORD OF DJMAX'', ''LoD''), (''BEAT MAESTRO'', ''BM''), (''SHOWSTOPPER'', ''SS''),
     (''HEADLINER'', ''HL''), (''TREND SETTER'', ''TS''), (''PROFESSIONAL'', ''PRO''),
     (''HIGH CLASS'', ''HC''), (''PRO DJ'', ''PD''), (''MIDDLEMAN'', ''MM''),
     (''STREET DJ'', ''SD''), (''ROOKIE'', ''RK''), (''AMATEUR'', ''AM''),
     (''TRAINEE'', ''TR''), (''BEGINNER'', ''BG'')]"

definition levelValues :: "(string \<times> int) list" where
  "levelValues = [(''I'', 4), (''II'', 3), (''III'', 2), (''IV'', 1)]"

definition buttonPreference :: "(int \<times> int) list" where
  "buttonPreference = [(8, 3), (5, 2), (6, 1), (4, 0)]"

section \<open>The two regular expressions\<close>

text \<open>
  \<open>levelRe = (?i)\s+(I|II|III|IV|V|VI|VII|VIII|IX|X)$\<close>. The expression is anchored at the
  end of the text and its numeral holds no white space, so a match is the last word of the
  text, with the white space before it; the leftmost match takes all of that white space.
  \<open>level_split s\<close> is that match: the text before it, and the numeral as it is written.
  \<open>level_match\<close> is the language of the expression; \<open>level_split_spec\<close> below shows that
  \<open>level_split\<close> finds the leftmost match of it.
\<close>

definition romanLevels :: "string list" where
  "romanLevels = [''I'', ''II'', ''III'', ''IV'', ''V'', ''VI'', ''VII'', ''VIII'', ''IX'', ''X'']"

definition level_split :: "string \<Rightarrow> (string \<times> string) option" where
  "level_split s =
     (let l = rev (takeWhile (\<lambda>c. \<not> re_space c) (rev s));
          p = dropWhile (\<lambda>c. \<not> re_space c) (rev s)
      in if p \<noteq> [] \<and> to_upper l \<in> set romanLevels
         then Some (rev (dropWhile re_space p), l) else None)"

definition level_match :: "string \<Rightarrow> string \<Rightarrow> string \<Rightarrow> string \<Rightarrow> bool" where
  "level_match s pre ws l \<longleftrightarrow>
     s = pre @ ws @ l \<and> ws \<noteq> [] \<and> (\<forall>c\<in>set ws. re_space c) \<and> to_upper l \<in> set romanLevels"

text \<open>\<open>levelRe.ReplaceAllString(s, "")\<close>.\<close>

definition strip_level :: "string \<Rightarrow> string" where
  "strip_level s = (case level_split s of None \<Rightarrow> s | Some (pre, l) \<Rightarrow> pre)"

text \<open>\<open>prefixRe.ReplaceAllString(s, "")\<close> for \<open>prefixRe = ^\d+B\s+\<close>.\<close>

definition strip_prefix :: "string \<Rightarrow> string" where
  "strip_prefix s =
     (let r = dropWhile re_digit s in
      if r \<noteq> s \<and> r \<noteq> [] \<and> hd r = CHR ''B'' \<and> tl r \<noteq> [] \<and> re_space (hd (tl r))
      then dropWhile re_space (tl r) else s)"

section \<open>Rows, badges and the operations\<close>

record row =
  row_button :: int
  row_class :: string
  row_conversion :: "rat option"

record badge =
  badge_button :: int
  badge_class :: string
  badge_rank :: string
  badge_power :: "int option"
  badge_threshold :: "int option"
  badge_is_theory :: bool

definition IsTheoryPower :: "int option \<Rightarrow> bool" where
  "IsTheoryPower pw = (case pw of None \<Rightarrow> False | Some p \<Rightarrow> TheoryPower \<le> p)"

definition IsTheoryConversion :: "rat option \<Rightarrow> bool" where
  "IsTheoryConversion conv = (case conv of None \<Rightarrow> False | Some x \<Rightarrow> TheoryConversion \<le> x)"

text \<open>
  \<open>int(f)\<close> on an integral \<open>float64\<close>. Outside the range of \<open>int64\<close> the Go specification leaves
  the value to the implementation; amd64 and arm64 both give the least \<open>int64\<close> below the
  range, and above it the value is replaced by \<open>TheoryPower\<close> before it is read.
\<close>

definition int_of_float :: "int \<Rightarrow> int" where
  "int_of_float n = (if - (2 ^ 63) \<le> n \<and> n < 2 ^ 63 then n else - (2 ^ 63))"

definition ToPowerInteger :: "rat option \<Rightarrow> int option" where
  "ToPowerInteger conv =
     (case conv of None \<Rightarrow> None
      | Some x \<Rightarrow> (let p = int_of_float \<lfloor>x\<rfloor>;
                       p = (if IsTheoryConversion conv then TheoryPower else p) in Some p))"

definition ParseRankName :: "string \<Rightarrow> string" where
  "ParseRankName class =
     (let s = strip_prefix class; s = trim_space (strip_level s) in
      if s = '''' then ''BEGINNER'' else s)"

definition ExtractLevel :: "string \<Rightarrow> string" where
  "ExtractLevel class = (case level_split class of None \<Rightarrow> '''' | Some (pre, l) \<Rightarrow> to_upper l)"

definition Threshold :: "string \<Rightarrow> string \<Rightarrow> int option" where
  "Threshold rank level =
     (case map_of rankThresholds rank of None \<Rightarrow> None
      | Some t \<Rightarrow>
        (case map_of t ''default'' of Some v \<Rightarrow> Some v
         | None \<Rightarrow>
           (case map_of t level of
              Some v \<Rightarrow> if level \<noteq> '''' then Some v else None
            | None \<Rightarrow> None)))"

text \<open>\<open>slices.Index(RankOrder, rank)\<close>, None for -1.\<close>

definition rank_index :: "string \<Rightarrow> nat option" where
  "rank_index rank =
     (if rank \<in> set RankOrder then Some (length (takeWhile (\<lambda>r. r \<noteq> rank) RankOrder)) else None)"

definition SortKey :: "row \<Rightarrow> int \<times> int \<times> int" where
  "SortKey r =
     (let rank = ParseRankName (row_class r);
          rankOrd = (case rank_index rank of None \<Rightarrow> -1
                     | Some i \<Rightarrow> int (length RankOrder) - 1 - int i);
          levelOrd = (if rank = ''THE LORD OF DJMAX'' \<and> IsTheoryConversion (row_conversion r) then 5
                      else let lv = ExtractLevel (row_class r) in
                        if lv \<noteq> '''' then (case map_of levelValues lv of None \<Rightarrow> 0 | Some v \<Rightarrow> v) else 0);
          buttonPref = (case map_of buttonPreference (row_button r) of None \<Rightarrow> -1 | Some v \<Rightarrow> v)
      in (rankOrd, levelOrd, buttonPref))"

datatype selection = Auto | Viewer

text \<open>The loop of \<open>Resolve\<close>: a later row wins only with a strictly greater key.\<close>

fun best_loop :: "row \<Rightarrow> int \<times> int \<times> int \<Rightarrow> row list \<Rightarrow> row" where
  "best_loop best bestKey [] = best"
| "best_loop best bestKey (r # rs) =
     (let k = SortKey r in
      if bestKey < k then best_loop r k rs else best_loop best bestKey rs)"

definition Resolve :: "row list \<Rightarrow> int option \<Rightarrow> selection \<Rightarrow> row option" where
  "Resolve rows preferredButton sel =
     (case rows of [] \<Rightarrow> None
      | r0 # rest \<Rightarrow>
        (case (if sel = Viewer then preferredButton else None) of
           Some b \<Rightarrow>
             (case find (\<lambda>r. row_button r = b) rows of
                Some r \<Rightarrow> Some r
              | None \<Rightarrow> Some (best_loop r0 (SortKey r0) rest))
         | None \<Rightarrow> Some (best_loop r0 (SortKey r0) rest)))"

definition BuildBadge :: "row \<Rightarrow> badge" where
  "BuildBadge r =
     (let rank = ParseRankName (row_class r);
          level = ExtractLevel (row_class r);
          short = (case map_of shortNames rank of Some s \<Rightarrow> s | None \<Rightarrow> rank);
          class = short;
          class = (if level \<noteq> '''' then class @ '' '' @ level else class);
          pw = ToPowerInteger (row_conversion r)
      in \<lparr>badge_button = row_button r, badge_class = class, badge_rank = short,
          badge_power = pw, badge_threshold = Threshold rank level,
          badge_is_theory = IsTheoryPower pw\<rparr>)"

definition ValidPreferredButton :: "int option \<Rightarrow> int list \<Rightarrow> bool" where
  "ValidPreferredButton button available =
     (case button of None \<Rightarrow> True | Some b \<Rightarrow> b \<in> set available)"

section \<open>The level expression\<close>


lemma romanLevels_no_space: "to_upper l \<in> set romanLevels \<Longrightarrow> c \<in> set l \<Longrightarrow> \<not> re_space c"
proof
  assume r: "to_upper l \<in> set romanLevels" and c: "c \<in> set l" and sp: "re_space c"
  have all: "\<forall>w\<in>set romanLevels. \<forall>c\<in>set w. \<not> re_space c" by code_simp
  have "upper_char c = c" using sp by (auto simp: re_space_def upper_char_def)
  with c have "c \<in> set (to_upper l)" unfolding to_upper_def by force
  with all r sp show False by blast
qed

lemma level_match_last_word:
  assumes "level_match s pre ws l"
  shows "rev (takeWhile (\<lambda>c. \<not> re_space c) (rev s)) = l"
    and "dropWhile (\<lambda>c. \<not> re_space c) (rev s) = rev ws @ rev pre"
proof -
  from assms have s: "rev s = rev l @ rev ws @ rev pre" and ws: "ws \<noteq> []" "\<forall>c\<in>set ws. re_space c"
    and nl: "\<forall>c\<in>set (rev l). \<not> re_space c"
    by (auto simp: level_match_def dest: romanLevels_no_space)
  from ws obtain w ws' where w: "rev ws = w # ws'" by (cases "rev ws") auto
  with ws have "re_space w" by (metis list.set_intros(1) set_rev)
  have "takeWhile (\<lambda>c. \<not> re_space c) (rev s) = rev l"
    using nl w \<open>re_space w\<close> unfolding s by (subst takeWhile_append2) auto
  then show "rev (takeWhile (\<lambda>c. \<not> re_space c) (rev s)) = l" by simp
  show "dropWhile (\<lambda>c. \<not> re_space c) (rev s) = rev ws @ rev pre"
    using nl w \<open>re_space w\<close> unfolding s by (subst dropWhile_append2) auto
qed

lemma level_split_match:
  assumes "level_split s = Some (pre, l)"
  shows "\<exists>ws. level_match s pre ws l"
proof -
  let ?p = "dropWhile (\<lambda>c. \<not> re_space c) (rev s)"
  from assms have p: "?p \<noteq> []" and l: "l = rev (takeWhile (\<lambda>c. \<not> re_space c) (rev s))"
    and up: "to_upper l \<in> set romanLevels" and pre: "pre = rev (dropWhile re_space ?p)"
    by (auto simp: level_split_def Let_def split: if_splits)
  define ws where "ws = rev (takeWhile re_space ?p)"
  have "rev ?p = pre @ ws" unfolding pre ws_def by (metis rev_append takeWhile_dropWhile_id)
  moreover have "s = rev ?p @ l" unfolding l by (metis rev_append rev_rev_ident takeWhile_dropWhile_id)
  moreover have "ws \<noteq> []" using p hd_dropWhile[OF p] unfolding ws_def by (cases ?p) auto
  moreover have "\<forall>c\<in>set ws. re_space c" unfolding ws_def by (auto dest: set_takeWhileD)
  ultimately show ?thesis using up by (auto simp: level_match_def)
qed

lemma level_split_leftmost:
  assumes "level_match s pre ws l"
  shows "\<exists>pre'. level_split s = Some (pre', l) \<and> length pre' \<le> length pre"
proof -
  note lw = level_match_last_word[OF assms]
  from assms have ws: "\<forall>c\<in>set (rev ws). re_space c" "ws \<noteq> []" and up: "to_upper l \<in> set romanLevels"
    by (auto simp: level_match_def)
  have "dropWhile re_space (rev ws @ rev pre) = dropWhile re_space (rev pre)"
    using ws by (subst dropWhile_append2) auto
  then have "level_split s = Some (rev (dropWhile re_space (rev pre)), l)"
    using lw ws up by (simp add: level_split_def Let_def)
  moreover have "length (rev (dropWhile re_space (rev pre))) \<le> length pre"
    using length_dropWhile_le[of re_space "rev pre"] by simp
  ultimately show ?thesis by blast
qed

text \<open>
  the level parser finds exactly the leftmost match of
  \<open>(?i)\s+(I|II|...|X)$\<close>: it returns the text before the match and the numeral, and fails
  only where the expression has no match.
\<close>

theorem level_split_spec:
  "level_split s = Some (pre, l) \<longleftrightarrow>
     (\<exists>ws. level_match s pre ws l) \<and>
     (\<forall>pre' ws' l'. level_match s pre' ws' l' \<longrightarrow> length pre \<le> length pre')"
proof
  assume a: "level_split s = Some (pre, l)"
  then show "(\<exists>ws. level_match s pre ws l) \<and>
     (\<forall>pre' ws' l'. level_match s pre' ws' l' \<longrightarrow> length pre \<le> length pre')"
    using level_split_match[OF a] level_split_leftmost by fastforce
next
  assume r: "(\<exists>ws. level_match s pre ws l) \<and>
     (\<forall>pre' ws' l'. level_match s pre' ws' l' \<longrightarrow> length pre \<le> length pre')"
  then obtain ws where m: "level_match s pre ws l" by blast
  from level_split_leftmost[OF m] obtain pre' where
    sp: "level_split s = Some (pre', l)" and le: "length pre' \<le> length pre" by blast
  from level_split_match[OF sp] obtain ws' where m': "level_match s pre' ws' l" by blast
  with r le have "length pre' = length pre" by force
  with m m' have "pre' = pre" by (auto simp: level_match_def append_eq_append_conv2)
  with sp show "level_split s = Some (pre, l)" by simp
qed

theorem level_split_spec_witness:
  "level_split ''PRO DJ  iii'' = Some (''PRO DJ'', ''iii'')
   \<and> (\<exists>ws. level_match ''PRO DJ  iii'' ''PRO DJ'' ws ''iii'')"
proof -
  have "level_split ''PRO DJ  iii'' = Some (''PRO DJ'', ''iii'')" by code_simp
  with level_split_spec[of "''PRO DJ  iii''" "''PRO DJ''" "''iii''"] show ?thesis by blast
qed

section \<open>Class strings\<close>

definition class_string :: "string \<Rightarrow> string \<Rightarrow> string" where
  "class_string rank level = (if level = '''' then rank else rank @ '' '' @ level)"

definition button_prefix :: "string \<Rightarrow> string" where
  "button_prefix ds = (if ds = '''' then '''' else ds @ ''B '')"

definition last_word :: "string \<Rightarrow> string" where
  "last_word s = rev (takeWhile (\<lambda>c. \<not> re_space c) (rev s))"

lemma re_space_blank [simp]: "re_space CHR '' ''"
  by code_simp

lemma last_word_prefix:
  "ds = '''' \<or> re_space (last ds) \<Longrightarrow> last_word (ds @ s) = last_word s"
  by (cases ds rule: rev_cases) (auto simp: last_word_def takeWhile_append takeWhile_eq_all_conv[THEN iffD2])

lemma level_split_no_roman: "to_upper (last_word s) \<notin> set romanLevels \<Longrightarrow> level_split s = None"
  by (simp add: level_split_def last_word_def Let_def)

lemma level_split_append:
  assumes "to_upper l \<in> set romanLevels" "s \<noteq> ''''" "\<not> re_space (last s)"
  shows "level_split (s @ '' '' @ l) = Some (s, l)"
proof -
  have m: "level_match (s @ '' '' @ l) s '' '' l" using assms by (simp add: level_match_def)
  note lw = level_match_last_word[OF m]
  have "dropWhile re_space ('' '' @ rev s) = rev s"
    using assms(2,3) by (cases s rule: rev_cases) auto
  with lw assms(1) show ?thesis by (simp add: level_split_def Let_def)
qed

lemma strip_prefix_none: "\<not> re_digit (hd s) \<Longrightarrow> strip_prefix s = s"
  by (cases s) (auto simp: strip_prefix_def)

lemma strip_prefix_button:
  assumes "\<forall>c\<in>set ds. re_digit c" "s \<noteq> ''''" "\<not> re_digit (hd s)" "\<not> re_space (hd s)"
  shows "strip_prefix (button_prefix ds @ s) = s"
proof (cases "ds = ''''")
  case True
  with assms(3) show ?thesis by (simp add: button_prefix_def strip_prefix_none)
next
  case False
  have "\<not> re_digit CHR ''B''" by code_simp
  then have "dropWhile re_digit (button_prefix ds @ s) = ''B '' @ s"
    using assms(1) False by (simp add: button_prefix_def dropWhile_append2)
  moreover have "dropWhile re_space ('' '' @ s) = s" using assms(2,4) by (cases s) auto
  ultimately show ?thesis using False
    by (auto simp: strip_prefix_def Let_def button_prefix_def)
qed

lemma RankOrder_shape:
  "list_all (\<lambda>r. r \<noteq> '''' \<and> \<not> re_digit (hd r) \<and> \<not> re_space (hd r) \<and> \<not> re_space (last r)
      \<and> graphic (hd r) \<and> graphic (last r) \<and> to_upper (last_word r) \<notin> set romanLevels) RankOrder"
  by code_simp

lemmas RankOrder_shapeD = RankOrder_shape[unfolded list_all_iff, rule_format]

text \<open>
  A class string as V-ARCHIVE writes it (a rank, then a roman level in either case, with or
  without a \<open>4B \<close> prefix of any digits) parses back into its rank and level.
\<close>

lemma class_string_parse:
  assumes "rank \<in> set RankOrder" "\<forall>c\<in>set ds. re_digit c"
    and "level = '''' \<or> to_upper level \<in> set romanLevels"
  shows "ParseRankName (button_prefix ds @ class_string rank level) = rank
       \<and> ExtractLevel (button_prefix ds @ class_string rank level) = to_upper level"
proof
  note sh = RankOrder_shapeD[OF assms(1)]
  have pre: "strip_prefix (button_prefix ds @ class_string rank level) = class_string rank level"
    by (rule strip_prefix_button) (use sh assms(2) in \<open>auto simp: class_string_def\<close>)
  have bp: "button_prefix ds = '''' \<or> re_space (last (button_prefix ds))"
    by (simp add: button_prefix_def)
  have sl: "strip_level (class_string rank level) = rank"
  proof (cases "level = ''''")
    case True
    with sh show ?thesis by (simp add: strip_level_def class_string_def level_split_no_roman)
  next
    case False
    with sh assms(3) level_split_append[of level rank] show ?thesis
      by (simp add: strip_level_def class_string_def)
  qed
  show "ParseRankName (button_prefix ds @ class_string rank level) = rank"
    using sh by (simp add: ParseRankName_def pre sl trim_space_graphic)
  show "ExtractLevel (button_prefix ds @ class_string rank level) = to_upper level"
  proof (cases "level = ''''")
    case True
    with sh last_word_prefix[OF bp, of rank] show ?thesis
      by (simp add: ExtractLevel_def class_string_def level_split_no_roman to_upper_def)
  next
    case False
    then have up: "to_upper level \<in> set romanLevels" using assms(3) by simp
    from sh have "level_split ((button_prefix ds @ rank) @ '' '' @ level) = Some (button_prefix ds @ rank, level)"
      by (intro level_split_append up) auto
    with False show ?thesis by (simp add: ExtractLevel_def class_string_def)
  qed
qed

text \<open>
  parsing inverts writing: for every rank of \<open>RankOrder\<close>, every level (or none), in
  either letter case, and every button prefix, \<open>ParseRankName\<close> and \<open>ExtractLevel\<close> of the
  written class give back the rank and the upper-cased level.
\<close>

theorem class_string_parses:
  assumes "rank \<in> set RankOrder" "\<forall>c\<in>set ds. re_digit c"
    and "level = '''' \<or> to_upper level \<in> set romanLevels"
  shows "ParseRankName (button_prefix ds @ class_string rank level) = rank
       \<and> ExtractLevel (button_prefix ds @ class_string rank level) = to_upper level"
  using assms by (rule class_string_parse)

theorem class_string_parses_witness:
  "ParseRankName (button_prefix ''4'' @ class_string ''PRO DJ'' ''iv'') = ''PRO DJ''
   \<and> ExtractLevel (button_prefix ''4'' @ class_string ''PRO DJ'' ''iv'') = to_upper ''iv''"
  by (rule class_string_parses) code_simp+

section \<open>Power and theory\<close>

lemma TheoryConversion_bounds: "9999 < TheoryConversion" "TheoryConversion < 10000"
  by (simp_all add: TheoryConversion_def)

lemma ToPowerInteger_None [simp]: "ToPowerInteger None = None"
  by (simp add: ToPowerInteger_def)

lemma ToPowerInteger_theory: "TheoryConversion \<le> x \<Longrightarrow> ToPowerInteger (Some x) = Some TheoryPower"
  by (simp add: ToPowerInteger_def IsTheoryConversion_def Let_def)

lemma ToPowerInteger_below:
  "x < TheoryConversion \<Longrightarrow> - (2 ^ 63) \<le> x \<Longrightarrow> ToPowerInteger (Some x) = Some \<lfloor>x\<rfloor>"
proof -
  assume x: "x < TheoryConversion" "- (2 ^ 63) \<le> x"
  have "x < 10000" using x TheoryConversion_bounds by linarith
  then have "\<lfloor>x\<rfloor> < 10000" by (simp add: floor_less_iff)
  moreover have "- (2 ^ 63) \<le> \<lfloor>x\<rfloor>" using x(2) by (simp add: le_floor_iff)
  ultimately show ?thesis using x(1)
    by (simp add: ToPowerInteger_def IsTheoryConversion_def int_of_float_def)
qed

lemma ToPowerInteger_lt: "x < TheoryConversion \<Longrightarrow> ToPowerInteger (Some x) = Some p \<Longrightarrow> p < TheoryPower"
proof -
  assume x: "x < TheoryConversion" and p: "ToPowerInteger (Some x) = Some p"
  have "x < 10000" using x TheoryConversion_bounds by linarith
  then have "\<lfloor>x\<rfloor> < 10000" by (simp add: floor_less_iff)
  with x p show ?thesis
    by (auto simp: ToPowerInteger_def IsTheoryConversion_def int_of_float_def TheoryPower_def split: if_splits)
qed

lemma is_theory_iff: "IsTheoryPower (ToPowerInteger conv) \<longleftrightarrow> IsTheoryConversion conv"
proof (cases conv)
  case None
  then show ?thesis by (simp add: IsTheoryPower_def IsTheoryConversion_def)
next
  case (Some x)
  show ?thesis
  proof (cases "TheoryConversion \<le> x")
    case True
    then show ?thesis by (simp add: Some ToPowerInteger_theory IsTheoryPower_def IsTheoryConversion_def)
  next
    case False
    then have "x < TheoryConversion" by simp
    moreover obtain p where "ToPowerInteger (Some x) = Some p"
      by (auto simp: ToPowerInteger_def Let_def)
    ultimately show ?thesis using ToPowerInteger_lt[of x p] False
      by (simp add: Some IsTheoryPower_def IsTheoryConversion_def)
  qed
qed

text \<open>
  a badge is a theory badge exactly when the raw conversion reaches \<open>TheoryConversion\<close>;
  the shown power is missing exactly when the conversion is, never exceeds 10000, and is
  10000 only for theory.
\<close>

theorem badge_power_theory:
  "(badge_is_theory (BuildBadge r) \<longleftrightarrow> IsTheoryConversion (row_conversion r))
   \<and> (case badge_power (BuildBadge r) of
        None \<Rightarrow> row_conversion r = None
      | Some p \<Rightarrow> row_conversion r \<noteq> None \<and> p \<le> TheoryPower
                 \<and> (p = TheoryPower \<longleftrightarrow> badge_is_theory (BuildBadge r)))"
proof (cases "row_conversion r")
  case None
  then show ?thesis by (simp add: BuildBadge_def Let_def IsTheoryPower_def IsTheoryConversion_def)
next
  case (Some x)
  then obtain p where p: "ToPowerInteger (Some x) = Some p" by (auto simp: ToPowerInteger_def Let_def)
  show ?thesis
  proof (cases "TheoryConversion \<le> x")
    case True
    with Some p show ?thesis
      by (auto simp: BuildBadge_def Let_def ToPowerInteger_theory IsTheoryPower_def IsTheoryConversion_def)
  next
    case False
    then have "p < TheoryPower" using ToPowerInteger_lt[OF _ p] by simp
    with Some p False show ?thesis
      by (auto simp: BuildBadge_def Let_def IsTheoryPower_def IsTheoryConversion_def)
  qed
qed

section \<open>The documented order\<close>

definition position :: "'a list \<Rightarrow> 'a \<Rightarrow> nat" where
  "position xs x = length (takeWhile (\<lambda>y. y \<noteq> x) xs)"

definition docRanks :: "string list" where
  "docRanks = [''LoD'', ''BM'', ''SS'', ''HL'', ''TS'', ''PRO'', ''HC'', ''PD'', ''MM'', ''SD'', ''RK'', ''AM'', ''TR'', ''BG'']"

definition docLevels :: "string list" where
  "docLevels = [''theory'', ''I'', ''II'', ''III'', ''IV'']"

definition docButtons :: "int list" where
  "docButtons = [8, 5, 6, 4]"

definition doc_level :: "row \<Rightarrow> string" where
  "doc_level r = (if badge_rank (BuildBadge r) = ''LoD'' \<and> badge_is_theory (BuildBadge r) then ''theory''
                  else ExtractLevel (row_class r))"

definition doc_rank_key :: "row \<Rightarrow> nat \<times> nat \<times> nat" where
  "doc_rank_key r = (position docRanks (badge_rank (BuildBadge r)),
                     position docLevels (doc_level r), position docButtons (row_button r))"

definition known_row :: "row \<Rightarrow> bool" where
  "known_row r \<longleftrightarrow> ParseRankName (row_class r) \<in> set RankOrder
     \<and> ExtractLevel (row_class r) \<in> set ['''', ''I'', ''II'', ''III'', ''IV'']
     \<and> row_button r \<in> set docButtons"

lemma rank_table:
  "list_all (\<lambda>k. case map_of shortNames k of None \<Rightarrow> False
     | Some s \<Rightarrow> rank_index k = Some (position docRanks s) \<and> position docRanks s < 14
         \<and> (s = ''LoD'') = (k = ''THE LORD OF DJMAX'')) RankOrder"
  by code_simp

lemma level_table:
  "list_all (\<lambda>l. (if l \<noteq> '''' then (case map_of levelValues l of None \<Rightarrow> 0 | Some v \<Rightarrow> v) else 0)
     = 5 - int (position docLevels l)) ['''', ''I'', ''II'', ''III'', ''IV'']"
  by code_simp

lemma button_table:
  "list_all (\<lambda>b. map_of buttonPreference b = Some (3 - int (position docButtons b))) docButtons"
  by code_simp

lemma SortKey_doc:
  assumes "known_row r"
  shows "SortKey r = (case doc_rank_key r of (a, b, c) \<Rightarrow> (13 - int a, 5 - int b, 3 - int c))"
proof -
  let ?k = "ParseRankName (row_class r)" and ?l = "ExtractLevel (row_class r)"
  from assms have k: "?k \<in> set RankOrder" and l: "?l \<in> set ['''', ''I'', ''II'', ''III'', ''IV'']"
    and b: "row_button r \<in> set docButtons" by (auto simp: known_row_def)
  from rank_table k obtain s where s: "map_of shortNames ?k = Some s"
    "rank_index ?k = Some (position docRanks s)" "(s = ''LoD'') = (?k = ''THE LORD OF DJMAX'')"
    by (fastforce simp: list_all_iff split: option.splits)
  from level_table l have lv: "(if ?l \<noteq> '''' then (case map_of levelValues ?l of None \<Rightarrow> 0 | Some v \<Rightarrow> v) else 0)
     = 5 - int (position docLevels ?l)" by (simp only: list_all_iff)
  from button_table b have bt: "map_of buttonPreference (row_button r) = Some (3 - int (position docButtons (row_button r)))"
    by (simp only: list_all_iff)
  have rk: "badge_rank (BuildBadge r) = s" and th: "badge_is_theory (BuildBadge r) = IsTheoryConversion (row_conversion r)"
    using s(1) by (simp_all add: BuildBadge_def Let_def is_theory_iff)
  have len: "length RankOrder = 14" and pt: "position docLevels ''theory'' = 0" by code_simp+
  show ?thesis
    by (simp add: SortKey_def doc_rank_key_def rk th doc_level_def s(2,3) bt lv len pt Let_def cong: if_cong)
qed

text \<open>
  C31: on rows with a known rank, level and button, \<open>SortKey\<close> orders rows as the README
  documents: by the short rank \<open>LoD > BM > ... > BG\<close>, then \<open>theory > I > II > III > IV\<close>,
  then the button \<open>8 > 5 > 6 > 4\<close>, where theory is read off the badge that is shown.
\<close>

theorem SortKey_documented_order:
  assumes "known_row r1" "known_row r2"
  shows "SortKey r1 < SortKey r2 \<longleftrightarrow> doc_rank_key r2 < doc_rank_key r1"
  by (cases "doc_rank_key r1"; cases "doc_rank_key r2") (auto simp: SortKey_doc assms less_prod_simp)

theorem SortKey_documented_order_witness:
  "SortKey \<lparr>row_button = 4, row_class = ''SHOWSTOPPER II'', row_conversion = Some 9990\<rparr>
     < SortKey \<lparr>row_button = 8, row_class = ''SHOWSTOPPER II'', row_conversion = Some 9810\<rparr>"
  by (subst SortKey_documented_order) code_simp+

section \<open>The ladder of classes\<close>

definition ladder :: "(string \<times> string) list" where
  "ladder = concat (map (\<lambda>r. if r = ''THE LORD OF DJMAX'' \<or> r = ''BEGINNER'' then [(r, '''')]
                            else map (Pair r) [''I'', ''II'', ''III'', ''IV'']) RankOrder)"

definition class_row :: "int \<Rightarrow> string \<times> string \<Rightarrow> row" where
  "class_row b c = \<lparr>row_button = b, row_class = class_string (fst c) (snd c), row_conversion = None\<rparr>"

lemma ladder_known:
  "list_all (\<lambda>c. fst c \<in> set RankOrder \<and> (snd c = '''' \<or> to_upper (snd c) \<in> set romanLevels)
      \<and> to_upper (snd c) = snd c) ladder"
  by code_simp

lemma ladder_parse:
  assumes "c \<in> set ladder"
  shows "ParseRankName (row_class (class_row b c)) = fst c" "ExtractLevel (row_class (class_row b c)) = snd c"
proof -
  from ladder_known assms have c: "fst c \<in> set RankOrder"
    "snd c = '''' \<or> to_upper (snd c) \<in> set romanLevels" "to_upper (snd c) = snd c"
    unfolding list_all_iff by blast+
  from class_string_parse[OF c(1) _ c(2), of "''''"] c(3)
  show "ParseRankName (row_class (class_row b c)) = fst c" "ExtractLevel (row_class (class_row b c)) = snd c"
    by (simp_all add: class_row_def button_prefix_def)
qed

text \<open>Rank and level ordinal of a class, as the sort key computes them.\<close>

definition class_ord :: "string \<times> string \<Rightarrow> int \<times> int" where
  "class_ord c = (case rank_index (fst c) of None \<Rightarrow> -1 | Some i \<Rightarrow> 13 - int i,
                  case map_of levelValues (snd c) of None \<Rightarrow> 0 | Some v \<Rightarrow> v)"

lemma SortKey_class_row:
  assumes "c \<in> set ladder"
  shows "SortKey (class_row b c) =
     (fst (class_ord c), snd (class_ord c),
      case map_of buttonPreference b of None \<Rightarrow> -1 | Some v \<Rightarrow> v)"
proof -
  have "length RankOrder = 14" "map_of levelValues '''' = None" by code_simp+
  with ladder_parse[OF assms, of b] show ?thesis
    by (auto simp: SortKey_def class_ord_def class_row_def IsTheoryConversion_def Let_def split: option.splits)
qed

lemma ladder_ords: "sorted_wrt (\<lambda>a b. b < a) (map class_ord ladder)"
  by code_simp

lemma ladder_thresholds:
  "sorted_wrt (\<lambda>t u. u < t) (map (\<lambda>c. the (Threshold (fst c) (snd c))) ladder)"
  "list_all (\<lambda>c. Threshold (fst c) (snd c) \<noteq> None) ladder"
  by code_simp+

lemma sorted_wrt_conj: "sorted_wrt P xs \<Longrightarrow> sorted_wrt Q xs \<Longrightarrow> sorted_wrt (\<lambda>x y. P x y \<and> Q x y) xs"
  by (induction xs) auto

lemma ladder_ordered:
  "sorted_wrt (\<lambda>c d. class_ord d < class_ord c
      \<and> the (Threshold (fst d) (snd d)) < the (Threshold (fst c) (snd c))) ladder"
  using ladder_ords ladder_thresholds(1) by (intro sorted_wrt_conj) (simp_all add: sorted_wrt_map)

text \<open>
  down the ladder of the 50 classes, best first, the sort key and the threshold shown by
  the badge both strictly decrease, on every button: the threshold table agrees with the
  order the selection uses.
\<close>

theorem thresholds_follow_sort_order:
  "sorted_wrt (\<lambda>c d. SortKey (class_row b d) < SortKey (class_row b c)
      \<and> (\<exists>t u. badge_threshold (BuildBadge (class_row b c)) = Some t
             \<and> badge_threshold (BuildBadge (class_row b d)) = Some u \<and> u < t)) ladder"
proof (rule sorted_wrt_mono_rel[OF _ ladder_ordered])
  fix c d
  assume c: "c \<in> set ladder" and d: "d \<in> set ladder"
    and o: "class_ord d < class_ord c
      \<and> the (Threshold (fst d) (snd d)) < the (Threshold (fst c) (snd c))"
  from c d have "badge_threshold (BuildBadge (class_row b c)) = Threshold (fst c) (snd c)"
    "badge_threshold (BuildBadge (class_row b d)) = Threshold (fst d) (snd d)"
    by (simp_all add: BuildBadge_def Let_def ladder_parse)
  moreover from c d ladder_thresholds(2)
  have "Threshold (fst c) (snd c) \<noteq> None" "Threshold (fst d) (snd d) \<noteq> None"
    unfolding list_all_iff by blast+
  moreover have "SortKey (class_row b d) < SortKey (class_row b c)"
    using o c d by (cases "class_ord c"; cases "class_ord d") (auto simp: SortKey_class_row less_prod_simp)
  ultimately show "SortKey (class_row b d) < SortKey (class_row b c)
      \<and> (\<exists>t u. badge_threshold (BuildBadge (class_row b c)) = Some t
             \<and> badge_threshold (BuildBadge (class_row b d)) = Some u \<and> u < t)"
    using o by auto
qed

lemma ladder_labels:
  "distinct (map (\<lambda>c. (case map_of shortNames (fst c) of Some s \<Rightarrow> s | None \<Rightarrow> fst c)
     @ (if snd c \<noteq> '''' then '' '' @ snd c else '''')) ladder)"
  by code_simp

text \<open>no two of the 50 classes show the same badge text.\<close>

theorem badge_label_injective:
  "distinct (map (\<lambda>c. badge_class (BuildBadge (class_row b c))) ladder)"
proof -
  have "map (\<lambda>c. badge_class (BuildBadge (class_row b c))) ladder
      = map (\<lambda>c. (case map_of shortNames (fst c) of Some s \<Rightarrow> s | None \<Rightarrow> fst c)
     @ (if snd c \<noteq> '''' then '' '' @ snd c else '''')) ladder"
    by (rule map_cong[OF refl]) (simp add: BuildBadge_def Let_def ladder_parse)
  with ladder_labels show ?thesis by (simp only:)
qed

section \<open>Selection\<close>

definition first_max :: "row list \<Rightarrow> row \<Rightarrow> bool" where
  "first_max rows r \<longleftrightarrow> (\<exists>ys zs. rows = ys @ r # zs \<and> (\<forall>y\<in>set ys. SortKey y < SortKey r)
                              \<and> (\<forall>z\<in>set zs. SortKey z \<le> SortKey r))"

lemma first_max_single: "first_max [b] b"
  unfolding first_max_def by (intro exI[of _ "[]"]) simp

lemma first_max_ge: "first_max rows r \<Longrightarrow> x \<in> set rows \<Longrightarrow> SortKey x \<le> SortKey r"
  by (auto simp: first_max_def) (meson order_less_imp_le)

lemma first_max_step_up: "first_max (r # rs) m \<Longrightarrow> SortKey b < SortKey r \<Longrightarrow> first_max (b # r # rs) m"
proof -
  assume fm: "first_max (r # rs) m" and lt: "SortKey b < SortKey r"
  from first_max_ge[OF fm, of r] lt have "SortKey b < SortKey m" by simp
  moreover from fm obtain ys zs where "r # rs = ys @ m # zs" "\<forall>y\<in>set ys. SortKey y < SortKey m"
    "\<forall>z\<in>set zs. SortKey z \<le> SortKey m" by (auto simp: first_max_def)
  ultimately show ?thesis unfolding first_max_def
    by (intro exI[of _ "b # ys"] exI[of _ zs]) simp
qed

lemma first_max_step_keep: "first_max (b # rs) m \<Longrightarrow> SortKey r \<le> SortKey b \<Longrightarrow> first_max (b # r # rs) m"
proof -
  assume fm: "first_max (b # rs) m" and le: "SortKey r \<le> SortKey b"
  from fm obtain ys zs where s: "b # rs = ys @ m # zs" "\<forall>y\<in>set ys. SortKey y < SortKey m"
    "\<forall>z\<in>set zs. SortKey z \<le> SortKey m" by (auto simp: first_max_def)
  show ?thesis
  proof (cases ys)
    case Nil
    with s le show ?thesis unfolding first_max_def by (intro exI[of _ "[]"] exI[of _ "r # zs"]) auto
  next
    case (Cons y ys')
    with s have "y = b" "SortKey b < SortKey m" by auto
    with s le Cons show ?thesis unfolding first_max_def
      by (intro exI[of _ "b # r # ys'"] exI[of _ zs]) auto
  qed
qed

lemma best_loop_first_max: "first_max (b # rs) (best_loop b (SortKey b) rs)"
  by (induction rs arbitrary: b)
    (auto simp: first_max_single Let_def not_less intro: first_max_step_up first_max_step_keep)

lemma first_max_unique:
  assumes "first_max rows r" "first_max rows m"
  shows "r = m"
proof -
  from assms obtain ys zs ys' zs' where e: "rows = ys @ r # zs" "rows = ys' @ m # zs'"
    and r: "\<forall>y\<in>set ys. SortKey y < SortKey r" "\<forall>z\<in>set zs. SortKey z \<le> SortKey r"
    and m: "\<forall>y\<in>set ys'. SortKey y < SortKey m" "\<forall>z\<in>set zs'. SortKey z \<le> SortKey m"
    unfolding first_max_def by blast
  from e have "ys @ r # zs = ys' @ m # zs'" by simp
  from append_Cons_eq_cases[OF this] r m show ?thesis by (meson leD)
qed

lemma Resolve_Cons_Auto: "Resolve (b # rs) p Auto = Some (best_loop b (SortKey b) rs)"
  by (simp add: Resolve_def)

lemma Resolve_Nil [simp]: "Resolve [] p sel = None"
  by (simp add: Resolve_def)

lemma Resolve_None_iff: "Resolve rows p sel = None \<longleftrightarrow> rows = []"
  by (auto simp: Resolve_def split: list.splits option.splits if_splits)

lemma Resolve_Auto_first_max: "Resolve rows p Auto = Some r \<longleftrightarrow> first_max rows r"
proof (cases rows)
  case Nil
  then show ?thesis by (simp add: first_max_def)
next
  case (Cons b rs)
  then show ?thesis using best_loop_first_max[of b rs]
    by (auto simp: Resolve_Cons_Auto intro: first_max_unique)
qed

text \<open>
  C13: in \<open>Auto\<close> mode \<open>Resolve\<close> returns a row exactly when it is the first row with the
  greatest sort key: every earlier row is strictly smaller, no later row is greater.
\<close>

theorem Resolve_auto_first_max:
  "Resolve rows p Auto = Some r \<longleftrightarrow>
     (\<exists>ys zs. rows = ys @ r # zs \<and> (\<forall>y\<in>set ys. SortKey y < SortKey r)
            \<and> (\<forall>z\<in>set zs. SortKey z \<le> SortKey r))"
  unfolding Resolve_Auto_first_max first_max_def by (rule refl)

theorem Resolve_auto_first_max_witness:
  "\<exists>ys zs. [\<lparr>row_button = 4, row_class = ''ROOKIE I'', row_conversion = None\<rparr>,
            \<lparr>row_button = 6, row_class = ''HEADLINER I'', row_conversion = None\<rparr>,
            \<lparr>row_button = 6, row_class = ''HEADLINER I'', row_conversion = None\<rparr>]
     = ys @ \<lparr>row_button = 6, row_class = ''HEADLINER I'', row_conversion = None\<rparr> # zs
     \<and> (\<forall>y\<in>set ys. SortKey y < SortKey \<lparr>row_button = 6, row_class = ''HEADLINER I'', row_conversion = None\<rparr>)
     \<and> (\<forall>z\<in>set zs. SortKey z \<le> SortKey \<lparr>row_button = 6, row_class = ''HEADLINER I'', row_conversion = None\<rparr>)"
  by (subst Resolve_auto_first_max[of _ None, symmetric]) code_simp

lemma first_max_in: "first_max rows r \<Longrightarrow> r \<in> set rows"
  by (auto simp: first_max_def)

lemma Resolve_in: "Resolve rows p sel = Some r \<Longrightarrow> r \<in> set rows"
proof -
  assume a: "Resolve rows p sel = Some r"
  then obtain b rs where bs: "rows = b # rs" by (cases rows) auto
  have "best_loop b (SortKey b) rs \<in> set rows"
    unfolding bs by (rule first_max_in[OF best_loop_first_max])
  with a bs show ?thesis
    by (auto simp: Resolve_def split: option.splits if_splits dest: find_some_in)
qed

lemma Resolve_Viewer_Some:
  "Resolve rows (Some b) Viewer =
     (case find (\<lambda>r. row_button r = b) rows of Some r \<Rightarrow> Some r | None \<Rightarrow> Resolve rows None Auto)"
  by (cases rows) (simp_all add: Resolve_def split: option.splits)

lemma find_button:
  assumes "distinct (map row_button rows)"
  shows "find (\<lambda>r. row_button r = b) rows = map_of (map (\<lambda>r. (row_button r, r)) rows) b"
  using assms by (induction rows) auto

text \<open>
  in \<open>Viewer\<close> mode with a preferred button, the row of that button is shown if the
  viewer has one, and the \<open>Auto\<close> choice otherwise (rows have distinct buttons, which the
  store's UNIQUE constraint ensures).
\<close>

theorem Resolve_viewer_preference:
  assumes "distinct (map row_button rows)"
  shows "Resolve rows (Some b) Viewer =
     (if \<exists>r\<in>set rows. row_button r = b then map_of (map (\<lambda>r. (row_button r, r)) rows) b
      else Resolve rows None Auto)"
proof (cases "\<exists>r\<in>set rows. row_button r = b")
  case True
  then have "find (\<lambda>r. row_button r = b) rows \<noteq> None" by (auto simp: find_None_iff)
  with True show ?thesis by (auto simp: Resolve_Viewer_Some find_button[OF assms])
next
  case False
  then have "find (\<lambda>r. row_button r = b) rows = None" by (auto simp: find_None_iff)
  with False show ?thesis by (simp add: Resolve_Viewer_Some)
qed

theorem Resolve_viewer_preference_witness:
  "Resolve [\<lparr>row_button = 4, row_class = ''SHOWSTOPPER II'', row_conversion = None\<rparr>,
            \<lparr>row_button = 8, row_class = ''HEADLINER I'', row_conversion = None\<rparr>] (Some 8) Viewer
   = Some \<lparr>row_button = 8, row_class = ''HEADLINER I'', row_conversion = None\<rparr>"
  by (subst Resolve_viewer_preference) simp_all

end
