(* ===== verification/TtlCache.thy ===== *)
theory TtlCache
  imports Prelude
begin

text \<open>
  \<open>internal/ttlcache/ttlcache.go\<close>: a cache with a TTL per entry and a size cap that evicts
  the oldest-inserted entry. The state keeps the two structures of the code apart: the map
  \<open>items\<close> from keys to elements of the linked list, and the list \<open>order\<close> itself, whose elements
  (identified by a number, as \<open>*list.Element\<close> pointers are by their address) hold the
  entries. Every operation runs under the mutex, so it is one step. None as a result stands
  for a panic (a nil or dangling element). Times are nanoseconds.

  The specification is one insertion-ordered association list; \<open>run_ops_refines\<close> shows that the
  two structures together behave like it, for every sequence of operations. The locale
  \<open>timed_map\<close> is what the cache promises to its clients.
\<close>

section \<open>State and operations\<close>

record 'v entry =
  ent_key :: string
  ent_value :: 'v
  ent_expires :: int

record 'v cache =
  c_max :: int
  c_items :: "(string \<times> nat) list"
  c_order :: "(nat \<times> 'v entry) list"
  c_next :: nat

definition cache_new :: "int \<Rightarrow> 'v cache" where
  "cache_new maxEntries = \<lparr>c_max = maxEntries, c_items = [], c_order = [], c_next = 0\<rparr>"

definition cache_remove :: "nat option \<Rightarrow> 'v cache \<Rightarrow> 'v cache option" where
  "cache_remove el c =
     (case el of None \<Rightarrow> None
      | Some e \<Rightarrow>
        (case map_of (c_order c) e of None \<Rightarrow> None
         | Some en \<Rightarrow> Some (c\<lparr>c_items := AList.delete (ent_key en) (c_items c),
                             c_order := AList.delete e (c_order c)\<rparr>)))"

definition cache_get :: "string \<Rightarrow> int \<Rightarrow> 'v cache \<Rightarrow> ('v option \<times> 'v cache) option" where
  "cache_get k now c =
     (case map_of (c_items c) k of None \<Rightarrow> Some (None, c)
      | Some el \<Rightarrow>
        (case map_of (c_order c) el of None \<Rightarrow> None
         | Some e \<Rightarrow>
           if \<not> now < ent_expires e
           then map_option (\<lambda>c'. (None, c')) (cache_remove (Some el) c)
           else Some (Some (ent_value e), c)))"

text \<open>\<open>c.order.Front()\<close>: nil when the list is empty.\<close>

definition list_front :: "(nat \<times> 'v entry) list \<Rightarrow> nat option" where
  "list_front xs = (case xs of [] \<Rightarrow> None | (e, _) # _ \<Rightarrow> Some e)"

definition cache_set :: "string \<Rightarrow> 'v \<Rightarrow> int \<Rightarrow> int \<Rightarrow> 'v cache \<Rightarrow> 'v cache option" where
  "cache_set k v ttl now c =
     (let expires = now + ttl in
      case map_of (c_items c) k of
        Some el \<Rightarrow>
          (case map_of (c_order c) el of None \<Rightarrow> None
           | Some e \<Rightarrow> Some (c\<lparr>c_order := AList.update el (e\<lparr>ent_value := v, ent_expires := expires\<rparr>) (c_order c)\<rparr>))
      | None \<Rightarrow>
          (case (if c_max c \<le> int (length (c_items c))
                 then cache_remove (list_front (c_order c)) c else Some c) of
             None \<Rightarrow> None
           | Some c1 \<Rightarrow>
               Some (c1\<lparr>c_items := AList.update k (c_next c1) (c_items c1),
                       c_order := c_order c1 @ [(c_next c1, \<lparr>ent_key = k, ent_value = v, ent_expires = expires\<rparr>)],
                       c_next := Suc (c_next c1)\<rparr>)))"

definition cache_delete :: "string \<Rightarrow> 'v cache \<Rightarrow> 'v cache option" where
  "cache_delete k c =
     (case map_of (c_items c) k of None \<Rightarrow> Some c | Some el \<Rightarrow> cache_remove (Some el) c)"

definition cache_len :: "'v cache \<Rightarrow> nat" where
  "cache_len c = length (c_items c)"

section \<open>The invariant and the abstraction\<close>

definition keyed :: "(nat \<times> 'v entry) list \<Rightarrow> (string \<times> nat) list" where
  "keyed xs = map (\<lambda>(e, en). (ent_key en, e)) xs"

definition view :: "(nat \<times> 'v entry) list \<Rightarrow> (string \<times> 'v \<times> int) list" where
  "view xs = map (\<lambda>(e, en). (ent_key en, ent_value en, ent_expires en)) xs"

definition cache_abs :: "'v cache \<Rightarrow> (string \<times> 'v \<times> int) list" where
  "cache_abs c = view (c_order c)"

definition cache_inv :: "'v cache \<Rightarrow> bool" where
  "cache_inv c \<longleftrightarrow>
     0 < c_max c \<and> int (length (c_order c)) \<le> c_max c
     \<and> gomap_ok (c_items c) \<and> gomap_ok (c_order c) \<and> gomap_ok (keyed (c_order c))
     \<and> map_of (c_items c) = map_of (keyed (c_order c))
     \<and> (\<forall>e\<in>fst ` set (c_order c). e < c_next c)"

text \<open>The specification: one association list, in insertion order.\<close>

definition spec_get :: "string \<Rightarrow> int \<Rightarrow> (string \<times> 'v \<times> int) list \<Rightarrow> 'v option \<times> (string \<times> 'v \<times> int) list" where
  "spec_get k now l =
     (case map_of l k of None \<Rightarrow> (None, l)
      | Some (v, x) \<Rightarrow> if now < x then (Some v, l) else (None, AList.delete k l))"

definition spec_set :: "int \<Rightarrow> string \<Rightarrow> 'v \<Rightarrow> int \<Rightarrow> (string \<times> 'v \<times> int) list \<Rightarrow> (string \<times> 'v \<times> int) list" where
  "spec_set mx k v x l =
     (if map_of l k \<noteq> None then AList.update k (v, x) l
      else (if mx \<le> int (length l) then tl l else l) @ [(k, v, x)])"

lemma length_view [simp]: "length (view xs) = length xs"
  by (simp add: view_def)

lemma length_keyed [simp]: "length (keyed xs) = length xs"
  by (simp add: keyed_def)

lemma view_Nil [simp]: "view [] = []" and keyed_Nil [simp]: "keyed [] = []"
  by (simp_all add: view_def keyed_def)

lemma view_Cons [simp]: "view ((e, en) # xs) = (ent_key en, ent_value en, ent_expires en) # view xs"
  and keyed_Cons [simp]: "keyed ((e, en) # xs) = (ent_key en, e) # keyed xs"
  by (simp_all add: view_def keyed_def)

lemma view_append [simp]: "view (xs @ ys) = view xs @ view ys"
  and keyed_append [simp]: "keyed (xs @ ys) = keyed xs @ keyed ys"
  by (simp_all add: view_def keyed_def)

lemma fst_view: "map fst (view xs) = map fst (keyed xs)"
  by (simp add: view_def keyed_def case_prod_beta)

lemma map_of_keyed_Some:
  assumes "gomap_ok xs" "gomap_ok (keyed xs)"
  shows "map_of (keyed xs) k = Some e \<longleftrightarrow> (\<exists>en. map_of xs e = Some en \<and> ent_key en = k)"
  using assms
  by (fastforce simp: gomap_ok_def keyed_def)

lemma map_of_view_Some:
  assumes "gomap_ok xs" "gomap_ok (keyed xs)" "map_of xs e = Some en"
  shows "map_of (view xs) (ent_key en) = Some (ent_value en, ent_expires en)"
  using assms
  by (intro map_of_is_SomeI) (force simp: gomap_ok_def keyed_def view_def comp_def case_prod_beta dest: map_of_SomeD)+

lemma map_of_view_None: "map_of (view xs) k = None \<longleftrightarrow> map_of (keyed xs) k = None"
  by (metis fst_view map_of_eq_None_iff set_map)

lemma delete_absent:
  assumes "k \<notin> fst ` set (keyed xs)"
  shows "AList.delete k (view xs) = view xs" "AList.delete k (keyed xs) = keyed xs"
proof -
  from assms have "k \<notin> fst ` set (view xs)" by (metis fst_view set_map)
  then show "AList.delete k (view xs) = view xs" by (rule delete_id)
  from assms show "AList.delete k (keyed xs) = keyed xs" by (rule delete_id)
qed

lemma keyed_mem: "(e, en) \<in> set xs \<Longrightarrow> ent_key en \<in> fst ` set (keyed xs)"
  by (force simp: keyed_def)

lemma key_other:
  assumes "gomap_ok (p # xs)" "gomap_ok (keyed (p # xs))" "map_of (p # xs) e = Some en"
  shows "fst p \<noteq> e \<Longrightarrow> ent_key (snd p) \<noteq> ent_key en"
  using assms by (cases p) (auto simp: gomap_ok_def dest!: map_of_SomeD keyed_mem, metis fst_conv image_eqI)

lemma view_delete:
  assumes "gomap_ok xs" "gomap_ok (keyed xs)" "map_of xs e = Some en"
  shows "view (AList.delete e xs) = AList.delete (ent_key en) (view xs)"
    and "keyed (AList.delete e xs) = AList.delete (ent_key en) (keyed xs)"
  using assms
proof (induction xs)
  case (Cons p xs)
  obtain e' en' where p: "p = (e', en')" by (cases p)
  {
    case 1
    with Cons.IH p key_other[OF 1] show ?case by (cases "e' = e") (auto simp: gomap_ok_def delete_absent)
  next
    case 2
    with Cons.IH p key_other[OF 2] show ?case by (cases "e' = e") (auto simp: gomap_ok_def delete_absent)
  }
qed simp_all

lemma view_update:
  assumes "gomap_ok xs" "gomap_ok (keyed xs)" "map_of xs e = Some en" "ent_key en' = ent_key en"
  shows "view (AList.update e en' xs) = AList.update (ent_key en) (ent_value en', ent_expires en') (view xs)"
    and "keyed (AList.update e en' xs) = keyed xs"
  using assms
proof (induction xs)
  case (Cons p xs)
  obtain e' en'' where p: "p = (e', en'')" by (cases p)
  {
    case 1
    with Cons.IH p key_other[OF 1(1-3)] show ?case by (cases "e' = e") (auto simp: gomap_ok_def)
  next
    case 2
    with Cons.IH p show ?case by (cases "e' = e") (auto simp: gomap_ok_def)
  }
qed simp_all

section \<open>Every operation refines the specification\<close>

lemma cache_inv_lookup:
  assumes "cache_inv c" "map_of (c_items c) k = Some el"
  obtains en where "map_of (c_order c) el = Some en" "ent_key en = k"
    "map_of (cache_abs c) k = Some (ent_value en, ent_expires en)"
  using assms map_of_keyed_Some[of "c_order c" k el] map_of_view_Some[of "c_order c" el]
  by (fastforce simp: cache_inv_def cache_abs_def)

lemma cache_inv_absent:
  "cache_inv c \<Longrightarrow> map_of (c_items c) k = None \<longleftrightarrow> map_of (cache_abs c) k = None"
  by (simp add: cache_inv_def cache_abs_def map_of_view_None)

lemma cache_remove_step:
  assumes "cache_inv c" "map_of (c_order c) el = Some en"
  shows "\<exists>c'. cache_remove (Some el) c = Some c' \<and> cache_inv c'
     \<and> cache_abs c' = AList.delete (ent_key en) (cache_abs c) \<and> c_max c' = c_max c \<and> c_next c' = c_next c"
proof -
  from assms(1) have ok: "gomap_ok (c_items c)" "gomap_ok (c_order c)" "gomap_ok (keyed (c_order c))"
    and eq: "map_of (c_items c) = map_of (keyed (c_order c))"
    and max: "0 < c_max c" "int (length (c_order c)) \<le> c_max c"
    and fresh: "\<forall>e\<in>fst ` set (c_order c). e < c_next c"
    by (simp_all add: cache_inv_def)
  note k = view_delete(2)[OF ok(2,3) assms(2)] and v = view_delete(1)[OF ok(2,3) assms(2)]
  have le: "length (AList.delete el (c_order c)) \<le> length (c_order c)" by (rule gomap_len_delete_le)
  have sub: "\<forall>e\<in>fst ` set (AList.delete el (c_order c)). e < c_next c"
    using fresh dom_delete_subset[of el "c_order c"] by (meson subsetD)
  let ?c = "c\<lparr>c_items := AList.delete (ent_key en) (c_items c), c_order := AList.delete el (c_order c)\<rparr>"
  have "map_of (AList.delete (ent_key en) (c_items c)) = map_of (AList.delete (ent_key en) (keyed (c_order c)))"
    by (simp only: gomap_get_delete eq)
  then have "cache_inv ?c"
    unfolding cache_inv_def using ok max le sub by (simp add: k)
  moreover have "cache_remove (Some el) c = Some ?c" using assms(2) by (simp add: cache_remove_def)
  moreover have "cache_abs ?c = AList.delete (ent_key en) (cache_abs c)" using v by (simp add: cache_abs_def)
  ultimately show ?thesis by (intro exI[of _ ?c]) simp
qed

lemma cache_get_refines:
  assumes "cache_inv c"
  shows "\<exists>c'. cache_get k now c = Some (fst (spec_get k now (cache_abs c)), c') \<and> cache_inv c'
     \<and> cache_abs c' = snd (spec_get k now (cache_abs c)) \<and> c_max c' = c_max c"
proof (cases "map_of (c_items c) k")
  case None
  then have "map_of (cache_abs c) k = None" using assms by (simp add: cache_inv_absent)
  with None assms show ?thesis by (simp add: cache_get_def spec_get_def)
next
  case (Some el)
  from cache_inv_lookup[OF assms Some] obtain en where
    en: "map_of (c_order c) el = Some en" "ent_key en = k"
    "map_of (cache_abs c) k = Some (ent_value en, ent_expires en)" .
  with Some assms cache_remove_step[OF assms en(1)] show ?thesis
    by (auto simp: cache_get_def spec_get_def)
qed

lemma cache_delete_refines:
  assumes "cache_inv c"
  shows "\<exists>c'. cache_delete k c = Some c' \<and> cache_inv c'
     \<and> cache_abs c' = AList.delete k (cache_abs c) \<and> c_max c' = c_max c"
proof (cases "map_of (c_items c) k")
  case None
  with assms have "map_of (cache_abs c) k = None" by (simp add: cache_inv_absent)
  then have "AList.delete k (cache_abs c) = cache_abs c" by (simp add: map_of_eq_None_iff)
  with None assms show ?thesis by (simp add: cache_delete_def)
next
  case (Some el)
  from cache_inv_lookup[OF assms Some] obtain en where
    en: "map_of (c_order c) el = Some en" "ent_key en = k" .
  with Some cache_remove_step[OF assms en(1)] show ?thesis by (auto simp: cache_delete_def)
qed

lemma cache_inv_len:
  assumes "cache_inv c"
  shows "length (c_items c) = length (c_order c)"
proof -
  note i = assms[unfolded cache_inv_def]
  have "dom (map_of (c_items c)) = dom (map_of (keyed (c_order c)))" using i by simp
  then have "card (set (map fst (c_items c))) = card (set (map fst (keyed (c_order c))))"
    by (simp add: dom_map_of_conv_image_fst)
  with i show ?thesis by (metis distinct_card gomap_ok_def length_keyed length_map)
qed

lemma cache_inv_room:
  assumes "cache_inv c"
  shows "\<exists>c1. (if c_max c \<le> int (length (c_items c)) then cache_remove (list_front (c_order c)) c else Some c) = Some c1
     \<and> cache_inv c1 \<and> c_max c1 = c_max c \<and> c_next c1 = c_next c \<and> int (length (c_order c1)) < c_max c1
     \<and> cache_abs c1 = (if c_max c \<le> int (length (cache_abs c)) then tl (cache_abs c) else cache_abs c)"
proof -
  note i = assms[unfolded cache_inv_def]
  have len: "length (c_items c) = length (c_order c)" using assms by (rule cache_inv_len)
  show ?thesis
  proof (cases "c_max c \<le> int (length (c_order c))")
    case True
    with i obtain e en xs where xs: "c_order c = (e, en) # xs" by (cases "c_order c") auto
    have "map_of (c_order c) e = Some en" by (simp add: xs)
    from cache_remove_step[OF assms this] obtain c1 where c1: "cache_remove (Some e) c = Some c1" "cache_inv c1"
      "cache_abs c1 = AList.delete (ent_key en) (cache_abs c)" "c_max c1 = c_max c" "c_next c1 = c_next c" by blast
    have "AList.delete (ent_key en) (cache_abs c) = tl (cache_abs c)"
      using i by (simp add: xs cache_abs_def gomap_ok_def delete_absent)
    moreover have "length (c_order c1) < length (c_order c)"
      using c1(3) calculation by (metis cache_abs_def diff_less length_greater_0_conv length_tl length_view list.distinct(1) xs zero_less_one)
    ultimately show ?thesis using True c1 i len by (simp add: xs list_front_def cache_abs_def)
  next
    case False
    with assms len show ?thesis by (simp add: cache_abs_def)
  qed
qed

lemma cache_inv_push:
  assumes "cache_inv c" "int (length (c_order c)) < c_max c" "map_of (cache_abs c) k = None"
  shows "cache_inv (c\<lparr>c_items := AList.update k (c_next c) (c_items c),
           c_order := c_order c @ [(c_next c, \<lparr>ent_key = k, ent_value = v, ent_expires = x\<rparr>)],
           c_next := Suc (c_next c)\<rparr>)"
proof -
  note i = assms(1)[unfolded cache_inv_def]
  from assms(3) have k: "k \<notin> fst ` set (keyed (c_order c))"
    by (simp add: cache_abs_def map_of_view_None map_of_eq_None_iff[symmetric])
  have n: "c_next c \<notin> fst ` set (c_order c)" using i by blast
  have "map_of (keyed (c_order c) @ [(k, c_next c)]) = (map_of (keyed (c_order c)))(k \<mapsto> c_next c)"
    using k by (auto simp: map_of_append map_add_def fun_eq_iff map_of_eq_None_iff[symmetric] split: option.splits)
  moreover have "\<forall>e\<in>fst ` set (c_order c). e < Suc (c_next c)" using i by (meson less_SucI)
  ultimately show ?thesis
    using i assms(2) k n unfolding cache_inv_def
    by (auto simp: gomap_get_set gomap_ok_def image_iff distinct_update)
qed

lemma cache_set_refines:
  assumes "cache_inv c"
  shows "\<exists>c'. cache_set k v ttl now c = Some c' \<and> cache_inv c'
     \<and> cache_abs c' = spec_set (c_max c) k v (now + ttl) (cache_abs c) \<and> c_max c' = c_max c"
proof (cases "map_of (c_items c) k")
  case None
  then have a: "map_of (cache_abs c) k = None" using assms by (simp add: cache_inv_absent)
  from cache_inv_room[OF assms] obtain c1 where c1:
    "(if c_max c \<le> int (length (c_items c)) then cache_remove (list_front (c_order c)) c else Some c) = Some c1"
    "cache_inv c1" "c_max c1 = c_max c" "int (length (c_order c1)) < c_max c1"
    "cache_abs c1 = (if c_max c \<le> int (length (cache_abs c)) then tl (cache_abs c) else cache_abs c)" by blast
  have "map_of (cache_abs c1) k = None"
    using a c1(5) by (cases "cache_abs c") (auto simp: map_of_eq_None_iff split: if_splits)
  from cache_inv_push[OF c1(2,4) this] c1 None a show ?thesis
    by (simp add: cache_set_def Let_def spec_set_def cache_abs_def)
next
  case (Some el)
  from cache_inv_lookup[OF assms Some] obtain en where
    en: "map_of (c_order c) el = Some en" "ent_key en = k"
    "map_of (cache_abs c) k = Some (ent_value en, ent_expires en)" .
  let ?en = "en\<lparr>ent_value := v, ent_expires := now + ttl\<rparr>"
  note i = assms[unfolded cache_inv_def]
  from i en have u: "view (AList.update el ?en (c_order c)) = AList.update k (v, now + ttl) (view (c_order c))"
    "keyed (AList.update el ?en (c_order c)) = keyed (c_order c)"
    using view_update[of "c_order c" el en ?en] by simp_all
  from en(1) have "el \<in> fst ` set (c_order c)" by (force dest: map_of_SomeD)
  then have "length (AList.update el ?en (c_order c)) = length (c_order c)"
    "fst ` set (AList.update el ?en (c_order c)) = fst ` set (c_order c)"
    using en(1) by (auto simp: gomap_len_set dom_update)
  with i u(2) have "cache_inv (c\<lparr>c_order := AList.update el ?en (c_order c)\<rparr>)"
    by (simp add: cache_inv_def)
  with Some en u show ?thesis by (simp add: cache_set_def spec_set_def cache_abs_def)
qed

section \<open>Runs\<close>

text \<open>A client's calls in order, with the time the cache reads at each, and what they return.\<close>

datatype 'v cache_op = OpGet string int | OpSet string 'v int int | OpDelete string | OpLen

datatype 'v cache_out = OutGet "'v option" | OutUnit | OutLen nat

fun cache_step :: "'v cache_op \<Rightarrow> 'v cache \<Rightarrow> ('v cache_out \<times> 'v cache) option" where
  "cache_step (OpGet k now) c = map_option (\<lambda>(r, c'). (OutGet r, c')) (cache_get k now c)"
| "cache_step (OpSet k v ttl now) c = map_option (\<lambda>c'. (OutUnit, c')) (cache_set k v ttl now c)"
| "cache_step (OpDelete k) c = map_option (\<lambda>c'. (OutUnit, c')) (cache_delete k c)"
| "cache_step OpLen c = Some (OutLen (cache_len c), c)"

fun cache_run :: "'v cache_op list \<Rightarrow> 'v cache \<Rightarrow> ('v cache_out list \<times> 'v cache) option" where
  "cache_run [] c = Some ([], c)"
| "cache_run (op # ops) c =
     (case cache_step op c of None \<Rightarrow> None
      | Some (r, c') \<Rightarrow> map_option (\<lambda>(rs, c''). (r # rs, c'')) (cache_run ops c'))"

fun spec_step :: "int \<Rightarrow> 'v cache_op \<Rightarrow> (string \<times> 'v \<times> int) list \<Rightarrow> 'v cache_out \<times> (string \<times> 'v \<times> int) list" where
  "spec_step mx (OpGet k now) l = (OutGet (fst (spec_get k now l)), snd (spec_get k now l))"
| "spec_step mx (OpSet k v ttl now) l = (OutUnit, spec_set mx k v (now + ttl) l)"
| "spec_step mx (OpDelete k) l = (OutUnit, AList.delete k l)"
| "spec_step mx OpLen l = (OutLen (length l), l)"

fun spec_run :: "int \<Rightarrow> 'v cache_op list \<Rightarrow> (string \<times> 'v \<times> int) list \<Rightarrow> 'v cache_out list \<times> (string \<times> 'v \<times> int) list" where
  "spec_run mx [] l = ([], l)"
| "spec_run mx (op # ops) l =
     (let (r, l') = spec_step mx op l; (rs, l'') = spec_run mx ops l' in (r # rs, l''))"

lemma cache_step_refines:
  assumes "cache_inv c"
  shows "\<exists>c'. cache_step op c = Some (fst (spec_step (c_max c) op (cache_abs c)), c') \<and> cache_inv c'
     \<and> cache_abs c' = snd (spec_step (c_max c) op (cache_abs c)) \<and> c_max c' = c_max c"
proof (cases op)
  case (OpGet k now)
  with cache_get_refines[OF assms, of k now] show ?thesis by auto
next
  case (OpSet k v ttl now)
  with cache_set_refines[OF assms, of k v ttl now] show ?thesis by auto
next
  case (OpDelete k)
  with cache_delete_refines[OF assms, of k] show ?thesis by auto
next
  case OpLen
  with assms show ?thesis by (simp add: cache_len_def cache_inv_len cache_abs_def)
qed

lemma cache_run_refines:
  "cache_inv c \<Longrightarrow>
     \<exists>c'. cache_run ops c = Some (fst (spec_run (c_max c) ops (cache_abs c)), c') \<and> cache_inv c'
       \<and> cache_abs c' = snd (spec_run (c_max c) ops (cache_abs c)) \<and> c_max c' = c_max c"
proof (induction ops arbitrary: c)
  case (Cons op ops)
  from cache_step_refines[OF Cons.prems, of op] obtain c' where
    c': "cache_step op c = Some (fst (spec_step (c_max c) op (cache_abs c)), c')" "cache_inv c'"
    "cache_abs c' = snd (spec_step (c_max c) op (cache_abs c))" "c_max c' = c_max c" by blast
  from Cons.IH[OF c'(2)] c' show ?case by (auto simp: Let_def case_prod_beta)
qed simp

lemma cache_inv_new: "0 < mx \<Longrightarrow> cache_inv (cache_new mx)"
  by (simp add: cache_inv_def cache_new_def)

lemma cache_new_simps [simp]: "cache_abs (cache_new mx) = []" "c_max (cache_new mx) = mx"
  by (simp_all add: cache_abs_def cache_new_def)

text \<open>
  C16: started empty with a positive cap, the cache never panics, whatever the sequence of
  calls; its answers are those of one insertion-ordered association list (overwriting keeps
  the position, a full cache drops the oldest entry, an expired entry is dropped when it is
  read); and it never holds more than \<open>maxEntries\<close> entries.
\<close>

theorem run_ops_refines:
  assumes "0 < mx"
  shows "\<exists>c. cache_run ops (cache_new mx) = Some (fst (spec_run mx ops []), c)
       \<and> cache_abs c = snd (spec_run mx ops []) \<and> int (cache_len c) \<le> mx"
proof -
  from cache_run_refines[OF cache_inv_new[OF assms], of ops] obtain c where
    c: "cache_run ops (cache_new mx) = Some (fst (spec_run mx ops []), c)" "cache_inv c"
    "cache_abs c = snd (spec_run mx ops [])" "c_max c = mx" by auto
  then have "int (cache_len c) \<le> mx" using cache_inv_len[OF c(2)] by (simp add: cache_len_def cache_inv_def)
  with c show ?thesis by blast
qed

theorem run_ops_refines_witness:
  "\<exists>c. cache_run [OpSet ''a'' (1::nat) 10 0, OpSet ''b'' 2 10 0, OpSet ''a'' 3 10 5, OpSet ''c'' 4 10 6,
                  OpGet ''a'' 7, OpGet ''b'' 7, OpGet ''b'' 10, OpLen] (cache_new 2)
       = Some ([OutUnit, OutUnit, OutUnit, OutUnit, OutGet None, OutGet (Some (2::nat)), OutGet None, OutLen 1], c)"
proof -
  have "fst (spec_run 2 [OpSet ''a'' (1::nat) 10 0, OpSet ''b'' 2 10 0, OpSet ''a'' 3 10 5, OpSet ''c'' 4 10 6,
                  OpGet ''a'' 7, OpGet ''b'' 7, OpGet ''b'' 10, OpLen] [])
     = [OutUnit, OutUnit, OutUnit, OutUnit, OutGet None, OutGet (Some (2::nat)), OutGet None, OutLen 1]"
    by code_simp
  with run_ops_refines[of 2 "[OpSet ''a'' (1::nat) 10 0, OpSet ''b'' 2 10 0, OpSet ''a'' 3 10 5, OpSet ''c'' 4 10 6,
                  OpGet ''a'' 7, OpGet ''b'' 7, OpGet ''b'' 10, OpLen]"] show ?thesis by fastforce
qed

text \<open>With a cap that is not positive, the first \<open>Set\<close> of an empty cache panics on the nil front element.\<close>

lemma cache_set_no_room: "mx \<le> 0 \<Longrightarrow> cache_set k v ttl now (cache_new mx) = None"
  by (simp add: cache_set_def cache_new_def list_front_def cache_remove_def)

section \<open>The interface\<close>

text \<open>
  What a client may rely on: \<open>content c k\<close> is the value stored under \<open>k\<close> and its expiry.
  \<open>get\<close> answers with it while it lives and forgets it afterwards, \<open>put\<close> stores it and may
  forget other keys, \<open>del\<close> forgets exactly one key; none of them fails.
\<close>

locale timed_map =
  fixes get :: "string \<Rightarrow> int \<Rightarrow> 'c \<Rightarrow> ('v option \<times> 'c) option"
    and put :: "string \<Rightarrow> 'v \<Rightarrow> int \<Rightarrow> int \<Rightarrow> 'c \<Rightarrow> 'c option"
    and del :: "string \<Rightarrow> 'c \<Rightarrow> 'c option"
    and content :: "'c \<Rightarrow> string \<Rightarrow> ('v \<times> int) option"
    and ok :: "'c \<Rightarrow> bool"
  assumes get_spec: "ok c \<Longrightarrow> \<exists>c'. get k t c =
        Some (case content c k of None \<Rightarrow> None | Some (v, x) \<Rightarrow> if t < x then Some v else None, c')
        \<and> ok c' \<and> (\<forall>k'. content c' k' = content c k' \<or> content c' k' = None)"
    and put_spec: "ok c \<Longrightarrow> \<exists>c'. put k v d t c = Some c' \<and> ok c' \<and> content c' k = Some (v, t + d)
        \<and> (\<forall>k'. k' \<noteq> k \<longrightarrow> content c' k' = content c k' \<or> content c' k' = None)"
    and del_spec: "ok c \<Longrightarrow> \<exists>c'. del k c = Some c' \<and> ok c' \<and> content c' = (content c)(k := None)"
begin

text \<open>A property of everything stored survives each operation that stores only such values.\<close>

definition sound :: "(string \<Rightarrow> 'v \<Rightarrow> int \<Rightarrow> bool) \<Rightarrow> 'c \<Rightarrow> bool" where
  "sound P c \<longleftrightarrow> ok c \<and> (\<forall>k v x. content c k = Some (v, x) \<longrightarrow> P k v x)"

lemma sound_get:
  assumes "sound P c"
  obtains r c' where "get k t c = Some (r, c')" "sound P c'" "\<And>v. r = Some v \<Longrightarrow> \<exists>x. t < x \<and> P k v x"
proof -
  from assms get_spec[of c k t] obtain c' where c': "get k t c =
        Some (case content c k of None \<Rightarrow> None | Some (v, x) \<Rightarrow> if t < x then Some v else None, c')" "ok c'"
        "\<forall>k'. content c' k' = content c k' \<or> content c' k' = None" by (auto simp: sound_def)
  show ?thesis
  proof (rule that[OF c'(1)])
    show "sound P c'" using assms c'(2,3) unfolding sound_def by (metis option.distinct(1))
    show "\<exists>x. t < x \<and> P k v x"
      if "(case content c k of None \<Rightarrow> None | Some (v, x) \<Rightarrow> if t < x then Some v else None) = Some v" for v
      using that assms by (auto simp: sound_def split: option.splits if_splits)
  qed
qed

lemma sound_put:
  assumes "sound P c" "P k v (t + d)"
  obtains c' where "put k v d t c = Some c'" "sound P c'"
proof -
  from assms(1) put_spec[of c k v d t] obtain c' where c': "put k v d t c = Some c'" "ok c'"
    "content c' k = Some (v, t + d)" "\<forall>k'. k' \<noteq> k \<longrightarrow> content c' k' = content c k' \<or> content c' k' = None"
    by (auto simp: sound_def)
  have "sound P c'" unfolding sound_def
  proof (intro conjI allI impI)
    fix k' v' x assume "content c' k' = Some (v', x)"
    with assms c' show "P k' v' x" by (cases "k' = k") (fastforce simp: sound_def)+
  qed (rule c'(2))
  with c'(1) that show ?thesis by blast
qed

text \<open>Forgetting one key re-establishes a property that changed for that key only.\<close>

lemma sound_del:
  assumes "sound P c" "\<And>k' v x. k' \<noteq> k \<Longrightarrow> P k' v x \<Longrightarrow> Q k' v x"
  obtains c' where "del k c = Some c'" "sound Q c'"
proof -
  from assms(1) del_spec[of c k] obtain c' where c': "del k c = Some c'" "ok c'"
    "content c' = (content c)(k := None)" by (auto simp: sound_def)
  have "sound Q c'" using assms c' by (auto simp: sound_def)
  with c'(1) that show ?thesis by blast
qed

end

definition cache_content :: "'v cache \<Rightarrow> string \<Rightarrow> ('v \<times> int) option" where
  "cache_content c = map_of (cache_abs c)"

lemma cache_abs_ok: "cache_inv c \<Longrightarrow> gomap_ok (cache_abs c)"
  by (simp add: cache_inv_def cache_abs_def gomap_ok_def fst_view)

lemma map_of_tl: "gomap_ok l \<Longrightarrow> map_of (tl l) k = Some y \<Longrightarrow> map_of l k = Some y"
  by (cases l) (auto simp: gomap_ok_def map_of_eq_None_iff[symmetric])

interpretation ttl: timed_map cache_get cache_set cache_delete cache_content cache_inv
proof (unfold_locales)
  fix c :: "'a cache" and k t
  assume "cache_inv c"
  with cache_get_refines[OF this, of k t] show "\<exists>c'. cache_get k t c =
        Some (case cache_content c k of None \<Rightarrow> None | Some (v, x) \<Rightarrow> if t < x then Some v else None, c')
        \<and> cache_inv c' \<and> (\<forall>k'. cache_content c' k' = cache_content c k' \<or> cache_content c' k' = None)"
    by (auto simp: spec_get_def cache_content_def gomap_get_delete split: option.splits)
next
  fix c :: "'a cache" and k v d t
  assume i: "cache_inv c"
  from cache_set_refines[OF i, of k v d t] obtain c' where c': "cache_set k v d t c = Some c'" "cache_inv c'"
    "cache_abs c' = spec_set (c_max c) k v (t + d) (cache_abs c)" by blast
  have "map_of (cache_abs c) k = None \<Longrightarrow> map_of (tl (cache_abs c)) k = None"
    using map_of_tl[OF cache_abs_ok[OF i], of k] by (cases "map_of (tl (cache_abs c)) k") auto
  then have "cache_content c' k = Some (v, t + d)
     \<and> (\<forall>k'. k' \<noteq> k \<longrightarrow> cache_content c' k' = cache_content c k' \<or> cache_content c' k' = None)"
    by (auto simp: c'(3) cache_content_def spec_set_def gomap_get_set map_of_append map_add_def split: option.splits dest: map_of_tl[OF cache_abs_ok[OF i]])
  with c' show "\<exists>c'. cache_set k v d t c = Some c' \<and> cache_inv c' \<and> cache_content c' k = Some (v, t + d)
     \<and> (\<forall>k'. k' \<noteq> k \<longrightarrow> cache_content c' k' = cache_content c k' \<or> cache_content c' k' = None)" by blast
next
  fix c :: "'a cache" and k
  assume "cache_inv c"
  with cache_delete_refines[OF this, of k] show "\<exists>c'. cache_delete k c = Some c' \<and> cache_inv c'
      \<and> cache_content c' = (cache_content c)(k := None)"
    by (auto simp: cache_content_def gomap_get_delete)
qed

end
