(* ===== verification/GoNet.thy ===== *)
theory GoNet
  imports Prelude
begin

text \<open>
  The parts of Go's \<open>net\<close> and \<open>net/http\<close> that handlers read: a request with its headers, form
  values and cookies, and \<open>net.SplitHostPort\<close>, translated from the standard library.
\<close>

section \<open>Requests\<close>

text \<open>
  Header and parameter names map to their first value, which is what \<open>Header.Get\<close>,
  \<open>Query().Get\<close> and \<open>FormValue\<close> return; an absent name reads as the empty string.
\<close>

record request =
  req_method :: string
  req_path :: string
  req_header :: "(string \<times> string) list"
  req_query :: "(string \<times> string) list"
  req_form :: "(string \<times> string) list"
  req_cookie :: "(string \<times> string) list"
  req_remote :: string

definition get_or_empty :: "(string \<times> string) list \<Rightarrow> string \<Rightarrow> string" where
  "get_or_empty m k = (case map_of m k of None \<Rightarrow> '''' | Some v \<Rightarrow> v)"

section \<open>net.SplitHostPort\<close>

datatype addr_error = MissingPort | TooManyColons | MissingBracket | UnexpectedBracket

definition split_host_port :: "string \<Rightarrow> addr_error + (string \<times> string)" where
  "split_host_port hostport =
     (case last_index_byte CHR '':'' hostport of
        None \<Rightarrow> Inl MissingPort
      | Some i \<Rightarrow>
        (let finish = (\<lambda>host j k.
               if CHR ''['' \<in> set (drop j hostport) then Inl UnexpectedBracket
               else if CHR '']'' \<in> set (drop k hostport) then Inl UnexpectedBracket
               else Inr (host, drop (Suc i) hostport))
         in if hostport \<noteq> [] \<and> hd hostport = CHR ''['' then
              (case index_byte CHR '']'' hostport of
                 None \<Rightarrow> Inl MissingBracket
               | Some e \<Rightarrow>
                   if e + 1 = length hostport then Inl MissingPort
                   else if e + 1 = i then finish (take (e - 1) (drop 1 hostport)) 1 (e + 1)
                   else if hostport ! (e + 1) = CHR '':'' then Inl TooManyColons
                   else Inl MissingPort)
            else let host = take i hostport in
              if CHR '':'' \<in> set host then Inl TooManyColons else finish host 0 0))"

lemma index_byte_append: "c \<notin> set xs \<Longrightarrow> index_byte c (xs @ c # ys) = Some (length xs)"
  by (induction xs) (auto simp: index_byte_def)

lemma last_index_byte_append:
  "c \<notin> set ys \<Longrightarrow> last_index_byte c (xs @ c # ys) = Some (length xs)"
  using index_byte_append[of c "rev ys" "rev xs"] by (simp add: last_index_byte_def)

lemma last_index_byte_None: "c \<notin> set xs \<Longrightarrow> last_index_byte c xs = None"
  by (simp add: last_index_byte_def index_byte_def)

text \<open>A host without colons or brackets, and a bracketed host, both split off their port.\<close>

lemma split_host_port_plain:
  assumes "CHR '':'' \<notin> set host" "CHR ''['' \<notin> set host" "CHR '']'' \<notin> set host"
    and "CHR '':'' \<notin> set port" "CHR ''['' \<notin> set port" "CHR '']'' \<notin> set port"
  shows "split_host_port (host @ '':'' @ port) = Inr (host, port)"
proof -
  have "last_index_byte CHR '':'' (host @ '':'' @ port) = Some (length host)"
    using assms(4) by (simp add: last_index_byte_append)
  moreover have "hd (host @ '':'' @ port) \<noteq> CHR ''[''"
    using assms(2) by (cases host) auto
  ultimately show ?thesis using assms by (simp add: split_host_port_def Let_def)
qed

lemma split_host_port_bracketed:
  assumes "CHR ''['' \<notin> set host" "CHR '']'' \<notin> set host"
    and "CHR '':'' \<notin> set port" "CHR ''['' \<notin> set port" "CHR '']'' \<notin> set port"
  shows "split_host_port (''['' @ host @ '']:'' @ port) = Inr (host, port)"
proof -
  have "last_index_byte CHR '':'' ((''['' @ host @ '']'') @ CHR '':'' # port) = Some (length host + 2)"
    using assms(3) by (subst last_index_byte_append) auto
  then have i: "last_index_byte CHR '':'' (''['' @ host @ '']:'' @ port) = Some (length host + 2)" by simp
  have "index_byte CHR '']'' ((''['' @ host) @ CHR '']'' # '':'' @ port) = Some (length host + 1)"
    using assms(2) by (subst index_byte_append) auto
  then have e: "index_byte CHR '']'' (''['' @ host @ '']:'' @ port) = Some (length host + 1)" by simp
  show ?thesis using assms by (simp add: split_host_port_def Let_def i[simplified] e[simplified])
qed

lemma split_host_port_no_port: "CHR '':'' \<notin> set s \<Longrightarrow> split_host_port s = Inl MissingPort"
  by (simp add: split_host_port_def last_index_byte_None)

end
