(* ===== verification/RateLimit.thy ===== *)
theory RateLimit
  imports GoNet
begin

text \<open>
  \<open>internal/ratelimit/ratelimit.go\<close>: the fixed-window limiter per scope and client address.
  The state is the map of buckets; \<open>Allow\<close> runs under the mutex, so a call is one step. Times
  are nanoseconds of the limiter's clock.
\<close>

section \<open>State and operations\<close>

definition maxKeys :: nat where
  "maxKeys = 10000"

type_synonym rl_key = "string \<times> string"

record bucket =
  b_start :: int
  b_count :: int
  b_window :: int

type_synonym limiter = "(rl_key \<times> bucket) list"

definition ClientIP :: "request \<Rightarrow> string" where
  "ClientIP r =
     (let ip = get_or_empty (req_header r) ''CF-Connecting-IP'' in
      if ip \<noteq> '''' then ip
      else let xff = get_or_empty (req_header r) ''X-Forwarded-For'' in
        if xff \<noteq> '''' then trim_space (fst (cut_at CHR '','' xff))
        else (case split_host_port (req_remote r) of
                Inl _ \<Rightarrow> req_remote r
              | Inr (host, _) \<Rightarrow> host))"

text \<open>The eviction at the head of \<open>Allow\<close>.\<close>

definition evict :: "int \<Rightarrow> limiter \<Rightarrow> limiter" where
  "evict t bs =
     (if maxKeys < length bs
      then let bs' = filter (\<lambda>(k, b). \<not> b_window b \<le> t - b_start b) bs in
           if maxKeys < length bs' then [] else bs'
      else bs)"

text \<open>The rest of \<open>Allow\<close>, on the bucket of the request's key.\<close>

definition take_slot :: "int \<Rightarrow> int \<Rightarrow> int \<Rightarrow> bucket option \<Rightarrow> bool \<times> bucket option" where
  "take_slot t limit window ob =
     (let fresh = \<lparr>b_start = t, b_count = 1, b_window = window\<rparr> in
      case ob of
        None \<Rightarrow> (True, Some fresh)
      | Some b \<Rightarrow>
          if window \<le> t - b_start b then (True, Some fresh)
          else if limit \<le> b_count b then (False, Some b)
          else (True, Some (b\<lparr>b_count := b_count b + 1\<rparr>)))"

definition put_bucket :: "rl_key \<Rightarrow> bucket option \<Rightarrow> limiter \<Rightarrow> limiter" where
  "put_bucket k ob bs = (case ob of None \<Rightarrow> bs | Some b \<Rightarrow> AList.update k b bs)"

definition Allow :: "request \<Rightarrow> string \<Rightarrow> int \<Rightarrow> int \<Rightarrow> int \<Rightarrow> limiter \<Rightarrow> bool \<times> limiter" where
  "Allow r scope limit window t bs =
     (let bs = evict t bs;
          k = (scope, ClientIP r);
          (ok, ob) = take_slot t limit window (map_of bs k)
      in (ok, put_bucket k ob bs))"

section \<open>Memory\<close>

lemma evict_ok [simp]: "gomap_ok bs \<Longrightarrow> gomap_ok (evict t bs)"
  by (simp add: evict_def Let_def)

lemma evict_len: "length (evict t bs) \<le> maxKeys"
  by (simp add: evict_def Let_def)

lemma Allow_ok: "gomap_ok bs \<Longrightarrow> gomap_ok (snd (Allow r sc l w t bs))"
  by (simp add: Allow_def put_bucket_def Let_def case_prod_beta split: option.splits)

lemma Allow_len: "length (snd (Allow r sc l w t bs)) \<le> Suc maxKeys"
  using evict_len[of t bs]
  by (auto simp: Allow_def put_bucket_def Let_def case_prod_beta gomap_len_set split: option.splits)

section \<open>Runs\<close>

record call =
  call_req :: request
  call_scope :: string
  call_limit :: int
  call_window :: int
  call_time :: int

definition call_key :: "call \<Rightarrow> rl_key" where
  "call_key c = (call_scope c, ClientIP (call_req c))"

definition do_call :: "call \<Rightarrow> limiter \<Rightarrow> bool \<times> limiter" where
  "do_call c bs = Allow (call_req c) (call_scope c) (call_limit c) (call_window c) (call_time c) bs"

fun rl_run :: "call list \<Rightarrow> limiter \<Rightarrow> bool list \<times> limiter" where
  "rl_run [] bs = ([], bs)"
| "rl_run (c # cs) bs =
     (let (ok, bs1) = do_call c bs; (oks, bs2) = rl_run cs bs1 in (ok # oks, bs2))"

text \<open>How many of the calls on key \<open>k\<close> are allowed.\<close>

definition allowed :: "rl_key \<Rightarrow> call list \<Rightarrow> bool list \<Rightarrow> nat" where
  "allowed k cs oks = length (filter (\<lambda>(c, ok). ok \<and> call_key c = k) (zip cs oks))"

lemma allowed_Nil [simp]: "allowed k [] oks = 0"
  by (simp add: allowed_def)

lemma allowed_Cons [simp]:
  "allowed k (c # cs) (ok # oks) = (if ok \<and> call_key c = k then 1 else 0) + allowed k cs oks"
  by (simp add: allowed_def)

lemma rl_run_append:
  "rl_run (cs @ ds) bs =
     (fst (rl_run cs bs) @ fst (rl_run ds (snd (rl_run cs bs))), snd (rl_run ds (snd (rl_run cs bs))))"
  by (induction cs arbitrary: bs) (simp_all add: Let_def case_prod_beta)

lemma length_rl_run [simp]: "length (fst (rl_run cs bs)) = length cs"
  by (induction cs arbitrary: bs) (simp_all add: Let_def case_prod_beta)

section \<open>How many requests a window lets through\<close>

text \<open>
  The calls on one key, seen alone: the bucket of the key and the calls' times. As long as
  the map is never cleared, a run of calls answers the calls on one key as this loop does.
\<close>

fun slot_run :: "int \<Rightarrow> int \<Rightarrow> int list \<Rightarrow> bucket option \<Rightarrow> bool list \<times> bucket option" where
  "slot_run l w [] ob = ([], ob)"
| "slot_run l w (t # ts) ob =
     (let (ok, ob1) = take_slot t l w ob; (oks, ob2) = slot_run l w ts ob1 in (ok # oks, ob2))"

definition slot_ok :: "int \<Rightarrow> int \<Rightarrow> bucket option \<Rightarrow> bool" where
  "slot_ok l t ob \<longleftrightarrow>
     (case ob of None \<Rightarrow> True
      | Some b \<Rightarrow> 1 \<le> b_count b \<and> b_count b \<le> max 1 l \<and> b_start b \<le> t)"

lemma take_slot_ok: "slot_ok l t ob \<Longrightarrow> slot_ok l t (snd (take_slot t l w ob))"
  by (auto simp: take_slot_def slot_ok_def Let_def split: option.splits)

lemma slot_ok_mono: "slot_ok l t ob \<Longrightarrow> t \<le> t' \<Longrightarrow> slot_ok l t' ob"
  by (auto simp: slot_ok_def split: option.splits)

text \<open>
  What a bucket can still let through before \<open>a + w\<close>: a bucket opened in the interval is
  never reset in it, an older one may be replaced once.
\<close>

definition budget :: "int \<Rightarrow> int \<Rightarrow> bucket option \<Rightarrow> int" where
  "budget l a ob =
     (case ob of None \<Rightarrow> max 1 l
      | Some b \<Rightarrow> (max 1 l - b_count b) + (if a \<le> b_start b then 0 else max 1 l))"

lemma take_slot_budget:
  assumes "slot_ok l t ob" "a \<le> t" "t < a + w"
  shows "(if fst (take_slot t l w ob) then 1 else 0) + budget l a (snd (take_slot t l w ob)) \<le> budget l a ob"
  using assms by (auto simp: take_slot_def slot_ok_def budget_def Let_def split: option.splits)

lemma budget_nonneg: "slot_ok l t ob \<Longrightarrow> 0 \<le> budget l a ob"
  by (auto simp: slot_ok_def budget_def split: option.splits)

lemma budget_le: "slot_ok l t ob \<Longrightarrow> budget l a ob \<le> 2 * max 1 l - 1"
  by (auto simp: slot_ok_def budget_def split: option.splits)

lemma slot_run_budget:
  assumes "slot_ok l t0 ob" "sorted (t0 # ts)" "\<forall>t\<in>set ts. a \<le> t \<and> t < a + w"
  shows "int (length (filter (\<lambda>x. x) (fst (slot_run l w ts ob)))) \<le> budget l a ob"
  using assms
proof (induction ts arbitrary: ob t0)
  case Nil
  then show ?case by (simp add: budget_nonneg)
next
  case (Cons t ts)
  from Cons.prems have ok: "slot_ok l t ob" by (auto intro: slot_ok_mono)
  have "int (length (filter (\<lambda>x. x) (fst (slot_run l w ts (snd (take_slot t l w ob))))))
      \<le> budget l a (snd (take_slot t l w ob))"
    using Cons.prems by (intro Cons.IH[OF take_slot_ok[OF ok]]) auto
  with take_slot_budget[OF ok, of a w] Cons.prems show ?case
    by (auto simp: Let_def case_prod_beta)
qed

lemma slot_run_ok:
  "slot_ok l t0 ob \<Longrightarrow> sorted (t0 # ts) \<Longrightarrow> slot_ok l (last (t0 # ts)) (snd (slot_run l w ts ob))"
proof (induction ts arbitrary: ob t0)
  case (Cons t ts)
  then have "slot_ok l t ob" by (auto intro: slot_ok_mono)
  with Cons.prems Cons.IH[OF take_slot_ok, of t ob] show ?case by (auto simp: Let_def case_prod_beta)
qed simp

text \<open>
  At every call at most \<open>maxKeys\<close> keys have a window that is still open. Then the eviction at the head of
  \<open>Allow\<close> drops finished windows only and never clears the map.
\<close>

fun few_open :: "call list \<Rightarrow> call list \<Rightarrow> bool" where
  "few_open past [] = True"
| "few_open past (c # cs) =
     (card (set (map call_key (filter (\<lambda>p. call_time c - call_time p < call_window p) past))) \<le> maxKeys
      \<and> few_open (c # past) cs)"

definition open_at :: "int \<Rightarrow> limiter \<Rightarrow> limiter" where
  "open_at t bs = filter (\<lambda>(k, b). \<not> b_window b \<le> t - b_start b) bs"

text \<open>Every bucket was opened by an earlier call on its key.\<close>

definition tracked :: "call list \<Rightarrow> limiter \<Rightarrow> bool" where
  "tracked past bs \<longleftrightarrow> (\<forall>k b. (k, b) \<in> set bs \<longrightarrow>
     (\<exists>p\<in>set past. call_key p = k \<and> call_time p = b_start b \<and> call_window p = b_window b))"

lemma open_at_few:
  assumes "gomap_ok bs" "tracked past bs"
    and "card (set (map call_key (filter (\<lambda>p. t - call_time p < call_window p) past))) \<le> maxKeys"
  shows "length (open_at t bs) \<le> maxKeys"
proof -
  have "distinct (map fst (open_at t bs))" using assms(1) by (simp add: open_at_def gomap_ok_def distinct_map_filter)
  then have "length (open_at t bs) = card (fst ` set (open_at t bs))"
    by (metis distinct_card length_map set_map)
  also have "fst ` set (open_at t bs) \<subseteq> set (map call_key (filter (\<lambda>p. t - call_time p < call_window p) past))"
    using assms(2) by (force simp: open_at_def tracked_def)
  then have "card (fst ` set (open_at t bs)) \<le> card (set (map call_key (filter (\<lambda>p. t - call_time p < call_window p) past)))"
    by (rule card_mono[OF finite_set])
  finally show ?thesis using assms(3) by simp
qed

lemma evict_open:
  assumes "length (open_at t bs) \<le> maxKeys"
  shows "evict t bs = bs \<or> evict t bs = open_at t bs"
  using assms by (simp add: evict_def open_at_def[symmetric] Let_def)

lemma open_at_get: "gomap_ok bs \<Longrightarrow> map_of (open_at t bs) k =
    (case map_of bs k of None \<Rightarrow> None | Some b \<Rightarrow> if b_window b \<le> t - b_start b then None else Some b)"
  by (auto simp: open_at_def gomap_get_filter split: option.split)

definition call_slot :: "call \<Rightarrow> bucket option \<Rightarrow> bool \<times> bucket option" where
  "call_slot c ob = take_slot (call_time c) (call_limit c) (call_window c) ob"

lemma do_call_slot:
  "fst (do_call c bs) = fst (call_slot c (map_of (evict (call_time c) bs) (call_key c)))"
  "map_of (snd (do_call c bs)) k = (if k = call_key c then snd (call_slot c (map_of (evict (call_time c) bs) k))
     else map_of (evict (call_time c) bs) k)"
  "gomap_ok bs \<Longrightarrow> gomap_ok (snd (do_call c bs))"
proof -
  let ?bs = "evict (call_time c) bs" and ?s = "call_slot c (map_of (evict (call_time c) bs) (call_key c))"
  have "snd ?s \<noteq> None" by (simp add: call_slot_def take_slot_def Let_def split: option.splits)
  then obtain b where b: "snd ?s = Some b" by blast
  have d: "do_call c bs = (fst ?s, AList.update (call_key c) b ?bs)"
    using b by (simp add: do_call_def Allow_def Let_def case_prod_beta call_key_def call_slot_def put_bucket_def)
  show "fst (do_call c bs) = fst ?s" by (simp add: d)
  show "map_of (snd (do_call c bs)) k = (if k = call_key c then snd (call_slot c (map_of ?bs k)) else map_of ?bs k)"
    using b by (simp add: d gomap_get_set)
  show "gomap_ok bs \<Longrightarrow> gomap_ok (snd (do_call c bs))" by (simp add: do_call_def Allow_ok)
qed

lemma tracked_call:
  assumes "gomap_ok bs" "tracked past bs" "length (open_at (call_time c) bs) \<le> maxKeys"
  shows "tracked (c # past) (snd (do_call c bs))"
proof -
  have ev: "map_of (evict (call_time c) bs) k = Some b \<Longrightarrow> (k, b) \<in> set bs" for k b
    using evict_open[OF assms(3)] by (auto simp: open_at_def dest: map_of_SomeD)
  have new: "snd (call_slot c ob) = Some b \<Longrightarrow> b_start b = call_time c \<and> b_window b = call_window c
      \<or> (\<exists>b0. ob = Some b0 \<and> b_start b = b_start b0 \<and> b_window b = b_window b0)" for ob b
    by (auto simp: call_slot_def take_slot_def Let_def split: option.splits if_splits)
  have "\<exists>p\<in>set (c # past). call_key p = k \<and> call_time p = b_start b \<and> call_window p = b_window b"
    if "(k, b) \<in> set (snd (do_call c bs))" for k b
  proof -
    have m: "map_of (snd (do_call c bs)) k = Some b"
      using that do_call_slot(3)[OF assms(1)] by (simp add: gomap_ok_def)
    have old: "\<exists>p\<in>set past. call_key p = k \<and> call_time p = b_start b0 \<and> call_window p = b_window b0"
      if "map_of (evict (call_time c) bs) k = Some b0" for b0
      using ev[OF that] assms(2) unfolding tracked_def by blast
    show ?thesis
      using m new[of "map_of (evict (call_time c) bs) k" b] old
      by (cases "k = call_key c") (auto simp: do_call_slot(2))
  qed
  then show ?thesis by (simp add: tracked_def)
qed

definition same_policy :: "rl_key \<Rightarrow> int \<Rightarrow> int \<Rightarrow> call list \<Rightarrow> bool" where
  "same_policy k l w cs \<longleftrightarrow> list_all (\<lambda>c. call_key c = k \<longrightarrow> call_limit c = l \<and> call_window c = w) cs"

definition key_times :: "rl_key \<Rightarrow> call list \<Rightarrow> int list" where
  "key_times k cs = map call_time (filter (\<lambda>c. call_key c = k) cs)"

text \<open>
  The bucket of a key and the one it would have if nothing were ever evicted: the same, or the first is gone and the
  second has had its window. Both answer every later call alike.
\<close>

definition slot_agrees :: "int \<Rightarrow> int \<Rightarrow> bucket option \<Rightarrow> bucket option \<Rightarrow> bool" where
  "slot_agrees w t ob ideal \<longleftrightarrow> (case ideal of None \<Rightarrow> ob = None
     | Some b \<Rightarrow> b_window b = w \<and> (ob = Some b \<or> ob = None \<and> w \<le> t - b_start b))"

lemma slot_agrees_mono: "slot_agrees w t ob ideal \<Longrightarrow> t \<le> t' \<Longrightarrow> slot_agrees w t' ob ideal"
  by (auto simp: slot_agrees_def split: option.splits)

lemma slot_agrees_evict:
  assumes "gomap_ok bs" "length (open_at t bs) \<le> maxKeys" "slot_agrees w t (map_of bs k) ideal"
  shows "slot_agrees w t (map_of (evict t bs) k) ideal"
  using evict_open[OF assms(2)] assms(3) open_at_get[OF assms(1), of t k]
  by (auto simp: slot_agrees_def split: option.splits if_splits)

lemma slot_agrees_take:
  assumes "slot_agrees w t ob ideal"
  shows "take_slot t l w ob = take_slot t l w ideal" "slot_agrees w t (snd (take_slot t l w ob)) (snd (take_slot t l w ideal))"
  using assms by (auto simp: slot_agrees_def take_slot_def Let_def split: option.splits)

lemma rl_run_projects:
  assumes "few_open past cs" "tracked past bs" "gomap_ok bs" "same_policy k l w cs"
    and "sorted (t0 # map call_time cs)" "slot_agrees w t0 (map_of bs k) ob"
  shows "allowed k cs (fst (rl_run cs bs)) = length (filter (\<lambda>x. x) (fst (slot_run l w (key_times k cs) ob)))"
  using assms
proof (induction cs arbitrary: past bs t0 ob)
  case Nil
  then show ?case by (simp add: key_times_def)
next
  case (Cons c cs)
  let ?t = "call_time c" and ?bs = "snd (do_call c bs)"
  have n: "length (open_at ?t bs) \<le> maxKeys" using Cons.prems(1-3) by (intro open_at_few[of bs past]) simp_all
  have a: "slot_agrees w ?t (map_of (evict ?t bs) k) ob"
    using Cons.prems(5,6) by (intro slot_agrees_evict[OF Cons.prems(3) n]) (auto intro: slot_agrees_mono)
  have p: "same_policy k l w cs" "call_key c = k \<Longrightarrow> call_limit c = l \<and> call_window c = w"
    using Cons.prems(4) by (auto simp: same_policy_def)
  note ih = Cons.IH[of "c # past" ?bs ?t, OF _ tracked_call[OF Cons.prems(3,2) n] do_call_slot(3)[OF Cons.prems(3)] p(1)]
  show ?case
  proof (cases "call_key c = k")
    case True
    note s = slot_agrees_take[OF a, of l]
    have "slot_agrees w ?t (map_of ?bs k) (snd (take_slot ?t l w ob))"
      using s True p(2) by (simp add: do_call_slot(2) call_slot_def)
    moreover have "fst (do_call c bs) = fst (take_slot ?t l w ob)"
      using s True p(2) by (simp add: do_call_slot(1) call_slot_def)
    ultimately show ?thesis
      using ih[of "snd (take_slot ?t l w ob)"] Cons.prems(1,5) True by (simp add: Let_def case_prod_beta key_times_def)
  next
    case False
    then have "slot_agrees w ?t (map_of ?bs k) ob" using a by (simp add: do_call_slot(2))
    with ih[of ob] Cons.prems(1,5) False show ?thesis by (simp add: Let_def case_prod_beta key_times_def)
  qed
qed

lemma rl_run_alone:
  assumes "few_open [] cs" "same_policy k l w cs" "sorted (map call_time cs)"
  shows "allowed k cs (fst (rl_run cs [])) = length (filter (\<lambda>x. x) (fst (slot_run l w (key_times k cs) None)))"
  using assms by (intro rl_run_projects[where past = "[]" and bs = "[]" and ?t0.0 = "case cs of [] \<Rightarrow> 0 | c # _ \<Rightarrow> call_time c"])
    (auto simp: tracked_def slot_agrees_def split: list.split)

lemma allowed_append:
  "length oks = length cs \<Longrightarrow> allowed k (cs @ ds) (oks @ oks') = allowed k cs oks + allowed k ds oks'"
  by (simp add: allowed_def)

lemma slot_run_append:
  "fst (slot_run l w (ts @ us) ob) = fst (slot_run l w ts ob) @ fst (slot_run l w us (snd (slot_run l w ts ob)))"
  by (induction ts arbitrary: ob) (simp_all add: Let_def case_prod_beta)

lemma few_open_prefix: "few_open past (cs @ ds) \<Longrightarrow> few_open past cs"
  by (induction cs arbitrary: past) auto

lemma sorted_map_filter_sub: "sorted (map f xs) \<Longrightarrow> sorted (map f (filter P xs))"
  by (induction xs) auto


definition sample_call :: "int \<Rightarrow> call" where
  "sample_call t = \<lparr>call_req = \<lparr>req_method = ''POST'', req_path = ''/link/sync/'', req_header = [], req_query = [],
       req_form = [], req_cookie = [], req_remote = ''10.0.0.1:5000''\<rparr>,
     call_scope = ''sync'', call_limit = 3, call_window = 60, call_time = t\<rparr>"

lemma sample_call_simps [simp]:
  "call_key (sample_call t) = (''sync'', ''10.0.0.1'')" "call_limit (sample_call t) = 3"
  "call_window (sample_call t) = 60" "call_time (sample_call t) = t"
proof -
  have "ClientIP (call_req (sample_call 0)) = ''10.0.0.1''" by code_simp
  then show "call_key (sample_call t) = (''sync'', ''10.0.0.1'')" by (simp add: call_key_def sample_call_def)
qed (simp_all add: sample_call_def)


lemma slot_run_exact:
  assumes "\<forall>t\<in>set ts. t - b_start b < w" "b_count b \<le> max 1 l" "1 \<le> b_count b"
  shows "int (length (filter (\<lambda>x. x) (fst (slot_run l w ts (Some b))))) = min (int (length ts)) (max 1 l - b_count b)"
  using assms
proof (induction ts arbitrary: b)
  case (Cons t ts)
  show ?case
  proof (cases "l \<le> b_count b")
    case True
    with Cons.prems Cons.IH[of b] show ?thesis by (auto simp: take_slot_def Let_def case_prod_beta)
  next
    case False
    with Cons.prems Cons.IH[of "b\<lparr>b_count := b_count b + 1\<rparr>"] show ?thesis
      by (simp add: take_slot_def Let_def case_prod_beta)
  qed
qed simp

text \<open>
  of the requests of one scope and address that fall into one window, counted from the
  first, exactly the first \<open>limit\<close> pass (one passes even for a limit below one).
\<close>

theorem window_exact:
  assumes "few_open [] cs" "same_policy k l w cs" "sorted (map call_time cs)"
    and "key_times k cs = t0 # ts" "\<forall>t\<in>set ts. t < t0 + w"
  shows "int (allowed k cs (fst (rl_run cs []))) = min (int (length (key_times k cs))) (max 1 l)"
proof -
  let ?b = "\<lparr>b_start = t0, b_count = 1, b_window = w\<rparr>"
  have "int (length (filter (\<lambda>x. x) (fst (slot_run l w ts (Some ?b))))) = min (int (length ts)) (max 1 l - 1)"
    using slot_run_exact[of ts ?b w l] assms(5) by (simp add: algebra_simps)
  with rl_run_alone[OF assms(1-3)] assms(4) show ?thesis
    by (simp add: take_slot_def Let_def case_prod_beta)
qed

theorem window_exact_witness:
  "int (allowed (''sync'', ''10.0.0.1'') (map sample_call [0, 1, 2, 3, 4]) (fst (rl_run (map sample_call [0, 1, 2, 3, 4]) []))) = 3"
proof -
  have "few_open [] (map sample_call [0, 1, 2, 3, 4])"
    by (simp add: maxKeys_def)
  moreover have "same_policy (''sync'', ''10.0.0.1'') 3 60 (map sample_call [0, 1, 2, 3, 4])"
    by (simp add: same_policy_def)
  moreover have t: "key_times (''sync'', ''10.0.0.1'') (map sample_call [0, 1, 2, 3, 4]) = [0, 1, 2, 3, 4]"
    by (simp add: key_times_def)
  ultimately show ?thesis
    using window_exact[of "map sample_call [0, 1, 2, 3, 4]" "(''sync'', ''10.0.0.1'')" 3 60 0 "[1, 2, 3, 4]"] by simp
qed

text \<open>
  whatever the requests, the limiter never holds more than \<open>maxKeys + 1\<close> buckets, one per
  key: the eviction and, when every window is still open, the clearing of the map bound it.
\<close>

theorem memory_bound:
  "gomap_ok (snd (rl_run cs [])) \<and> length (snd (rl_run cs [])) \<le> maxKeys + 1"
proof -
  have "gomap_ok (snd (rl_run cs bs)) \<and> length (snd (rl_run cs bs)) \<le> Suc maxKeys"
    if "gomap_ok bs" "length bs \<le> Suc maxKeys" for bs
    using that
  proof (induction cs arbitrary: bs)
    case (Cons c cs)
    show ?case
      using Cons.IH[of "snd (do_call c bs)"] Cons.prems(1)
      by (simp add: Let_def case_prod_beta do_call_def Allow_ok Allow_len)
  qed simp
  from this[of "[]"] show ?thesis by simp
qed

text \<open>
  Evicting a bucket whose window is over does not change any later answer for its key, as
  long as the key is asked about with the window it was opened with.
\<close>

lemma evicted_bucket_is_spent:
  assumes "b_window b \<le> t - b_start b" "t \<le> t'"
  shows "take_slot t' l (b_window b) (Some b) = take_slot t' l (b_window b) None"
  using assms by (simp add: take_slot_def)

end
