(* ===== verification/Schedule.thy ===== *)
theory Schedule
  imports Prelude
begin

text \<open>
  \<open>internal/schedule/schedule.go\<close>: the daily job. A time is the number of nanoseconds since the
  Unix epoch, in UTC, where every day has 24 hours (\<open>time.Time\<close> has no leap seconds), so
  \<open>time.Date(now.Year(), now.Month(), now.Day(), h, ...)\<close> is the start of the day of \<open>now\<close>
  plus \<open>h\<close> hours and \<open>AddDate(0, 0, 1)\<close> adds 24 hours.
\<close>

definition hour_ns :: int where
  "hour_ns = 3600000000000"

definition day_ns :: int where
  "day_ns = 24 * hour_ns"

definition Until :: "int \<Rightarrow> int \<Rightarrow> int" where
  "Until hourUTC now =
     (let next = (now div day_ns) * day_ns + hourUTC * hour_ns;
          next = (if \<not> now < next then next + day_ns else next)
      in next - now)"

lemma day_ns_pos: "0 < day_ns"
  by (simp add: day_ns_def hour_ns_def)

lemma Until_cases:
  obtains "now mod day_ns < h * hour_ns" "Until h now = h * hour_ns - now mod day_ns"
  | "h * hour_ns \<le> now mod day_ns" "Until h now = day_ns + h * hour_ns - now mod day_ns"
proof -
  have "now div day_ns * day_ns = now - now mod day_ns" by (simp add: minus_mod_eq_div_mult)
  then show ?thesis using that by (cases "now mod day_ns < h * hour_ns") (auto simp: Until_def Let_def)
qed

lemma Until_spec:
  assumes "0 \<le> h" "h < 24"
  shows "0 < Until h now \<and> Until h now \<le> day_ns
    \<and> (now + Until h now) mod day_ns = h * hour_ns
    \<and> (\<forall>d. 0 < d \<and> d < Until h now \<longrightarrow> (now + d) mod day_ns \<noteq> h * hour_ns)
    \<and> (now mod day_ns = h * hour_ns \<longrightarrow> Until h now = day_ns)"
proof -
  let ?m = "now mod day_ns" and ?t = "h * hour_ns"
  have m: "0 \<le> ?m" "?m < day_ns" using day_ns_pos by simp_all
  have t: "0 \<le> ?t" "?t < day_ns" using assms by (simp_all add: day_ns_def hour_ns_def)
  have red: "(now + d) mod day_ns = (?m + d) mod day_ns" for d by (simp add: mod_add_left_eq)
  show ?thesis
  proof (cases rule: Until_cases[of now h])
    case 1
    have "(?m + d) mod day_ns \<noteq> ?t" if "0 < d" "d < ?t - ?m" for d
      using that m t by (simp add: mod_pos_pos_trivial)
    moreover have "(?m + (?t - ?m)) mod day_ns = ?t" using t by simp
    moreover have le: "?t - ?m \<le> day_ns" using m(1) t(2) by linarith
    ultimately show ?thesis using 1 m t le by (simp add: red)
  next
    case 2
    have "(?m + d) mod day_ns \<noteq> ?t" if "0 < d" "d < day_ns + ?t - ?m" for d
    proof (cases "?m + d < day_ns")
      case True
      with that 2 m show ?thesis by (simp add: mod_pos_pos_trivial)
    next
      case False
      then have "(?m + d - day_ns) mod day_ns = ?m + d - day_ns"
        using that m t by (intro mod_pos_pos_trivial) auto
      then have "(?m + d) mod day_ns = ?m + d - day_ns" by simp
      with that show ?thesis by simp
    qed
    moreover have "(?m + (day_ns + ?t - ?m)) mod day_ns = ?t" using t by simp
    moreover have pos: "?m < day_ns + ?t" using m t by linarith
    ultimately show ?thesis using 2 m t pos by (simp add: red)
  qed
qed

text \<open>
  for an hour of the day, the wait is positive and at most 24 hours, it ends exactly at
  that hour, and no earlier moment after \<open>now\<close> is at that hour; at the hour itself the wait
  is a full day.
\<close>

theorem Until_next_hour:
  assumes "0 \<le> h" "h < 24"
  shows "0 < Until h now \<and> Until h now \<le> day_ns
    \<and> (now + Until h now) mod day_ns = h * hour_ns
    \<and> (\<forall>d. 0 < d \<and> d < Until h now \<longrightarrow> (now + d) mod day_ns \<noteq> h * hour_ns)
    \<and> (now mod day_ns = h * hour_ns \<longrightarrow> Until h now = day_ns)"
  using assms by (rule Until_spec)

theorem Until_next_hour_witness:
  "(1700000000000000000 + Until 18 1700000000000000000) mod day_ns = 18 * hour_ns"
  using Until_next_hour[of 18 1700000000000000000] by simp

section \<open>The loop\<close>

text \<open>
  \<open>Daily\<close> as a run: \<open>laps\<close> gives, for each turn of the loop, by how much the timer fires late
  and how long the job takes; a turn in which the context ends first ends the loop, so
  the run has no such turn. The result is the time at which each job starts.
\<close>

fun daily_starts :: "int \<Rightarrow> int \<Rightarrow> (int \<times> int) list \<Rightarrow> int list" where
  "daily_starts h now [] = []"
| "daily_starts h now ((late, dur) # laps) =
     (let start = now + Until h now + late in start # daily_starts h (start + dur) laps)"

text \<open>The moment the timer of each turn was set for.\<close>

fun daily_due :: "int \<Rightarrow> int \<Rightarrow> (int \<times> int) list \<Rightarrow> int list" where
  "daily_due h now [] = []"
| "daily_due h now ((late, dur) # laps) =
     (now + Until h now) # daily_due h (now + Until h now + late + dur) laps"

lemma due_later:
  assumes "0 \<le> h" "h < 24"
  shows "\<forall>(late, dur)\<in>set laps. 0 \<le> late \<and> 0 \<le> dur \<Longrightarrow> \<forall>d\<in>set (daily_due h now laps). now < d \<and> d mod day_ns = h * hour_ns"
proof (induction laps arbitrary: now)
  case (Cons lap laps)
  obtain late dur where lap: "lap = (late, dur)" by (cases lap)
  have u: "0 < Until h now" "(now + Until h now) mod day_ns = h * hour_ns"
    using Until_spec[OF assms] by blast+
  from Cons.prems lap Cons.IH[of "now + Until h now + late + dur"] u show ?case by fastforce
qed simp

text \<open>
  the jobs are due at the fixed hour of pairwise different days, in order: no day's job
  runs twice, and a job that overruns skips days instead of overlapping.
\<close>

theorem daily_once_a_day:
  assumes "0 \<le> h" "h < 24" "\<forall>(late, dur)\<in>set laps. 0 \<le> late \<and> 0 \<le> dur"
  shows "sorted_wrt (\<lambda>d e. d div day_ns < e div day_ns) (daily_due h now laps)
    \<and> list_all2 (\<lambda>d s. d \<le> s) (daily_due h now laps) (daily_starts h now laps)
    \<and> (\<forall>d\<in>set (daily_due h now laps). d mod day_ns = h * hour_ns)"
  using assms(3)
proof (induction laps arbitrary: now)
  case (Cons lap laps)
  obtain late dur where lap: "lap = (late, dur)" by (cases lap)
  let ?d = "now + Until h now" and ?n = "now + Until h now + late + dur"
  from Cons.prems lap have ld: "0 \<le> late" "0 \<le> dur" "\<forall>(late, dur)\<in>set laps. 0 \<le> late \<and> 0 \<le> dur" by auto
  have m: "?d mod day_ns = h * hour_ns" using Until_spec[OF assms(1,2)] by blast
  have "?d div day_ns < e div day_ns" if e: "e \<in> set (daily_due h ?n laps)" for e
  proof -
    from due_later[OF assms(1,2) ld(3), of ?n] e have "?n < e" "e mod day_ns = h * hour_ns" by auto
    with m ld have "?d < e" "e mod day_ns = ?d mod day_ns" by auto
    then show ?thesis
      by (metis div_mult_mod_eq day_ns_pos add_less_cancel_right mult_less_cancel_right_pos)
  qed
  with Cons.IH[OF ld(3), of ?n] m ld lap show ?case by (simp add: Let_def add.assoc)
qed simp

theorem daily_once_a_day_witness:
  "sorted_wrt (\<lambda>d e. d div day_ns < e div day_ns) (daily_due 18 0 [(5, 10), (0, 3 * day_ns), (1, 1)])"
  using daily_once_a_day[of 18 "[(5, 10), (0, 3 * day_ns), (1, 1)]" 0] day_ns_pos by simp

end
