(* ===== verification/Store.thy ===== *)
theory Store
  imports Prelude
begin

text \<open>
  \<open>internal/store\<close>: the SQLite database with the schema of \<open>migrations\<close>, every query of
  \<open>queries.sql\<close> (generated into \<open>db/queries.sql.go\<close>), the write transaction \<open>WriteTx\<close> and the
  session store.

  A table is the list of its rows. A statement (\<open>stmt\<close>) maps the clock and the database to an
  error or a value and the new database; it writes out the UNIQUE, CHECK and REFERENCES
  constraints of the schema, and a statement that fails changes nothing, which is SQLite's
  default (ABORT). A new row gets the id one above the greatest of its table, as an
  INTEGER PRIMARY KEY does. Go code that talks to the database is an action (\<open>act\<close>) on a
  world: the committed database, the clock in nanoseconds and, for each statement, BEGIN and
  COMMIT to come, whether it fails for a reason outside the program (disk, lock, a
  cancelled context); a missing entry means it does not fail.
\<close>

section \<open>Rows and tables\<close>

record user_row =
  u_id :: int
  u_chzzk_id :: string
  u_nickname :: string
  u_preferred :: "int option"
  u_created :: int

record channel_row =
  ch_id :: int
  ch_user :: int
  ch_chzzk_id :: string
  ch_access :: "string option"
  ch_refresh :: "string option"
  ch_expires :: "int option"
  ch_created :: int

record link_row =
  l_id :: int
  l_user :: int
  l_nickname :: string
  l_user_no :: "int option"
  l_active :: bool
  l_created :: int
  l_updated :: int

record class_row =
  dc_id :: int
  dc_user :: int
  dc_button :: int
  dc_class :: string
  dc_power_sum :: "rat option"
  dc_max_power :: "rat option"
  dc_conversion :: "rat option"
  dc_synced :: int

text \<open>The expiry of a session, a Julian day in the table, is kept as the millisecond it denotes.\<close>

record session_row =
  s_token :: string
  s_data :: string
  s_expiry :: int

record db =
  db_users :: "user_row list"
  db_channels :: "channel_row list"
  db_links :: "link_row list"
  db_classes :: "class_row list"
  db_sessions :: "session_row list"

definition empty_db :: db where
  "empty_db = \<lparr>db_users = [], db_channels = [], db_links = [], db_classes = [], db_sessions = []\<rparr>"

datatype db_error = ErrNoRows | ErrConstraint | ErrIO | ErrNestedWrite

type_synonym 'a stmt = "int \<Rightarrow> db \<Rightarrow> db_error + ('a \<times> db)"

definition unixepoch :: "int \<Rightarrow> int" where
  "unixepoch t = t div 1000000000"

definition unix_ms :: "int \<Rightarrow> int" where
  "unix_ms t = t div 1000000"

definition next_id :: "int list \<Rightarrow> int" where
  "next_id ids = fold max ids 0 + 1"

text \<open>\<open>UPDATE ... WHERE\<close>: the rows that satisfy the condition are changed in place.\<close>

definition update_where :: "('r \<Rightarrow> bool) \<Rightarrow> ('r \<Rightarrow> 'r) \<Rightarrow> 'r list \<Rightarrow> 'r list" where
  "update_where P f rows = map (\<lambda>r. if P r then f r else r) rows"

definition user_exists :: "db \<Rightarrow> int \<Rightarrow> bool" where
  "user_exists d uid \<longleftrightarrow> uid \<in> set (map u_id (db_users d))"

definition valid_button :: "int \<Rightarrow> bool" where
  "valid_button b \<longleftrightarrow> b = 4 \<or> b = 5 \<or> b = 6 \<or> b = 8"

text \<open>\<open>:one\<close>: the first row, or \<open>sql.ErrNoRows\<close>.\<close>

definition one :: "'r option \<Rightarrow> db \<Rightarrow> db_error + ('r \<times> db)" where
  "one r d = (case r of None \<Rightarrow> Inl ErrNoRows | Some x \<Rightarrow> Inr (x, d))"

section \<open>Queries\<close>

subsection \<open>Users\<close>

definition UpsertUser :: "string \<Rightarrow> string \<Rightarrow> user_row stmt" where
  "UpsertUser chzzkID nickname t d =
     (case find (\<lambda>u. u_chzzk_id u = chzzkID) (db_users d) of
        Some u \<Rightarrow>
          Inr (u\<lparr>u_nickname := nickname\<rparr>,
               d\<lparr>db_users := update_where (\<lambda>x. u_chzzk_id x = chzzkID) (\<lambda>x. x\<lparr>u_nickname := nickname\<rparr>) (db_users d)\<rparr>)
      | None \<Rightarrow>
          (let u = \<lparr>u_id = next_id (map u_id (db_users d)), u_chzzk_id = chzzkID, u_nickname = nickname,
                    u_preferred = None, u_created = unixepoch t\<rparr>
           in Inr (u, d\<lparr>db_users := db_users d @ [u]\<rparr>)))"

definition GetUserByChzzkID :: "string \<Rightarrow> user_row stmt" where
  "GetUserByChzzkID chzzkID t d = one (find (\<lambda>u. u_chzzk_id u = chzzkID) (db_users d)) d"

definition GetUserByID :: "int \<Rightarrow> user_row stmt" where
  "GetUserByID uid t d = one (find (\<lambda>u. u_id u = uid) (db_users d)) d"

definition set_preferred_button :: "int option \<Rightarrow> int \<Rightarrow> unit stmt" where
  "set_preferred_button pref uid t d =
     (if user_exists d uid \<and> (case pref of None \<Rightarrow> False | Some b \<Rightarrow> \<not> valid_button b)
      then Inl ErrConstraint
      else Inr ((), d\<lparr>db_users := update_where (\<lambda>u. u_id u = uid) (\<lambda>u. u\<lparr>u_preferred := pref\<rparr>) (db_users d)\<rparr>))"

subsection \<open>Channels\<close>

definition UpsertChannel :: "int \<Rightarrow> string \<Rightarrow> string option \<Rightarrow> string option \<Rightarrow> int option \<Rightarrow> unit stmt" where
  "UpsertChannel uid chzzkID access refresh expires t d =
     (case find (\<lambda>c. ch_user c = uid) (db_channels d) of
        Some c \<Rightarrow>
          if \<exists>x\<in>set (db_channels d). ch_user x \<noteq> uid \<and> ch_chzzk_id x = chzzkID then Inl ErrConstraint
          else Inr ((), d\<lparr>db_channels := update_where (\<lambda>x. ch_user x = uid)
                 (\<lambda>x. x\<lparr>ch_chzzk_id := chzzkID, ch_access := access, ch_refresh := refresh, ch_expires := expires\<rparr>)
                 (db_channels d)\<rparr>)
      | None \<Rightarrow>
          if \<not> user_exists d uid \<or> chzzkID \<in> set (map ch_chzzk_id (db_channels d)) then Inl ErrConstraint
          else Inr ((), d\<lparr>db_channels := db_channels d @
                 [\<lparr>ch_id = next_id (map ch_id (db_channels d)), ch_user = uid, ch_chzzk_id = chzzkID, ch_access = access,
                   ch_refresh = refresh, ch_expires = expires, ch_created = unixepoch t\<rparr>]\<rparr>))"

definition GetChannelByChzzkID :: "string \<Rightarrow> channel_row stmt" where
  "GetChannelByChzzkID chzzkID t d = one (find (\<lambda>c. ch_chzzk_id c = chzzkID) (db_channels d)) d"

definition UpdateChannelTokens :: "string option \<Rightarrow> string option \<Rightarrow> int option \<Rightarrow> int \<Rightarrow> unit stmt" where
  "UpdateChannelTokens access refresh expires cid t d =
     Inr ((), d\<lparr>db_channels := update_where (\<lambda>c. ch_id c = cid)
            (\<lambda>c. c\<lparr>ch_access := access, ch_refresh := refresh, ch_expires := expires\<rparr>) (db_channels d)\<rparr>)"

subsection \<open>Links\<close>

definition UpsertVarchiveLink :: "int \<Rightarrow> string \<Rightarrow> int option \<Rightarrow> unit stmt" where
  "UpsertVarchiveLink uid nickname userNo t d =
     (case find (\<lambda>l. l_user l = uid) (db_links d) of
        Some l \<Rightarrow>
          Inr ((), d\<lparr>db_links := update_where (\<lambda>x. l_user x = uid)
                 (\<lambda>x. x\<lparr>l_nickname := nickname, l_user_no := userNo, l_active := True, l_updated := unixepoch t\<rparr>)
                 (db_links d)\<rparr>)
      | None \<Rightarrow>
          if \<not> user_exists d uid then Inl ErrConstraint
          else Inr ((), d\<lparr>db_links := db_links d @
                 [\<lparr>l_id = next_id (map l_id (db_links d)), l_user = uid, l_nickname = nickname, l_user_no = userNo,
                   l_active = True, l_created = unixepoch t, l_updated = unixepoch t\<rparr>]\<rparr>))"

definition GetActiveLink :: "int \<Rightarrow> link_row stmt" where
  "GetActiveLink uid t d = one (find (\<lambda>l. l_user l = uid \<and> l_active l) (db_links d)) d"

definition HasActiveLink :: "int \<Rightarrow> bool stmt" where
  "HasActiveLink uid t d = Inr (list_ex (\<lambda>l. l_user l = uid \<and> l_active l) (db_links d), d)"

definition DeactivateLink :: "int \<Rightarrow> unit stmt" where
  "DeactivateLink uid t d =
     Inr ((), d\<lparr>db_links := update_where (\<lambda>l. l_user l = uid)
            (\<lambda>l. l\<lparr>l_active := False, l_updated := unixepoch t\<rparr>) (db_links d)\<rparr>)"

record active_link =
  al_user :: int
  al_nickname :: string
  al_chzzk_id :: string
  al_chzzk_nickname :: string

definition ListActiveLinks :: "active_link list stmt" where
  "ListActiveLinks t d =
     Inr (sort_key al_user
            (concat (map (\<lambda>l. map (\<lambda>u. \<lparr>al_user = l_user l, al_nickname = l_nickname l,
                                      al_chzzk_id = u_chzzk_id u, al_chzzk_nickname = u_nickname u\<rparr>)
                                (filter (\<lambda>u. u_id u = l_user l) (db_users d)))
                         (filter l_active (db_links d)))), d)"

subsection \<open>Classes\<close>

definition ListDjClasses :: "int \<Rightarrow> class_row list stmt" where
  "ListDjClasses uid t d = Inr (sort_key dc_button (filter (\<lambda>r. dc_user r = uid) (db_classes d)), d)"

definition UpsertDjClass ::
  "int \<Rightarrow> int \<Rightarrow> string \<Rightarrow> rat option \<Rightarrow> rat option \<Rightarrow> rat option \<Rightarrow> unit stmt" where
  "UpsertDjClass uid button cls power_sum max_power conv t d =
     (if \<not> valid_button button then Inl ErrConstraint
      else case find (\<lambda>r. dc_user r = uid \<and> dc_button r = button) (db_classes d) of
        Some r \<Rightarrow>
          Inr ((), d\<lparr>db_classes := update_where (\<lambda>x. dc_user x = uid \<and> dc_button x = button)
                 (\<lambda>x. x\<lparr>dc_class := cls, dc_power_sum := power_sum, dc_max_power := max_power,
                        dc_conversion := conv, dc_synced := unixepoch t\<rparr>)
                 (db_classes d)\<rparr>)
      | None \<Rightarrow>
          if \<not> user_exists d uid then Inl ErrConstraint
          else Inr ((), d\<lparr>db_classes := db_classes d @
                 [\<lparr>dc_id = next_id (map dc_id (db_classes d)), dc_user = uid, dc_button = button, dc_class = cls,
                   dc_power_sum = power_sum, dc_max_power = max_power, dc_conversion = conv,
                   dc_synced = unixepoch t\<rparr>]\<rparr>))"

definition DeleteDjClasses :: "int \<Rightarrow> unit stmt" where
  "DeleteDjClasses uid t d = Inr ((), d\<lparr>db_classes := filter (\<lambda>r. dc_user r \<noteq> uid) (db_classes d)\<rparr>)"

subsection \<open>Sessions\<close>

definition CommitSession :: "string \<Rightarrow> string \<Rightarrow> int \<Rightarrow> unit stmt" where
  "CommitSession token data expiry t d =
     Inr ((), d\<lparr>db_sessions := filter (\<lambda>s. s_token s \<noteq> token) (db_sessions d) @
            [\<lparr>s_token = token, s_data = data, s_expiry = expiry\<rparr>]\<rparr>)"

definition FindSession :: "string \<Rightarrow> string stmt" where
  "FindSession token t d =
     one (map_option s_data (find (\<lambda>s. s_token s = token \<and> unix_ms t < s_expiry s) (db_sessions d))) d"

definition DeleteSession :: "string \<Rightarrow> unit stmt" where
  "DeleteSession token t d = Inr ((), d\<lparr>db_sessions := filter (\<lambda>s. s_token s \<noteq> token) (db_sessions d)\<rparr>)"

definition DeleteExpiredSessions :: "unit stmt" where
  "DeleteExpiredSessions t d =
     Inr ((), d\<lparr>db_sessions := filter (\<lambda>s. \<not> s_expiry s < unix_ms t) (db_sessions d)\<rparr>)"

section \<open>Actions and transactions\<close>

record world =
  w_db :: db
  w_now :: int
  w_faults :: "bool list"

type_synonym 'a act = "world \<Rightarrow> (db_error + 'a) \<times> world"

definition take_fault :: "world \<Rightarrow> bool \<times> world" where
  "take_fault w = (case w_faults w of [] \<Rightarrow> (False, w) | f # fs \<Rightarrow> (f, w\<lparr>w_faults := fs\<rparr>))"

definition run_stmt :: "'a stmt \<Rightarrow> 'a act" where
  "run_stmt s w =
     (let (bad, w1) = take_fault w in
      if bad then (Inl ErrIO, w1)
      else case s (w_now w1) (w_db w1) of
        Inl e \<Rightarrow> (Inl e, w1)
      | Inr (a, d) \<Rightarrow> (Inr a, w1\<lparr>w_db := d\<rparr>))"

definition return_ok :: "'a \<Rightarrow> 'a act" where
  "return_ok a w = (Inr a, w)"

text \<open>\<open>if err != nil { return err }\<close> between two steps.\<close>

definition and_then :: "'a act \<Rightarrow> ('a \<Rightarrow> 'b act) \<Rightarrow> 'b act" where
  "and_then m f w = (case m w of (Inl e, w1) \<Rightarrow> (Inl e, w1) | (Inr a, w1) \<Rightarrow> f a w1)"

text \<open>
  \<open>WriteTx\<close>: \<open>held\<close> tells whether the context comes from inside another \<open>WriteTx\<close>. The body runs
  with its own context; an error of BEGIN, of the body or of COMMIT leaves the database
  as it was.
\<close>

definition WriteTx :: "bool \<Rightarrow> (bool \<Rightarrow> 'a act) \<Rightarrow> 'a act" where
  "WriteTx held fn w =
     (if held then (Inl ErrNestedWrite, w)
      else
        (let (bad, w1) = take_fault w in
         if bad then (Inl ErrIO, w1)
         else case fn True w1 of
           (Inl e, w2) \<Rightarrow> (Inl e, w2\<lparr>w_db := w_db w\<rparr>)
         | (Inr a, w2) \<Rightarrow>
             (let (bad2, w3) = take_fault w2 in
              if bad2 then (Inl ErrIO, w3\<lparr>w_db := w_db w\<rparr>) else (Inr a, w3))))"

section \<open>The session store\<close>

definition FindCtx :: "string \<Rightarrow> string option act" where
  "FindCtx token w =
     (case run_stmt (FindSession token) w of
        (Inl e, w1) \<Rightarrow> if e = ErrNoRows then (Inr None, w1) else (Inl e, w1)
      | (Inr b, w1) \<Rightarrow> (Inr (Some b), w1))"

definition CommitCtx :: "string \<Rightarrow> string \<Rightarrow> int \<Rightarrow> unit act" where
  "CommitCtx token b expiry = WriteTx False (\<lambda>held. run_stmt (CommitSession token b (unix_ms expiry)))"

definition DeleteCtx :: "string \<Rightarrow> unit act" where
  "DeleteCtx token = WriteTx False (\<lambda>held. run_stmt (DeleteSession token))"

text \<open>One tick of \<open>Cleanup\<close>; its error is dropped.\<close>

definition Cleanup_tick :: "world \<Rightarrow> world" where
  "Cleanup_tick w = snd (WriteTx False (\<lambda>held. run_stmt DeleteExpiredSessions) w)"

section \<open>The schema as an invariant\<close>

named_theorems stmt_intros \<open>statements and actions that keep the schema\<close>

definition users_ok :: "user_row list \<Rightarrow> bool" where
  "users_ok us \<longleftrightarrow> distinct (map u_id us) \<and> distinct (map u_chzzk_id us)
     \<and> list_all (\<lambda>u. case u_preferred u of None \<Rightarrow> True | Some b \<Rightarrow> valid_button b) us"

definition channels_ok :: "int set \<Rightarrow> channel_row list \<Rightarrow> bool" where
  "channels_ok uids cs \<longleftrightarrow> distinct (map ch_id cs) \<and> distinct (map ch_user cs) \<and> distinct (map ch_chzzk_id cs)
     \<and> list_all (\<lambda>c. ch_user c \<in> uids) cs"

definition links_ok :: "int set \<Rightarrow> link_row list \<Rightarrow> bool" where
  "links_ok uids ls \<longleftrightarrow> distinct (map l_id ls) \<and> distinct (map l_user ls) \<and> list_all (\<lambda>l. l_user l \<in> uids) ls"

definition classes_ok :: "int set \<Rightarrow> class_row list \<Rightarrow> bool" where
  "classes_ok uids rs \<longleftrightarrow> distinct (map dc_id rs) \<and> distinct (map (\<lambda>r. (dc_user r, dc_button r)) rs)
     \<and> list_all (\<lambda>r. dc_user r \<in> uids) rs \<and> list_all (\<lambda>r. valid_button (dc_button r)) rs"

definition user_ids :: "db \<Rightarrow> int set" where
  "user_ids d = u_id ` set (db_users d)"

definition db_inv :: "db \<Rightarrow> bool" where
  "db_inv d \<longleftrightarrow> users_ok (db_users d) \<and> channels_ok (user_ids d) (db_channels d)
     \<and> links_ok (user_ids d) (db_links d) \<and> classes_ok (user_ids d) (db_classes d)
     \<and> distinct (map s_token (db_sessions d))"

lemma db_inv_empty: "db_inv empty_db"
  by (simp add: db_inv_def empty_db_def users_ok_def channels_ok_def links_ok_def classes_ok_def)

lemma fold_max_ge: "x \<in> set xs \<Longrightarrow> x \<le> fold max xs (a::int)" and fold_max_base: "a \<le> fold max xs (a::int)"
proof -
  have b: "a \<le> fold max xs a" for a and xs :: "int list"
    by (induction xs arbitrary: a) (auto intro: order_trans[OF max.cobounded2])
  then show "a \<le> fold max xs a" .
  show "x \<in> set xs \<Longrightarrow> x \<le> fold max xs a"
  proof (induction xs arbitrary: a)
    case (Cons y ys)
    then show ?case using b[of "max y a" ys] by auto
  qed simp
qed

lemma next_id_fresh [simp]: "next_id ids \<notin> set ids"
proof
  assume "next_id ids \<in> set ids"
  from fold_max_ge[OF this, of 0] show False by (simp add: next_id_def)
qed

lemma next_id_fresh_image [simp]: "next_id (map f xs) \<notin> f ` set xs"
  using next_id_fresh[of "map f xs"] by simp

lemma update_where_key [simp]: "(\<And>r. k (f r) = k r) \<Longrightarrow> map k (update_where P f rows) = map k rows"
  by (induction rows) (auto simp: update_where_def)

lemma update_where_key_image [simp]: "(\<And>r. k (f r) = k r) \<Longrightarrow> k ` set (update_where P f rows) = k ` set rows"
  using update_where_key[of k f P rows] by (metis list.set_map)

lemma update_where_all:
  "list_all Q rows \<Longrightarrow> (\<And>r. P r \<Longrightarrow> Q r \<Longrightarrow> Q (f r)) \<Longrightarrow> list_all Q (update_where P f rows)"
  by (induction rows) (auto simp: update_where_def)

text \<open>Giving one row of a table a value of a unique column that no other row has.\<close>

lemma update_where_distinct:
  assumes "distinct (map k rows)" "distinct (map g rows)" "\<And>r. P r \<longleftrightarrow> g r = a" "\<And>r. k (f r) = v"
    and "\<And>r. r \<in> set rows \<Longrightarrow> \<not> P r \<Longrightarrow> k r \<noteq> v"
  shows "distinct (map k (update_where P f rows))"
  using assms(1,2,5)
proof (induction rows)
  case (Cons r rows)
  show ?case
  proof (cases "P r")
    case True
    with Cons.prems(2) assms(3) have none: "\<And>x. x \<in> set rows \<Longrightarrow> \<not> P x" by (metis distinct.simps(2) image_eqI list.map(2) set_map)
    then have "update_where P f rows = rows" by (simp add: update_where_def map_idI)
    moreover have "v \<notin> k ` set rows" using Cons.prems(3) none by auto
    ultimately show ?thesis using True Cons.prems by (simp add: update_where_def assms(4))
  next
    case False
    then have r: "update_where P f (r # rows) = r # update_where P f rows" by (simp add: update_where_def)
    have "k r \<notin> k ` set (update_where P f rows)"
      using Cons.prems False assms(4) by (auto simp: update_where_def)
    with r Cons show ?thesis by simp
  qed
qed (simp add: update_where_def)

section \<open>Every statement keeps the schema\<close>

definition keeps_stmt :: "'a stmt \<Rightarrow> bool" where
  "keeps_stmt s \<longleftrightarrow> (\<forall>t d a d'. db_inv d \<longrightarrow> s t d = Inr (a, d') \<longrightarrow> db_inv d')"

lemma keeps_stmtI: "(\<And>t d a d'. db_inv d \<Longrightarrow> s t d = Inr (a, d') \<Longrightarrow> db_inv d') \<Longrightarrow> keeps_stmt s"
  by (auto simp: keeps_stmt_def)

lemma keeps_read: "(\<And>t d. (\<exists>e. s t d = Inl e) \<or> (\<exists>a. s t d = Inr (a, d))) \<Longrightarrow> keeps_stmt s"
  unfolding keeps_stmt_def by (metis Inl_Inr_False sum.inject(2) prod.inject)

lemma one_cases: "(\<exists>e. one r d = Inl e) \<or> (\<exists>a. one r d = Inr (a, d))"
  by (cases r) (simp_all add: one_def)

lemma keeps_reads [stmt_intros]:
  "keeps_stmt (GetUserByChzzkID c)" "keeps_stmt (GetUserByID uid)" "keeps_stmt (GetChannelByChzzkID c)"
  "keeps_stmt (GetActiveLink uid)" "keeps_stmt (HasActiveLink uid)" "keeps_stmt ListActiveLinks"
  "keeps_stmt (ListDjClasses uid)" "keeps_stmt (FindSession c)"
  by (rule keeps_read; simp add: GetUserByChzzkID_def GetUserByID_def GetChannelByChzzkID_def GetActiveLink_def
        HasActiveLink_def ListActiveLinks_def ListDjClasses_def FindSession_def one_cases)+

lemma keeps_UpsertUser [stmt_intros]: "keeps_stmt (UpsertUser c n)"
proof (rule keeps_stmtI)
  fix t d a d' assume i: "db_inv d" and r: "UpsertUser c n t d = Inr (a, d')"
  show "db_inv d'"
  proof (cases "find (\<lambda>u. u_chzzk_id u = c) (db_users d)")
    case None
    with r have d': "d' = d\<lparr>db_users := db_users d @ [a]\<rparr>" "u_id a = next_id (map u_id (db_users d))"
      "u_chzzk_id a = c" "u_preferred a = None" by (auto simp: UpsertUser_def Let_def)
    have fresh: "u_id a \<notin> u_id ` set (db_users d)" by (simp only: d' next_id_fresh_image not_False_eq_True)
    from None have "c \<notin> u_chzzk_id ` set (db_users d)" by (auto simp: find_None_iff)
    with i d' fresh show ?thesis
      by (auto simp: db_inv_def users_ok_def user_ids_def channels_ok_def links_ok_def classes_ok_def list_all_iff)
  next
    case (Some u)
    with r have d': "d' = d\<lparr>db_users := update_where (\<lambda>x. u_chzzk_id x = c) (\<lambda>x. x\<lparr>u_nickname := n\<rparr>) (db_users d)\<rparr>"
      by (simp add: UpsertUser_def)
    with i show ?thesis by (simp add: db_inv_def users_ok_def user_ids_def update_where_all)
  qed
qed

lemma keeps_set_preferred_button [stmt_intros]: "keeps_stmt (set_preferred_button p uid)"
proof (rule keeps_stmtI)
  fix t d a d' assume i: "db_inv d" and r: "set_preferred_button p uid t d = Inr (a, d')"
  let ?f = "\<lambda>u. u\<lparr>u_preferred := p\<rparr>"
  from r have d': "d' = d\<lparr>db_users := update_where (\<lambda>u. u_id u = uid) ?f (db_users d)\<rparr>"
    and c: "user_exists d uid \<Longrightarrow> case p of None \<Rightarrow> True | Some b \<Rightarrow> valid_button b"
    by (auto simp: set_preferred_button_def split: if_splits option.splits)
  have "list_all (\<lambda>u. case u_preferred u of None \<Rightarrow> True | Some b \<Rightarrow> valid_button b)
      (update_where (\<lambda>u. u_id u = uid) ?f (db_users d))"
    using i c by (auto simp: update_where_def db_inv_def users_ok_def list_all_iff user_exists_def)
  with i d' show "db_inv d'" by (simp add: db_inv_def users_ok_def user_ids_def)
qed

lemma keeps_UpsertChannel [stmt_intros]: "keeps_stmt (UpsertChannel uid c ac re ex)"
proof (rule keeps_stmtI)
  fix t d a d' assume i: "db_inv d" and r: "UpsertChannel uid c ac re ex t d = Inr (a, d')"
  then have co: "channels_ok (user_ids d) (db_channels d)" by (simp add: db_inv_def)
  have "channels_ok (user_ids d) (db_channels d') \<and> d' = d\<lparr>db_channels := db_channels d'\<rparr>"
  proof (cases "find (\<lambda>x. ch_user x = uid) (db_channels d)")
    case None
    let ?n = "\<lparr>ch_id = next_id (map ch_id (db_channels d)), ch_user = uid, ch_chzzk_id = c, ch_access = ac,
                   ch_refresh = re, ch_expires = ex, ch_created = unixepoch t\<rparr>"
    from None r have d': "d' = d\<lparr>db_channels := db_channels d @ [?n]\<rparr>" "user_exists d uid"
      "c \<notin> ch_chzzk_id ` set (db_channels d)" by (auto simp: UpsertChannel_def split: if_splits)
    from None have "uid \<notin> ch_user ` set (db_channels d)" by (auto simp: find_None_iff)
    with co d' show ?thesis by (auto simp: channels_ok_def user_exists_def user_ids_def)
  next
    case (Some x)
    let ?f = "\<lambda>x. x\<lparr>ch_chzzk_id := c, ch_access := ac, ch_refresh := re, ch_expires := ex\<rparr>"
    from Some r have d': "d' = d\<lparr>db_channels := update_where (\<lambda>x. ch_user x = uid) ?f (db_channels d)\<rparr>"
      "\<forall>x\<in>set (db_channels d). ch_user x \<noteq> uid \<longrightarrow> ch_chzzk_id x \<noteq> c"
      by (auto simp: UpsertChannel_def split: if_splits)
    have "distinct (map ch_chzzk_id (update_where (\<lambda>x. ch_user x = uid) ?f (db_channels d)))"
      using co d'(2) by (intro update_where_distinct[where g = ch_user and a = uid and v = c])
        (auto simp: channels_ok_def)
    with co d'(1) show ?thesis by (simp add: channels_ok_def update_where_all)
  qed
  with i show "db_inv d'" unfolding db_inv_def user_ids_def
    by (metis db.select_convs(1,3,4,5) db.surjective db.update_convs(2))
qed

lemma keeps_UpdateChannelTokens [stmt_intros]: "keeps_stmt (UpdateChannelTokens ac re ex cid)"
  by (rule keeps_stmtI) (auto simp: UpdateChannelTokens_def db_inv_def channels_ok_def user_ids_def update_where_all)

lemma keeps_UpsertVarchiveLink [stmt_intros]: "keeps_stmt (UpsertVarchiveLink uid n no)"
proof (rule keeps_stmtI)
  fix t d a d' assume i: "db_inv d" and r: "UpsertVarchiveLink uid n no t d = Inr (a, d')"
  show "db_inv d'"
  proof (cases "find (\<lambda>l. l_user l = uid) (db_links d)")
    case None
    then have "uid \<notin> l_user ` set (db_links d)" by (auto simp: find_None_iff)
    with None r i show ?thesis
      by (auto simp: UpsertVarchiveLink_def db_inv_def links_ok_def user_ids_def user_exists_def split: if_splits)
  next
    case (Some l)
    with r i show ?thesis by (auto simp: UpsertVarchiveLink_def db_inv_def links_ok_def user_ids_def update_where_all)
  qed
qed

lemma keeps_DeactivateLink [stmt_intros]: "keeps_stmt (DeactivateLink uid)"
  by (rule keeps_stmtI) (auto simp: DeactivateLink_def db_inv_def links_ok_def user_ids_def update_where_all)

lemma keeps_UpsertDjClass [stmt_intros]: "keeps_stmt (UpsertDjClass uid b cls ps mp cv)"
proof (rule keeps_stmtI)
  fix t d a d' assume i: "db_inv d" and r: "UpsertDjClass uid b cls ps mp cv t d = Inr (a, d')"
  then have v: "valid_button b" by (auto simp: UpsertDjClass_def split: if_splits)
  show "db_inv d'"
  proof (cases "find (\<lambda>r. dc_user r = uid \<and> dc_button r = b) (db_classes d)")
    case None
    then have "(uid, b) \<notin> (\<lambda>r. (dc_user r, dc_button r)) ` set (db_classes d)" by (auto simp: find_None_iff)
    with None r i v show ?thesis
      by (auto simp: UpsertDjClass_def db_inv_def classes_ok_def user_ids_def user_exists_def split: if_splits)
  next
    case (Some x)
    with r i v show ?thesis
      by (auto simp: UpsertDjClass_def db_inv_def classes_ok_def user_ids_def update_where_all)
  qed
qed

lemma keeps_DeleteDjClasses [stmt_intros]: "keeps_stmt (DeleteDjClasses uid)"
  by (rule keeps_stmtI)
    (auto simp: DeleteDjClasses_def db_inv_def classes_ok_def user_ids_def distinct_map_filter list_all_iff)

lemma keeps_sessions [stmt_intros]:
  "keeps_stmt (CommitSession tok data ex)" "keeps_stmt (DeleteSession tok)" "keeps_stmt DeleteExpiredSessions"
  by (rule keeps_stmtI,
      auto simp: CommitSession_def DeleteSession_def DeleteExpiredSessions_def db_inv_def user_ids_def distinct_map_filter)+

section \<open>Actions keep the schema, transactions are atomic\<close>

definition keeps_act :: "'a act \<Rightarrow> bool" where
  "keeps_act m \<longleftrightarrow> (\<forall>w. db_inv (w_db w) \<longrightarrow> db_inv (w_db (snd (m w))))"

lemma keeps_actD: "keeps_act m \<Longrightarrow> db_inv (w_db w) \<Longrightarrow> m w = (r, w') \<Longrightarrow> db_inv (w_db w')"
  unfolding keeps_act_def by (metis snd_conv)

lemma take_fault_simps [simp]:
  "w_db (snd (take_fault w)) = w_db (w :: world)" "w_now (snd (take_fault w)) = w_now w"
  "w_faults w = [] \<Longrightarrow> take_fault w = (False, w)"
  for w :: world
  by (auto simp: take_fault_def split: list.splits)

lemma take_fault_world: "take_fault w = (b, w') \<Longrightarrow> w_db w' = w_db w \<and> w_now w' = w_now w"
  using take_fault_simps(1,2)[of w] by simp

lemma keeps_run_stmt [stmt_intros]: "keeps_stmt s \<Longrightarrow> keeps_act (run_stmt s)"
  by (auto simp: keeps_act_def keeps_stmt_def run_stmt_def Let_def case_prod_beta split: sum.splits)

lemma keeps_return [stmt_intros]: "keeps_act (return_ok a)"
  by (simp add: keeps_act_def return_ok_def)

lemma keeps_and_then [stmt_intros]: "keeps_act m \<Longrightarrow> (\<And>a. keeps_act (f a)) \<Longrightarrow> keeps_act (and_then m f)"
  by (fastforce simp: keeps_act_def and_then_def split: prod.splits sum.splits)

lemma keeps_WriteTx [stmt_intros]:
  assumes "\<And>h. keeps_act (fn h)" shows "keeps_act (WriteTx held fn)"
  unfolding keeps_act_def
proof (intro allI impI)
  fix w :: world
  assume i: "db_inv (w_db w)"
  obtain b w1 where f: "take_fault w = (b, w1)" by fastforce
  obtain r w2 where fn: "fn True w1 = (r, w2)" by fastforce
  from keeps_actD[OF assms _ fn] i take_fault_world[OF f] have "db_inv (w_db w2)" by simp
  with i f fn take_fault_world[OF f] show "db_inv (w_db (snd (WriteTx held fn w)))"
    by (cases r) (auto simp: WriteTx_def Let_def case_prod_beta)
qed

lemma WriteTx_error: "WriteTx held fn w = (Inl e, w') \<Longrightarrow> w_db w' = w_db w"
  using take_fault_world[of w]
  by (auto simp: WriteTx_def Let_def case_prod_beta split: if_splits prod.splits sum.splits)

lemma WriteTx_ok:
  "WriteTx held fn w = (Inr a, w') \<Longrightarrow>
     \<not> held \<and> (\<exists>w2. fn True (snd (take_fault w)) = (Inr a, w2) \<and> w_db w' = w_db w2)"
  by (cases "fn True (snd (take_fault w))") (auto simp: WriteTx_def Let_def case_prod_beta split: if_splits prod.splits sum.splits)

text \<open>
  The statements that write, as data: a transaction is \<open>WriteTx\<close> around a sequence of them, as
  every caller of the package writes it.
\<close>

datatype wstmt =
    WUser string string
  | WChannel int string "string option" "string option" "int option"
  | WTokens "string option" "string option" "int option" int
  | WLink int string "int option"
  | WUnlink int
  | WPreferred "int option" int
  | WClass int int string "rat option" "rat option" "rat option"
  | WDeleteClasses int
  | WSession string string int
  | WDeleteSession string
  | WDeleteExpired

definition drop_result :: "'a stmt \<Rightarrow> unit stmt" where
  "drop_result s t d = (case s t d of Inl e \<Rightarrow> Inl e | Inr (a, d') \<Rightarrow> Inr ((), d'))"

fun write_stmt :: "wstmt \<Rightarrow> unit stmt" where
  "write_stmt (WUser c n) = drop_result (UpsertUser c n)"
| "write_stmt (WChannel u c ac re ex) = UpsertChannel u c ac re ex"
| "write_stmt (WTokens ac re ex i) = UpdateChannelTokens ac re ex i"
| "write_stmt (WLink u n no) = UpsertVarchiveLink u n no"
| "write_stmt (WUnlink u) = DeactivateLink u"
| "write_stmt (WPreferred p u) = set_preferred_button p u"
| "write_stmt (WClass u b c s m v) = UpsertDjClass u b c s m v"
| "write_stmt (WDeleteClasses u) = DeleteDjClasses u"
| "write_stmt (WSession tok dat ex) = CommitSession tok dat ex"
| "write_stmt (WDeleteSession tok) = DeleteSession tok"
| "write_stmt WDeleteExpired = DeleteExpiredSessions"

fun writes :: "wstmt list \<Rightarrow> unit act" where
  "writes [] = return_ok ()"
| "writes (x # xs) = and_then (run_stmt (write_stmt x)) (\<lambda>u. writes xs)"

fun all_applied :: "wstmt list \<Rightarrow> int \<Rightarrow> db \<Rightarrow> db option" where
  "all_applied [] t d = Some d"
| "all_applied (x # xs) t d = (case write_stmt x t d of Inl e \<Rightarrow> None | Inr (u, d') \<Rightarrow> all_applied xs t d')"

lemma keeps_drop_result [stmt_intros]: "keeps_stmt s \<Longrightarrow> keeps_stmt (drop_result s)"
  by (fastforce simp: keeps_stmt_def drop_result_def split: sum.splits)

lemma keeps_writes [stmt_intros]: "keeps_act (writes xs)"
proof (induction xs)
  case (Cons x xs)
  have "keeps_stmt (write_stmt x)" by (cases x) (auto intro: stmt_intros)
  with Cons show ?case by (auto intro: stmt_intros)
qed (auto intro: stmt_intros)

lemma run_stmt_ok: "run_stmt s w = (Inr a, w') \<Longrightarrow>
   s (w_now w) (w_db w) = Inr (a, w_db w') \<and> w_now w' = w_now w"
  using take_fault_simps[of w]
  by (auto simp: run_stmt_def Let_def case_prod_beta split: if_splits sum.splits)

lemma writes_ok:
  "writes xs w = (Inr a, w') \<Longrightarrow> all_applied xs (w_now w) (w_db w) = Some (w_db w')"
proof (induction xs arbitrary: w)
  case (Cons x xs)
  obtain r w1 where r: "run_stmt (write_stmt x) w = (r, w1)" by fastforce
  with Cons.prems obtain u where u: "r = Inr u" "writes xs w1 = (Inr a, w')"
    by (cases r) (auto simp: and_then_def)
  with r run_stmt_ok[of "write_stmt x" w u w1] Cons.IH[of w1] show ?case by simp
qed (simp add: return_ok_def)

text \<open>
  C5: a write transaction is all or nothing, whatever statement, BEGIN or COMMIT fails and
  whatever constraint is violated: with an error the database is unchanged, without one
  every statement took effect, in order. Either way the schema's constraints hold after it.
  Inside another transaction it fails at once and does nothing.
\<close>

theorem WriteTx_atomic:
  assumes "db_inv (w_db w)"
  shows "(case WriteTx held (\<lambda>h. writes xs) w of
      (Inl e, w') \<Rightarrow> w_db w' = w_db w
    | (Inr u, w') \<Rightarrow> \<not> held \<and> all_applied xs (w_now w) (w_db w) = Some (w_db w'))
    \<and> db_inv (w_db (snd (WriteTx held (\<lambda>h. writes xs) w)))
    \<and> WriteTx True (\<lambda>h. writes xs) w = (Inl ErrNestedWrite, w)"
proof -
  obtain r w' where r: "WriteTx held (\<lambda>h. writes xs) w = (r, w')" by fastforce
  have "keeps_act (WriteTx held (\<lambda>h. writes xs))" by (auto intro: stmt_intros)
  with assms r have inv: "db_inv (w_db w')" by (auto dest: keeps_actD)
  show ?thesis
  proof (cases r)
    case (Inl e)
    with r WriteTx_error[of held "\<lambda>h. writes xs" w e w'] inv show ?thesis by (simp add: WriteTx_def)
  next
    case (Inr u)
    with r WriteTx_ok[of held "\<lambda>h. writes xs" w u w'] obtain w2 where
      "\<not> held" "writes xs (snd (take_fault w)) = (Inr u, w2)" "w_db w' = w_db w2" by auto
    with writes_ok[of xs "snd (take_fault w)" u w2] r Inr inv show ?thesis by (simp add: WriteTx_def)
  qed
qed

theorem WriteTx_atomic_witness:
  "w_db (snd (WriteTx False (\<lambda>h. writes [WUser ''c1'' ''Nick'', WLink 1 ''VA'' (Some 7), WClass 1 7 ''BEGINNER'' None None None])
        \<lparr>w_db = empty_db, w_now = 0, w_faults = []\<rparr>)) = empty_db"
proof -
  let ?xs = "[WUser ''c1'' ''Nick'', WLink 1 ''VA'' (Some 7), WClass 1 7 ''BEGINNER'' None None None]"
  let ?w = "\<lparr>w_db = empty_db, w_now = 0, w_faults = []\<rparr>"
  have "all_applied ?xs 0 empty_db = None" by code_simp
  with WriteTx_atomic[of ?w False ?xs] db_inv_empty show ?thesis
    by (auto split: prod.splits sum.splits)
qed

section \<open>The session store is a map with expiry\<close>

lemma WriteTx_stmt_ok:
  "w_faults w = [] \<Longrightarrow> s (w_now w) (w_db w) = Inr (a, d) \<Longrightarrow>
     WriteTx False (\<lambda>h. run_stmt s) w = (Inr a, w\<lparr>w_db := d\<rparr>)"
  by (simp add: WriteTx_def run_stmt_def Let_def case_prod_beta)

lemma FindCtx_value:
  "w_faults w = [] \<Longrightarrow> fst (FindCtx tok w) =
     Inr (map_option s_data (find (\<lambda>s. s_token s = tok \<and> unix_ms (w_now w) < s_expiry s) (db_sessions (w_db w))))"
  by (auto simp: FindCtx_def run_stmt_def Let_def case_prod_beta FindSession_def one_def split: option.splits)

lemma find_append: "find P (xs @ ys) = (case find P xs of None \<Rightarrow> find P ys | Some x \<Rightarrow> Some x)"
  by (induction xs) auto

lemma find_filter: "(\<And>x. P x \<Longrightarrow> Q x) \<Longrightarrow> find P (filter Q xs) = find P xs"
  by (induction xs) auto

lemma find_filter_none: "(\<And>x. P x \<Longrightarrow> \<not> Q x) \<Longrightarrow> find P (filter Q xs) = None"
  by (induction xs) auto

lemma find_other_session:
  "tok' \<noteq> tok \<Longrightarrow> find (\<lambda>s. s_token s = tok' \<and> Q s) (filter (\<lambda>s. s_token s \<noteq> tok) xs)
     = find (\<lambda>s. s_token s = tok' \<and> Q s) xs"
  by (rule find_filter) auto

text \<open>
  while no statement fails, a committed session is found with its data until its expiry and
  not after, a deleted one is not found, neither affects another token, and the cleanup job
  never changes what any later request finds.
\<close>

theorem session_store_spec:
  assumes "w_faults w = []" "w_now w \<le> t"
  shows "fst (FindCtx tok' ((snd (CommitCtx tok b expiry w))\<lparr>w_now := t\<rparr>)) =
      (if tok' = tok then Inr (if unix_ms t < unix_ms expiry then Some b else None)
       else fst (FindCtx tok' (w\<lparr>w_now := t\<rparr>)))
    \<and> fst (FindCtx tok' ((snd (DeleteCtx tok w))\<lparr>w_now := t\<rparr>)) =
      (if tok' = tok then Inr None else fst (FindCtx tok' (w\<lparr>w_now := t\<rparr>)))
    \<and> fst (FindCtx tok' ((Cleanup_tick w)\<lparr>w_now := t\<rparr>)) = fst (FindCtx tok' (w\<lparr>w_now := t\<rparr>))"
proof -
  have t: "unix_ms (w_now w) \<le> unix_ms t" using assms(2) by (simp add: unix_ms_def zdiv_mono1)
  let ?ss = "db_sessions (w_db w)"
  have gone: "find (\<lambda>s. s_token s = tok \<and> Q s) (filter (\<lambda>s. s_token s \<noteq> tok) ?ss) = None" for Q
    by (rule find_filter_none) auto
  have live: "find (\<lambda>s. s_token s = k \<and> unix_ms t < s_expiry s) (filter (\<lambda>s. \<not> s_expiry s < unix_ms (w_now w)) ?ss)
      = find (\<lambda>s. s_token s = k \<and> unix_ms t < s_expiry s) ?ss" for k
    using t by (intro find_filter) auto
  have c: "snd (CommitCtx tok b expiry w) = w\<lparr>w_db := w_db w\<lparr>db_sessions := filter (\<lambda>s. s_token s \<noteq> tok) ?ss @
        [\<lparr>s_token = tok, s_data = b, s_expiry = unix_ms expiry\<rparr>]\<rparr>\<rparr>"
    unfolding CommitCtx_def by (subst WriteTx_stmt_ok[OF assms(1) CommitSession_def]) simp
  have dl: "snd (DeleteCtx tok w) = w\<lparr>w_db := w_db w\<lparr>db_sessions := filter (\<lambda>s. s_token s \<noteq> tok) ?ss\<rparr>\<rparr>"
    unfolding DeleteCtx_def by (subst WriteTx_stmt_ok[OF assms(1) DeleteSession_def]) simp
  have cl: "Cleanup_tick w = w\<lparr>w_db := w_db w\<lparr>db_sessions := filter (\<lambda>s. \<not> s_expiry s < unix_ms (w_now w)) ?ss\<rparr>\<rparr>"
    unfolding Cleanup_tick_def by (subst WriteTx_stmt_ok[OF assms(1) DeleteExpiredSessions_def]) simp
  show ?thesis unfolding c dl cl
    by (cases "tok' = tok")
      (simp_all add: FindCtx_value assms(1) gone live find_append find_other_session split: option.split)
qed

theorem session_store_spec_witness:
  "fst (FindCtx ''t1'' ((snd (CommitCtx ''t1'' ''data'' 5000000000 \<lparr>w_db = empty_db, w_now = 0, w_faults = []\<rparr>))\<lparr>w_now := 4000000000\<rparr>))
     = Inr (Some ''data'')"
  using session_store_spec[of "\<lparr>w_db = empty_db, w_now = 0, w_faults = []\<rparr>" 4000000000 "''t1''" "''t1''" "''data''" 5000000000]
  by (simp add: unix_ms_def)

end
