(* ===== verification/Strconv.thy ===== *)
theory Strconv
  imports Prelude
begin

text \<open>
  The conversions of Go's standard library the program calls: \<open>strconv.ParseInt\<close>,
  \<open>strconv.Itoa\<close> and \<open>url.PathEscape\<close>, translated from the library.
\<close>

section \<open>Decimal numbers\<close>

definition between :: "nat \<Rightarrow> nat \<Rightarrow> char \<Rightarrow> bool" where
  "between a b c \<longleftrightarrow> a \<le> byte c \<and> byte c \<le> b"

definition digit :: "char \<Rightarrow> bool" where
  "digit c \<longleftrightarrow> between 48 57 c"

definition digits_value :: "string \<Rightarrow> nat" where
  "digits_value ds = foldl (\<lambda>n c. n * 10 + (byte c - 48)) 0 ds"

definition max_int64 :: int where "max_int64 = 9223372036854775807"
definition min_int64 :: int where "min_int64 = - 9223372036854775808"

text \<open>\<open>ParseInt(s, 10, 64)\<close>: None for any error.\<close>

definition parse_int64 :: "string \<Rightarrow> int option" where
  "parse_int64 s =
     (let (neg, ds) = (case s of [] \<Rightarrow> (False, [])
                       | c # r \<Rightarrow> if c = CHR ''+'' then (False, r) else if c = CHR ''-'' then (True, r) else (False, s)) in
      if ds = [] \<or> \<not> list_all digit ds then None
      else let n = (if neg then - int (digits_value ds) else int (digits_value ds)) in
        if min_int64 \<le> n \<and> n \<le> max_int64 then Some n else None)"

definition digit_char :: "nat \<Rightarrow> char" where
  "digit_char n = ''0123456789'' ! n"

fun nat_str :: "nat \<Rightarrow> string" where
  "nat_str n = (if n < 10 then [digit_char n] else nat_str (n div 10) @ [digit_char (n mod 10)])"

declare nat_str.simps [simp del]

definition itoa :: "int \<Rightarrow> string" where
  "itoa i = (if i < 0 then CHR ''-'' # nat_str (nat (- i)) else nat_str (nat i))"

lemma digit_char_table: "list_all (\<lambda>n. digit (digit_char n) \<and> byte (digit_char n) - 48 = n) [0..<10]"
  by code_simp

lemma digit_char: "n < 10 \<Longrightarrow> digit (digit_char n)" "n < 10 \<Longrightarrow> byte (digit_char n) - 48 = n"
  using digit_char_table by (auto simp: list_all_iff)

lemma digit_not_sign: "digit c \<Longrightarrow> c \<noteq> CHR ''+'' \<and> c \<noteq> CHR ''-''"
  by (auto simp: digit_def between_def byte_def)

lemma nat_str_digits: "list_all digit (nat_str n) \<and> nat_str n \<noteq> []"
proof (induction n rule: nat_str.induct)
  case (1 n)
  show ?case unfolding nat_str.simps[of n] using 1 by (auto simp: digit_char)
qed

lemma digits_value_nat_str: "digits_value (nat_str n) = n"
proof (induction n rule: nat_str.induct)
  case (1 n)
  then show ?case by (subst nat_str.simps) (auto simp: digits_value_def digit_char)
qed

lemma parse_itoa: "min_int64 \<le> i \<Longrightarrow> i \<le> max_int64 \<Longrightarrow> parse_int64 (itoa i) = Some i"
proof -
  assume r: "min_int64 \<le> i" "i \<le> max_int64"
  obtain c r' where n: "nat_str (nat i) = c # r'" using nat_str_digits by (metis list.exhaust)
  then have "c \<noteq> CHR ''+'' \<and> c \<noteq> CHR ''-''" using nat_str_digits[of "nat i"] digit_not_sign by simp
  with n r nat_str_digits[of "nat i"] nat_str_digits[of "nat (- i)"]
    digits_value_nat_str[of "nat i"] digits_value_nat_str[of "nat (- i)"] show ?thesis
    by (auto simp: itoa_def parse_int64_def Let_def)
qed

lemma itoa_not_empty: "itoa i \<noteq> []"
  using nat_str_digits by (simp add: itoa_def)

section \<open>Path segments\<close>

definition alnum :: "char \<Rightarrow> bool" where
  "alnum c \<longleftrightarrow> between 97 122 c \<or> between 65 90 c \<or> digit c"

text \<open>\<open>shouldEscape(c, encodePathSegment)\<close>.\<close>

definition should_escape_segment :: "char \<Rightarrow> bool" where
  "should_escape_segment c \<longleftrightarrow> \<not> (alnum c \<or> c \<in> set ''-_.~$&+=:@'')"

definition upper_hex :: "nat \<Rightarrow> char" where
  "upper_hex n = ''0123456789ABCDEF'' ! n"

definition escape_byte :: "char \<Rightarrow> string" where
  "escape_byte c = (if should_escape_segment c
     then [CHR ''%'', upper_hex (byte c div 16), upper_hex (byte c mod 16)] else [c])"

definition path_escape :: "string \<Rightarrow> string" where
  "path_escape s = concat (map escape_byte s)"

definition segment_char :: "char \<Rightarrow> bool" where
  "segment_char c \<longleftrightarrow> \<not> should_escape_segment c \<or> c = CHR ''%''"

lemma upper_hex_table: "list_all (\<lambda>n. segment_char (upper_hex n) \<and> \<not> should_escape_segment (upper_hex n)) [0..<16]"
  by code_simp

lemma byte_less: "byte c < 256"
  using range_nat_of_char by (auto simp: byte_def)

lemma path_escape_chars: "list_all segment_char (path_escape s)"
proof (induction s)
  case (Cons c s)
  have "byte c div 16 < 16" using byte_less[of c] by simp
  then have "list_all segment_char (escape_byte c)"
    using upper_hex_table by (auto simp: escape_byte_def segment_char_def list_all_iff)
  with Cons show ?case by (simp add: path_escape_def)
qed (simp add: path_escape_def)

end
