(* ===== verification/Json.thy ===== *)
theory Json
  imports Strconv "HOL-Library.Code_Target_Numeral"
begin

text \<open>
  Go's \<open>encoding/json\<close> as the program uses it: reading a text into a value, and decoding the
  fields of an object into the typed fields of a struct. The grammar, the unquoting of
  strings, the depth limit and the matching of field names follow the standard library.
  A number is kept as its literal and read as \<open>int64\<close> or \<open>float64\<close> by the field it is decoded
  into, as the library does.
\<close>

datatype json =
    JNull
  | JBool bool
  | JNum string
  | JStr string
  | JArr "json list"
  | JObj "(string \<times> json) list"

section \<open>UTF-8\<close>

abbreviation "utf8_tail \<equiv> between 0x80 0xBF"

text \<open>The length of the UTF-8 encoding at the head of a text; 0 if there is none.\<close>

fun utf8_len :: "string \<Rightarrow> nat" where
  "utf8_len [] = 0"
| "utf8_len (c # s) =
     (if byte c < 0x80 then 1
      else case s of [] \<Rightarrow> 0 | c1 # s1 \<Rightarrow>
        if between 0xC2 0xDF c \<and> utf8_tail c1 then 2
        else case s1 of [] \<Rightarrow> 0 | c2 # s2 \<Rightarrow>
          if utf8_tail c2 \<and>
             (byte c = 0xE0 \<and> between 0xA0 0xBF c1 \<or>
              (between 0xE1 0xEC c \<or> between 0xEE 0xEF c) \<and> utf8_tail c1 \<or>
              byte c = 0xED \<and> between 0x80 0x9F c1) then 3
          else case s2 of [] \<Rightarrow> 0 | c3 # s3 \<Rightarrow>
            if utf8_tail c2 \<and> utf8_tail c3 \<and>
               (byte c = 0xF0 \<and> between 0x90 0xBF c1 \<or>
                between 0xF1 0xF3 c \<and> utf8_tail c1 \<or>
                byte c = 0xF4 \<and> between 0x80 0x8F c1) then 4
            else 0)"

definition utf8_encode :: "nat \<Rightarrow> string" where
  "utf8_encode r =
     (if r < 0x80 then [char_of r]
      else if r < 0x800 then [char_of (0xC0 + r div 64), char_of (0x80 + r mod 64)]
      else if r < 0x10000 then [char_of (0xE0 + r div 4096), char_of (0x80 + r div 64 mod 64), char_of (0x80 + r mod 64)]
      else [char_of (0xF0 + r div 262144), char_of (0x80 + r div 4096 mod 64),
            char_of (0x80 + r div 64 mod 64), char_of (0x80 + r mod 64)])"

definition replacement_char :: string where
  "replacement_char = [CHR 0xEF, CHR 0xBF, CHR 0xBD]"

lemma utf8_len_le: "utf8_len s \<le> length s"
  by (cases s rule: utf8_len.cases) (auto split: list.splits)

section \<open>Scanning\<close>

definition json_ws :: "char \<Rightarrow> bool" where
  "json_ws c \<longleftrightarrow> c = CHR '' '' \<or> c = CHR 0x09 \<or> c = CHR 0x0D \<or> c = CHR 0x0A"

definition skip_ws :: "string \<Rightarrow> string" where
  "skip_ws s = dropWhile json_ws s"

definition hex_digit :: "char \<Rightarrow> nat option" where
  "hex_digit c =
     (if between 48 57 c then Some (byte c - 48)
      else if between 65 70 c then Some (byte c - 55)
      else if between 97 102 c then Some (byte c - 87)
      else None)"

text \<open>After the opening quote: the raw literal up to the closing quote, and what follows it.\<close>

fun scan_string :: "string \<Rightarrow> (string \<times> string) option" where
  "scan_string [] = None"
| "scan_string (c # s) =
     (if c = CHR 0x22 then Some ([], s)
      else if c = CHR 0x5C then
        (case s of [] \<Rightarrow> None
         | e # s1 \<Rightarrow>
           if e \<in> set ''bfnrt/'' \<or> e = CHR 0x5C \<or> e = CHR 0x22
           then map_option (\<lambda>(r, t). (c # e # r, t)) (scan_string s1)
           else if e = CHR ''u'' then
             (case s1 of h1 # h2 # h3 # h4 # s2 \<Rightarrow>
                if list_all (\<lambda>h. hex_digit h \<noteq> None) [h1, h2, h3, h4]
                then map_option (\<lambda>(r, t). (c # e # h1 # h2 # h3 # h4 # r, t)) (scan_string s2)
                else None
              | _ \<Rightarrow> None)
           else None)
      else if byte c < 0x20 then None
      else map_option (\<lambda>(r, t). (c # r, t)) (scan_string s))"

definition escape_char :: "char \<Rightarrow> char" where
  "escape_char e =
     (if e = CHR ''b'' then CHR 0x08 else if e = CHR ''f'' then CHR 0x0C else if e = CHR ''n'' then CHR 0x0A
      else if e = CHR ''r'' then CHR 0x0D else if e = CHR ''t'' then CHR 0x09 else e)"

text \<open>\<open>getu4\<close>: the value of \<open>\uXXXX\<close> at the head of a literal.\<close>

fun getu4 :: "string \<Rightarrow> nat option" where
  "getu4 (a # b # h1 # h2 # h3 # h4 # s) =
     (if a = CHR 0x5C \<and> b = CHR ''u'' then
        (case (hex_digit h1, hex_digit h2, hex_digit h3, hex_digit h4) of
           (Some x1, Some x2, Some x3, Some x4) \<Rightarrow> Some (((x1 * 16 + x2) * 16 + x3) * 16 + x4)
         | _ \<Rightarrow> None)
      else None)"
| "getu4 _ = None"

function unquote :: "string \<Rightarrow> string" where
  "unquote [] = []"
| "unquote (c # s) =
     (if c = CHR 0x5C then
        (case getu4 (c # s) of
           Some r \<Rightarrow>
             if 0xD800 \<le> r \<and> r < 0xE000 then
               (case getu4 (drop 5 s) of
                  Some r2 \<Rightarrow>
                    if r < 0xDC00 \<and> 0xDC00 \<le> r2 \<and> r2 < 0xE000
                    then utf8_encode ((r - 0xD800) * 1024 + (r2 - 0xDC00) + 0x10000) @ unquote (drop 11 s)
                    else replacement_char @ unquote (drop 5 s)
                | None \<Rightarrow> replacement_char @ unquote (drop 5 s))
             else utf8_encode r @ unquote (drop 5 s)
         | None \<Rightarrow> (case s of [] \<Rightarrow> [] | e # s1 \<Rightarrow> escape_char e # unquote s1))
      else case utf8_len (c # s) of
          0 \<Rightarrow> replacement_char @ unquote s
        | Suc n \<Rightarrow> c # take n s @ unquote (drop n s))"
  by pat_completeness auto
termination by (relation "measure length") auto

declare unquote.simps [simp del]

definition scan_int :: "string \<Rightarrow> (string \<times> string) option" where
  "scan_int s =
     (case s of [] \<Rightarrow> None
      | c # r \<Rightarrow> if c = CHR ''0'' then Some ([c], r)
                 else if digit c then Some (takeWhile digit s, dropWhile digit s) else None)"

definition scan_frac :: "string \<Rightarrow> (string \<times> string) option" where
  "scan_frac s =
     (case s of [] \<Rightarrow> Some ([], [])
      | c # r \<Rightarrow> if c = CHR ''.'' then
          (if takeWhile digit r = [] then None else Some (c # takeWhile digit r, dropWhile digit r))
        else Some ([], s))"

definition scan_exp :: "string \<Rightarrow> (string \<times> string) option" where
  "scan_exp s =
     (case s of [] \<Rightarrow> Some ([], [])
      | c # r \<Rightarrow> if c = CHR ''e'' \<or> c = CHR ''E'' then
          (let (sg, r1) = (case r of [] \<Rightarrow> ([], []) | d # r2 \<Rightarrow> if d = CHR ''+'' \<or> d = CHR ''-'' then ([d], r2) else ([], r)) in
           if takeWhile digit r1 = [] then None else Some (c # sg @ takeWhile digit r1, dropWhile digit r1))
        else Some ([], s))"

definition scan_number :: "string \<Rightarrow> (string \<times> string) option" where
  "scan_number s =
     (let (sg, s1) = (case s of [] \<Rightarrow> ([], []) | c # r \<Rightarrow> if c = CHR ''-'' then ([c], r) else ([], s)) in
      case scan_int s1 of None \<Rightarrow> None
      | Some (i, s2) \<Rightarrow>
        (case scan_frac s2 of None \<Rightarrow> None
         | Some (f, s3) \<Rightarrow>
           (case scan_exp s3 of None \<Rightarrow> None
            | Some (e, s4) \<Rightarrow> Some (sg @ i @ f @ e, s4))))"

section \<open>Parsing\<close>

text \<open>
  The first argument bounds the nesting of arrays and objects that is still allowed, the
  second is fuel; every call eats at least one byte before the next, so the length of
  the text is enough.
\<close>

fun parse_value :: "nat \<Rightarrow> nat \<Rightarrow> string \<Rightarrow> (json \<times> string) option"
and parse_elems :: "nat \<Rightarrow> nat \<Rightarrow> string \<Rightarrow> (json list \<times> string) option"
and parse_members :: "nat \<Rightarrow> nat \<Rightarrow> string \<Rightarrow> ((string \<times> json) list \<times> string) option" where
  "parse_value d 0 s = None"
| "parse_value d (Suc n) s =
     (case s of [] \<Rightarrow> None
      | c # r \<Rightarrow>
        if c = CHR 0x22 then map_option (\<lambda>(x, t). (JStr (unquote x), t)) (scan_string r)
        else if c = CHR ''{'' then
          (case d of 0 \<Rightarrow> None
           | Suc d' \<Rightarrow>
             (case skip_ws r of [] \<Rightarrow> None
              | c1 # r1 \<Rightarrow> if c1 = CHR ''}'' then Some (JObj [], r1)
                           else map_option (\<lambda>(ms, t). (JObj ms, t)) (parse_members d' n (c1 # r1))))
        else if c = CHR ''['' then
          (case d of 0 \<Rightarrow> None
           | Suc d' \<Rightarrow>
             (case skip_ws r of [] \<Rightarrow> None
              | c1 # r1 \<Rightarrow> if c1 = CHR '']'' then Some (JArr [], r1)
                           else map_option (\<lambda>(xs, t). (JArr xs, t)) (parse_elems d' n (c1 # r1))))
        else if prefix ''true'' s then Some (JBool True, drop 4 s)
        else if prefix ''false'' s then Some (JBool False, drop 5 s)
        else if prefix ''null'' s then Some (JNull, drop 4 s)
        else map_option (\<lambda>(x, t). (JNum x, t)) (scan_number s))"
| "parse_elems d 0 s = None"
| "parse_elems d (Suc n) s =
     (case parse_value d n s of None \<Rightarrow> None
      | Some (v, t) \<Rightarrow>
        (case skip_ws t of [] \<Rightarrow> None
         | c # r \<Rightarrow>
           if c = CHR '']'' then Some ([v], r)
           else if c = CHR '','' then map_option (\<lambda>(vs, t'). (v # vs, t')) (parse_elems d n (skip_ws r))
           else None))"
| "parse_members d 0 s = None"
| "parse_members d (Suc n) s =
     (case s of [] \<Rightarrow> None
      | q # r0 \<Rightarrow>
        if q \<noteq> CHR 0x22 then None
        else case scan_string r0 of None \<Rightarrow> None
        | Some (k, t0) \<Rightarrow>
          (case skip_ws t0 of [] \<Rightarrow> None
           | c0 # r1 \<Rightarrow>
             if c0 \<noteq> CHR '':'' then None
             else case parse_value d n (skip_ws r1) of None \<Rightarrow> None
             | Some (v, t) \<Rightarrow>
               (case skip_ws t of [] \<Rightarrow> None
                | c # r \<Rightarrow>
                  if c = CHR ''}'' then Some ([(unquote k, v)], r)
                  else if c = CHR '','' then map_option (\<lambda>(ms, t'). ((unquote k, v) # ms, t')) (parse_members d n (skip_ws r))
                  else None)))"

definition json_parse :: "string \<Rightarrow> json option" where
  "json_parse s =
     (case parse_value 10000 (2 * length s + 2) (skip_ws s) of None \<Rightarrow> None
      | Some (v, t) \<Rightarrow> if skip_ws t = [] then Some v else None)"

section \<open>The fuel is enough\<close>

lemma skip_ws_length: "length (skip_ws s) \<le> length s"
  by (simp add: skip_ws_def length_dropWhile_le)

lemma skip_ws_Cons: "skip_ws s = c # r \<Longrightarrow> length r < length s"
  using skip_ws_length[of s] by simp

lemma scan_string_length: "scan_string s = Some (x, t) \<Longrightarrow> length t < length s"
proof (induction s arbitrary: x t rule: length_induct)
  case (1 s)
  have ih: "scan_string s' = Some (x', t') \<Longrightarrow> length s' < length s \<Longrightarrow> length t' < length s'" for s' x' t'
    using "1.IH" by blast
  from "1.prems" show ?case
    by (cases s) (auto split: if_splits list.splits dest!: ih)
qed

lemma dropWhile_shorter: "length (dropWhile P s) < Suc (length s)"
  by (simp add: length_dropWhile_le less_Suc_eq_le)

lemma scan_int_length: "scan_int s = Some (x, t) \<Longrightarrow> length t < length s"
  by (auto simp: scan_int_def length_dropWhile_le less_Suc_eq_le split: list.splits if_splits)

lemma scan_frac_length: "scan_frac s = Some (x, t) \<Longrightarrow> length t \<le> length s"
  by (auto simp: scan_frac_def length_dropWhile_le le_SucI split: list.splits if_splits)

lemma scan_exp_length: "scan_exp s = Some (x, t) \<Longrightarrow> length t \<le> length s"
  by (auto simp: scan_exp_def Let_def split: list.splits if_splits
      intro: le_SucI order_trans[OF length_dropWhile_le])

lemma scan_number_length: "scan_number s = Some (x, t) \<Longrightarrow> length t < length s"
  by (auto simp: scan_number_def split: list.splits option.splits if_splits
      dest!: scan_int_length scan_frac_length scan_exp_length)

lemma parse_rest:
  "(\<forall>d s v t. parse_value d n s = Some (v, t) \<longrightarrow> length t < length s)
   \<and> (\<forall>d s vs t. parse_elems d n s = Some (vs, t) \<longrightarrow> length t < length s)
   \<and> (\<forall>d s ms t. parse_members d n s = Some (ms, t) \<longrightarrow> length t < length s)"
proof (induction n)
  case (Suc n)
  then have v: "\<And>d s v t. parse_value d n s = Some (v, t) \<Longrightarrow> length t < length s"
    and e: "\<And>d s v t. parse_elems d n s = Some (v, t) \<Longrightarrow> length t < length s"
    and m: "\<And>d s v t. parse_members d n s = Some (v, t) \<Longrightarrow> length t < length s" by blast+
  have "length t < length s" if "parse_value d (Suc n) s = Some (v, t)" for d s v t
    using that
    by (auto split: list.splits if_splits nat.splits dest!: e m scan_string_length scan_number_length skip_ws_Cons
        simp: prefix_def)
  moreover have "length t < length s" if "parse_elems d (Suc n) s = Some (vs, t)" for d s vs t
    using that
    by (auto split: option.splits list.splits if_splits dest!: v e skip_ws_Cons dest: order.strict_trans2[OF _ skip_ws_length])
      (meson less_trans order.strict_trans2 skip_ws_length)
  moreover have v2: "length t < length s" if "parse_value d n (skip_ws s) = Some (v, t)" for d s v t
    using v[OF that] skip_ws_length[of s] by linarith
  moreover have m2: "length t < length s" if "parse_members d n (skip_ws s) = Some (v, t)" for d s v t
    using m[OF that] skip_ws_length[of s] by linarith
  moreover have "length t < length s" if "parse_members d (Suc n) s = Some (ms, t)" for d s ms t
    using that
    by (auto split: option.splits list.splits if_splits dest!: v2 m2 scan_string_length skip_ws_Cons)
  ultimately show ?case by blast
qed simp

lemmas parse_shorter = parse_rest[THEN conjunct1, rule_format] parse_rest[THEN conjunct2, THEN conjunct1, rule_format]
  parse_rest[THEN conjunct2, THEN conjunct2, rule_format]

text \<open>Fuel twice the length of the text is enough: more of it gives the same result.\<close>

lemma parse_fuel:
  "(\<forall>d s. 2 * length s < n \<longrightarrow> parse_value d (Suc n) s = parse_value d n s)
   \<and> (\<forall>d s. 2 * length s + 1 < n \<longrightarrow> parse_elems d (Suc n) s = parse_elems d n s)
   \<and> (\<forall>d s. 2 * length s + 1 < n \<longrightarrow> parse_members d (Suc n) s = parse_members d n s)"
proof (induction n)
  case (Suc n)
  then have v: "\<And>d s. 2 * length s < n \<Longrightarrow> parse_value d (Suc n) s = parse_value d n s"
    and e: "\<And>d s. 2 * length s + 1 < n \<Longrightarrow> parse_elems d (Suc n) s = parse_elems d n s"
    and m: "\<And>d s. 2 * length s + 1 < n \<Longrightarrow> parse_members d (Suc n) s = parse_members d n s" by blast+
  have "parse_value d (Suc (Suc n)) s = parse_value d (Suc n) s" if "2 * length s < Suc n" for d s
  proof (cases s)
    case (Cons c r)
    have *: "2 * length (c1 # r1) + 1 < n" if "skip_ws r = c1 # r1" for c1 r1
      using skip_ws_length[of r] that \<open>2 * length s < Suc n\<close> Cons by simp
    note em = e[OF *] m[OF *]
    show ?thesis unfolding Cons parse_value.simps(2)[of d "Suc n"] parse_value.simps(2)[of d n]
      by (auto split: list.split nat.split simp: em simp del: parse_elems.simps parse_members.simps)
  qed simp
  moreover have "parse_elems d (Suc (Suc n)) s = parse_elems d (Suc n) s" if l: "2 * length s + 1 < Suc n" for d s
  proof (cases "parse_value d n s")
    case (Some p)
    obtain x t where p: "p = (x, t)" by (cases p)
    have "2 * length (skip_ws r) + 1 < n" if "skip_ws t = c # r" for c r
      using parse_shorter(1)[OF Some[unfolded p]] skip_ws_length[of r] skip_ws_Cons[OF that] l by linarith
    with Some p v[of s d] l show ?thesis
      unfolding parse_elems.simps(2)[of d "Suc n" s] parse_elems.simps(2)[of d n s]
      by (auto split: list.split simp: e simp del: parse_elems.simps parse_value.simps)
  qed (use v[of s d] l in \<open>simp del: parse_value.simps\<close>)
  moreover have "parse_members d (Suc (Suc n)) s = parse_members d (Suc n) s" if l: "2 * length s + 1 < Suc n" for d s
  proof -
    have k: "parse_value d (Suc n) (skip_ws r1) = parse_value d n (skip_ws r1)"
      "parse_value d n (skip_ws r1) = Some (x, t) \<Longrightarrow> skip_ws t = c' # r \<Longrightarrow>
         parse_members d (Suc n) (skip_ws r) = parse_members d n (skip_ws r)"
      if "s = c # r0" "scan_string r0 = Some (key, t0)" "skip_ws t0 = c0 # r1" for c r0 key t0 c0 r1 x t c' r
    proof -
      have "length r1 < length s" using that scan_string_length[of r0] skip_ws_Cons[of t0] by fastforce
      then have lr: "2 * length (skip_ws r1) < n" using l skip_ws_length[of r1] by linarith
      then show "parse_value d (Suc n) (skip_ws r1) = parse_value d n (skip_ws r1)" by (rule v)
      assume "parse_value d n (skip_ws r1) = Some (x, t)" "skip_ws t = c' # r"
      with parse_shorter(1) skip_ws_Cons skip_ws_length[of r] lr have "2 * length (skip_ws r) + 1 < n" by fastforce
      then show "parse_members d (Suc n) (skip_ws r) = parse_members d n (skip_ws r)" by (rule m)
    qed
    show ?thesis
      unfolding parse_members.simps(2)[of d "Suc n" s] parse_members.simps(2)[of d n s]
      by (auto split: list.split option.split simp: k simp del: parse_members.simps parse_value.simps)
  qed
  ultimately show ?case by blast
qed simp

section \<open>float64\<close>

text \<open>\<open>strconv.ParseFloat\<close> on a JSON number: the nearest double, ties to even; None out of range.\<close>

fun nlog2 :: "nat \<Rightarrow> nat" where
  "nlog2 n = (if n < 2 then 0 else Suc (nlog2 (n div 2)))"

declare nlog2.simps [simp del]

definition pow2 :: "int \<Rightarrow> rat" where
  "pow2 e = (if 0 \<le> e then 2 ^ nat e else 1 / 2 ^ nat (- e))"

definition round_even :: "rat \<Rightarrow> int" where
  "round_even x =
     (let f = \<lfloor>x\<rfloor>; d = x - of_int f in
      if d < 1 / 2 then f else if 1 / 2 < d then f + 1 else if even f then f else f + 1)"

definition f64_round :: "rat \<Rightarrow> rat option" where
  "f64_round x =
     (if x = 0 then Some 0
      else let a = \<bar>x\<bar>; (p, q) = quotient_of a;
               e0 = int (nlog2 (nat p)) - int (nlog2 (nat q));
               e = (if pow2 e0 \<le> a then e0 else e0 - 1);
               u = max (e - 52) (- 1074);
               r = of_int (round_even (a / pow2 u)) * pow2 u
           in if pow2 1024 \<le> r then None else Some (if x < 0 then - r else r))"

definition exp_value :: "string \<Rightarrow> int" where
  "exp_value s =
     (case s of [] \<Rightarrow> 0
      | e # r \<Rightarrow> (case r of [] \<Rightarrow> 0
        | c # ds \<Rightarrow> if c = CHR ''-'' then - int (digits_value ds)
                     else if c = CHR ''+'' then int (digits_value ds) else int (digits_value r)))"

definition num_value :: "string \<Rightarrow> rat" where
  "num_value s =
     (let neg = (s \<noteq> [] \<and> hd s = CHR ''-''); s1 = (if neg then tl s else s);
          i = takeWhile digit s1; s2 = dropWhile digit s1;
          f = (if s2 \<noteq> [] \<and> hd s2 = CHR ''.'' then takeWhile digit (tl s2) else []);
          s3 = (if s2 \<noteq> [] \<and> hd s2 = CHR ''.'' then dropWhile digit (tl s2) else s2);
          e = exp_value s3 - int (length f);
          m = of_nat (digits_value (i @ f)) :: rat;
          v = (if 0 \<le> e then m * 10 ^ nat e else m / 10 ^ nat (- e))
      in if neg then - v else v)"

definition parse_f64 :: "string \<Rightarrow> rat option" where
  "parse_f64 lit = f64_round (num_value lit)"

section \<open>Decoding into a struct\<close>

text \<open>
  A value either leaves a field as it is (\<open>null\<close> for a field that is no pointer), sets it, or does
  not fit its type; in the last case decoding goes on, and \<open>Unmarshal\<close> returns an error at its end.
\<close>

datatype 'a field_update = Keep | Put 'a | Misfit

definition as_bool :: "json \<Rightarrow> bool field_update" where
  "as_bool v = (case v of JNull \<Rightarrow> Keep | JBool b \<Rightarrow> Put b | _ \<Rightarrow> Misfit)"

definition as_string :: "json \<Rightarrow> string field_update" where
  "as_string v = (case v of JNull \<Rightarrow> Keep | JStr s \<Rightarrow> Put s | _ \<Rightarrow> Misfit)"

definition as_int64 :: "json \<Rightarrow> int field_update" where
  "as_int64 v = (case v of JNull \<Rightarrow> Keep
     | JNum l \<Rightarrow> (case parse_int64 l of None \<Rightarrow> Misfit | Some n \<Rightarrow> Put n) | _ \<Rightarrow> Misfit)"

definition as_float64 :: "json \<Rightarrow> rat field_update" where
  "as_float64 v = (case v of JNull \<Rightarrow> Keep
     | JNum l \<Rightarrow> (case parse_f64 l of None \<Rightarrow> Misfit | Some x \<Rightarrow> Put x) | _ \<Rightarrow> Misfit)"

text \<open>A pointer field: \<open>null\<close> makes it nil.\<close>

definition as_pointer :: "(json \<Rightarrow> 'a field_update) \<Rightarrow> json \<Rightarrow> 'a option field_update" where
  "as_pointer dec v = (case v of JNull \<Rightarrow> Put None
     | _ \<Rightarrow> (case dec v of Put x \<Rightarrow> Put (Some x) | Keep \<Rightarrow> Keep | Misfit \<Rightarrow> Misfit))"

type_synonym 's field = "string \<times> (json \<Rightarrow> 's \<Rightarrow> bool \<times> 's)"

definition field :: "string \<Rightarrow> (json \<Rightarrow> 'a field_update) \<Rightarrow> ('a \<Rightarrow> 's \<Rightarrow> 's) \<Rightarrow> 's field" where
  "field name dec put =
     (name, \<lambda>v s. case dec v of Keep \<Rightarrow> (False, s) | Put x \<Rightarrow> (False, put x s) | Misfit \<Rightarrow> (True, s))"

text \<open>Names match exactly, or else under Unicode case folding (the long s and the Kelvin sign fold to ASCII).\<close>

fun fold_name :: "string \<Rightarrow> string" where
  "fold_name [] = []"
| "fold_name (c # s) =
     (case s of
        c1 # s1 \<Rightarrow>
          if c = CHR 0xC5 \<and> c1 = CHR 0xBF then CHR ''S'' # fold_name s1
          else (case s1 of
                  c2 # s2 \<Rightarrow> if c = CHR 0xE2 \<and> c1 = CHR 0x84 \<and> c2 = CHR 0xAA then CHR ''K'' # fold_name s2
                              else upper_char c # fold_name s
                | [] \<Rightarrow> upper_char c # fold_name s)
      | [] \<Rightarrow> [upper_char c])"

definition find_field :: "'s field list \<Rightarrow> string \<Rightarrow> 's field option" where
  "find_field fs k =
     (case find (\<lambda>f. fst f = k) fs of Some f \<Rightarrow> Some f
      | None \<Rightarrow> find (\<lambda>f. fold_name (fst f) = fold_name k) fs)"

fun decode_members :: "'s field list \<Rightarrow> (string \<times> json) list \<Rightarrow> bool \<times> 's \<Rightarrow> bool \<times> 's" where
  "decode_members fs [] st = st"
| "decode_members fs ((k, v) # ms) st =
     (case find_field fs k of None \<Rightarrow> decode_members fs ms st
      | Some f \<Rightarrow> (let (misfit, s) = snd f v (snd st) in decode_members fs ms (fst st \<or> misfit, s)))"

definition decode_struct :: "'s field list \<Rightarrow> 's \<Rightarrow> json \<Rightarrow> 's option" where
  "decode_struct fs s j =
     (case j of JNull \<Rightarrow> Some s
      | JObj ms \<Rightarrow> (let (misfit, s') = decode_members fs ms (False, s) in if misfit then None else Some s')
      | _ \<Rightarrow> None)"

definition unmarshal :: "'s field list \<Rightarrow> 's \<Rightarrow> string \<Rightarrow> 's option" where
  "unmarshal fs s body = (case json_parse body of None \<Rightarrow> None | Some j \<Rightarrow> decode_struct fs s j)"

lemma find_field_exact: "find (\<lambda>f. fst f = k) fs = Some f \<Longrightarrow> find_field fs k = Some f"
  by (simp add: find_field_def)

end
