(* ===== verification/VArchive.thy ===== *)
theory VArchive
  imports Json
begin

text \<open>
  \<open>internal/varchive/varchive.go\<close>: the client of the V-ARCHIVE service. The network is a
  parameter, \<open>http path bearer\<close>: the status and body of the response, or None when the
  request failed (transport, timeout, a body that cannot be read). The locale
  \<open>class_source\<close> is what the sync code relies on: which classes a fetch may return.
\<close>

section \<open>Requests\<close>

definition Buttons :: "int list" where
  "Buttons = [4, 5, 6, 8]"

record va_user =
  va_user_no :: int
  va_nickname :: string

record va_class =
  vc_button :: int
  vc_class :: string
  vc_power_sum :: "rat option"
  vc_max_power :: "rat option"
  vc_conversion :: "rat option"

datatype va_error = ErrInvalidToken | ErrUnavailable

type_synonym http = "string \<Rightarrow> string \<Rightarrow> (int \<times> string) option"

definition body_limit :: nat where
  "body_limit = 1048576"

definition va_get :: "http \<Rightarrow> string \<Rightarrow> string \<Rightarrow> va_error + (int \<times> string)" where
  "va_get http path bearer =
     (case http path bearer of None \<Rightarrow> Inl ErrUnavailable
      | Some (status, body) \<Rightarrow> Inr (status, take body_limit body))"

record lookup_out =
  lo_success :: bool
  lo_user_no :: "int option"
  lo_nickname :: "string option"

definition lookup_fields :: "lookup_out field list" where
  "lookup_fields =
     [field ''success'' as_bool (\<lambda>x s. s\<lparr>lo_success := x\<rparr>),
      field ''userNo'' (as_pointer as_int64) (\<lambda>x s. s\<lparr>lo_user_no := x\<rparr>),
      field ''nickname'' (as_pointer as_string) (\<lambda>x s. s\<lparr>lo_nickname := x\<rparr>)]"

definition LookupUser :: "http \<Rightarrow> string \<Rightarrow> va_error + va_user" where
  "LookupUser http token =
     (case va_get http ''/api/v2/open-token/user'' token of
        Inl e \<Rightarrow> Inl e
      | Inr (status, body) \<Rightarrow>
          if status = 401 then Inl ErrInvalidToken
          else if status \<noteq> 200 then Inl ErrUnavailable
          else (case unmarshal lookup_fields \<lparr>lo_success = False, lo_user_no = None, lo_nickname = None\<rparr> body of
                  None \<Rightarrow> Inl ErrUnavailable
                | Some out \<Rightarrow>
                    (case (lo_success out, lo_user_no out, lo_nickname out) of
                       (True, Some no, Some nick) \<Rightarrow> Inr \<lparr>va_user_no = no, va_nickname = nick\<rparr>
                     | _ \<Rightarrow> Inl ErrInvalidToken)))"

record class_out =
  co_success :: bool
  co_class :: string
  co_power_sum :: "rat option"
  co_max_power :: "rat option"
  co_conversion :: "rat option"

definition class_fields :: "class_out field list" where
  "class_fields =
     [field ''success'' as_bool (\<lambda>x s. s\<lparr>co_success := x\<rparr>),
      field ''djClass'' as_string (\<lambda>x s. s\<lparr>co_class := x\<rparr>),
      field ''djPowerSum'' (as_pointer as_float64) (\<lambda>x s. s\<lparr>co_power_sum := x\<rparr>),
      field ''maxDjPower'' (as_pointer as_float64) (\<lambda>x s. s\<lparr>co_max_power := x\<rparr>),
      field ''djPowerConversion'' (as_pointer as_float64) (\<lambda>x s. s\<lparr>co_conversion := x\<rparr>)]"

definition class_path :: "string \<Rightarrow> int \<Rightarrow> string" where
  "class_path nickname button = ''/api/v2/archive/'' @ path_escape nickname @ ''/djClass/'' @ itoa button"

definition DjClassFor :: "http \<Rightarrow> string \<Rightarrow> int \<Rightarrow> va_error + va_class option" where
  "DjClassFor http nickname button =
     (case va_get http (class_path nickname button) '''' of
        Inl e \<Rightarrow> Inl e
      | Inr (status, body) \<Rightarrow>
          if status \<noteq> 200 then Inr None
          else (case unmarshal class_fields
                       \<lparr>co_success = False, co_class = '''', co_power_sum = None, co_max_power = None, co_conversion = None\<rparr> body of
                  None \<Rightarrow> Inr None
                | Some out \<Rightarrow>
                    if \<not> co_success out \<or> co_class out = '''' then Inr None
                    else Inr (Some \<lparr>vc_button = button, vc_class = co_class out, vc_power_sum = co_power_sum out,
                                    vc_max_power = co_max_power out, vc_conversion = co_conversion out\<rparr>)))"

text \<open>
  The goroutines of \<open>AllDjClasses\<close> fill one slot each; \<open>order\<close> is the order in which they end.
\<close>

definition fill_slot :: "http \<Rightarrow> string \<Rightarrow> nat \<Rightarrow> va_class option list \<Rightarrow> va_class option list" where
  "fill_slot http nickname i results =
     (case DjClassFor http nickname (Buttons ! i) of
        Inr (Some dc) \<Rightarrow> results[i := Some dc]
      | _ \<Rightarrow> results)"

definition present :: "'a option list \<Rightarrow> 'a list" where
  "present results = concat (map (\<lambda>r. case r of None \<Rightarrow> [] | Some x \<Rightarrow> [x]) results)"

definition AllDjClasses :: "http \<Rightarrow> nat list \<Rightarrow> string \<Rightarrow> va_class list" where
  "AllDjClasses http order nickname =
     present (fold (fill_slot http nickname) order (replicate (length Buttons) None))"

section \<open>What a fetch returns\<close>

definition class_answer :: "http \<Rightarrow> string \<Rightarrow> int \<Rightarrow> va_class option" where
  "class_answer http nickname b = (case DjClassFor http nickname b of Inr r \<Rightarrow> r | Inl e \<Rightarrow> None)"

lemma DjClassFor_class:
  "DjClassFor http nickname b = Inr (Some dc) \<Longrightarrow> vc_button dc = b \<and> vc_class dc \<noteq> ''''"
  by (auto simp: DjClassFor_def split: sum.splits if_splits option.splits)

lemma fill_slot_answer:
  "fill_slot http n i rs = (case class_answer http n (Buttons ! i) of None \<Rightarrow> rs | Some dc \<Rightarrow> rs[i := Some dc])"
  by (auto simp: fill_slot_def class_answer_def split: sum.splits option.splits)

lemma fill_slots_length: "length (fold (fill_slot http n) order rs) = length rs"
  by (induction order arbitrary: rs) (auto simp: fill_slot_answer split: option.splits)

lemma fill_slots_nth:
  assumes "i < length rs"
  shows "fold (fill_slot http n) order rs ! i =
    (if i \<in> set order \<and> class_answer http n (Buttons ! i) \<noteq> None then class_answer http n (Buttons ! i) else rs ! i)"
  using assms
proof (induction order arbitrary: rs)
  case (Cons j order)
  have "length (fill_slot http n j rs) = length rs" by (simp add: fill_slot_answer split: option.splits)
  with Cons show ?case
    by (cases "i = j") (auto simp: fill_slot_answer split: option.splits)
qed simp

lemma present_map: "present (map f xs) = map (the \<circ> f) (filter (\<lambda>x. f x \<noteq> None) xs)"
  by (induction xs) (auto simp: present_def split: option.splits)

lemma AllDjClasses_slots:
  "AllDjClasses http order n =
     present (map (\<lambda>i. if i \<in> set order then class_answer http n (Buttons ! i) else None) [0..<length Buttons])"
proof -
  have "fold (fill_slot http n) order (replicate (length Buttons) None)
      = map (\<lambda>i. if i \<in> set order then class_answer http n (Buttons ! i) else None) [0..<length Buttons]"
    by (rule nth_equalityI) (auto simp: fill_slots_length fill_slots_nth)
  then show ?thesis by (simp add: AllDjClasses_def)
qed

lemma AllDjClasses_in_order:
  assumes "{0..<length Buttons} \<subseteq> set order"
  shows "AllDjClasses http order n = present (map (class_answer http n) Buttons)"
proof -
  have "map (\<lambda>i. if i \<in> set order then class_answer http n (Buttons ! i) else None) [0..<length Buttons]
      = map (class_answer http n) Buttons"
    using assms by (intro nth_equalityI) auto
  then show ?thesis by (simp add: AllDjClasses_slots)
qed

text \<open>
  in whatever order the four concurrent fetches end, \<open>AllDjClasses\<close> returns the classes that
  exist, in button order: a failed or empty fetch only leaves its own button out.
\<close>

theorem AllDjClasses_any_order:
  assumes "set order = {0..<length Buttons}"
  shows "AllDjClasses http order nickname =
    concat (map (\<lambda>b. case DjClassFor http nickname b of Inr (Some dc) \<Rightarrow> [dc] | _ \<Rightarrow> []) Buttons)"
proof -
  have "(case class_answer http nickname b of None \<Rightarrow> [] | Some x \<Rightarrow> [x])
      = (case DjClassFor http nickname b of Inr (Some dc) \<Rightarrow> [dc] | _ \<Rightarrow> [])" for b
    by (auto simp: class_answer_def split: sum.split option.split)
  with assms show ?thesis by (simp add: AllDjClasses_in_order present_def comp_def)
qed

definition sample_http :: http where
  \<open>sample_http path bearer =
     (if path = ''/api/v2/archive/a%2Fb/djClass/5'' then Some (200, ''{"success":true,"djClass":"PRO DJ I"}'')
      else if path = ''/api/v2/archive/a%2Fb/djClass/6'' then Some (200, ''{"success":true,"djClass":""}'')
      else if path = ''/api/v2/archive/a%2Fb/djClass/8'' then Some (404, '''') else None)\<close>

theorem AllDjClasses_any_order_witness:
  "AllDjClasses sample_http [2, 0, 3, 1] ''a/b'' =
     [\<lparr>vc_button = 5, vc_class = ''PRO DJ I'', vc_power_sum = None, vc_max_power = None, vc_conversion = None\<rparr>]"
proof -
  have "set [2, 0, 3, 1] = {0..<length Buttons}" by (auto simp: Buttons_def)
  moreover have "concat (map (\<lambda>b. case DjClassFor sample_http ''a/b'' b of Inr (Some dc) \<Rightarrow> [dc] | _ \<Rightarrow> []) Buttons) =
     [\<lparr>vc_button = 5, vc_class = ''PRO DJ I'', vc_power_sum = None, vc_max_power = None, vc_conversion = None\<rparr>]"
    by code_simp
  ultimately show ?thesis using AllDjClasses_any_order[of "[2, 0, 3, 1]" sample_http "''a/b''"] by simp
qed

section \<open>The interface\<close>

text \<open>
  What the sync code needs of a fetch: the classes belong to different DJMAX buttons, in
  ascending order, and none is empty.
\<close>

locale class_source =
  fixes fetch :: "string \<Rightarrow> va_class list"
  assumes ascending: "sorted_wrt (\<lambda>a b. vc_button a < vc_button b) (fetch n)"
    and known_buttons: "c \<in> set (fetch n) \<Longrightarrow> vc_button c \<in> set Buttons"
    and named: "c \<in> set (fetch n) \<Longrightarrow> vc_class c \<noteq> ''''"
begin

lemma buttons_distinct: "distinct (map vc_button (fetch n))"
proof -
  have "sorted_wrt (<) (map vc_button (fetch n))" using ascending by (simp add: sorted_wrt_map)
  then show ?thesis by (simp add: strict_sorted_iff)
qed

lemma at_most_four: "length (fetch n) \<le> 4"
proof -
  have "length (fetch n) = card (set (map vc_button (fetch n)))"
    using buttons_distinct by (metis distinct_card length_map)
  also have "\<dots> \<le> card (set Buttons)" using known_buttons by (intro card_mono) auto
  finally show ?thesis by (simp add: Buttons_def)
qed

end

lemma present_set: "x \<in> set (present rs) \<longleftrightarrow> Some x \<in> set rs"
  by (auto simp: present_def split: option.splits)

lemma present_ascending:
  assumes "sorted_wrt (<) bs" "\<And>i x. f i = Some x \<Longrightarrow> k x = g i" "map g idx = bs"
  shows "sorted_wrt (\<lambda>a b. k a < k b) (present (map f idx))"
  using assms(1,3)
proof (induction idx arbitrary: bs)
  case (Cons i idx)
  then have IH: "sorted_wrt (\<lambda>a b. k a < k b) (present (map f idx))"
    and l: "\<And>j. j \<in> set idx \<Longrightarrow> g i < g j" by auto
  show ?case
  proof (cases "f i")
    case None
    with IH show ?thesis by (simp add: present_def)
  next
    case (Some x)
    have "k x < k y" if "y \<in> set (present (map f idx))" for y
      using that l assms(2)[OF Some] assms(2)[of _ y] by (auto simp: present_set)
    with IH Some show ?thesis by (simp add: present_def)
  qed
qed (simp add: present_def)

interpretation va: class_source "AllDjClasses http order" for http order
proof
  fix n c
  let ?f = "\<lambda>i. if i \<in> set order then class_answer http n (Buttons ! i) else None"
  have f: "?f i = Some x \<Longrightarrow> vc_button x = Buttons ! i \<and> vc_class x \<noteq> ''''" for i x
    by (auto simp: class_answer_def dest: DjClassFor_class split: if_splits sum.splits)
  show "sorted_wrt (\<lambda>a b. vc_button a < vc_button b) (AllDjClasses http order n)"
    unfolding AllDjClasses_slots
  proof (rule present_ascending[where bs = Buttons and g = "\<lambda>i. Buttons ! i"])
    show "map ((!) Buttons) [0..<length Buttons] = Buttons" by (rule map_nth)
  qed (use f in \<open>auto simp: Buttons_def\<close>)
  assume "c \<in> set (AllDjClasses http order n)"
  then obtain i where "i < length Buttons" "?f i = Some c"
    by (auto simp: AllDjClasses_slots present_set)
  with f show "vc_button c \<in> set Buttons" "vc_class c \<noteq> ''''" by auto
qed

text \<open>
  whatever the service answers, a fetch returns at most four classes, of different DJMAX
  buttons in ascending order, each with a name.
\<close>

theorem AllDjClasses_wellformed:
  "length (AllDjClasses http order nickname) \<le> 4
   \<and> sorted_wrt (\<lambda>a b. vc_button a < vc_button b) (AllDjClasses http order nickname)
   \<and> list_all (\<lambda>c. vc_button c \<in> {4, 5, 6, 8} \<and> vc_class c \<noteq> '''') (AllDjClasses http order nickname)"
  using va.at_most_four va.ascending va.known_buttons va.named
  by (auto simp: list_all_iff Buttons_def)

text \<open>
  whatever the viewer's nickname is, the request stays below the two fixed path segments: the
  path has exactly the six slashes of the endpoint, and no query or fragment delimiter.
\<close>

theorem class_path_segments:
  "filter (\<lambda>c. c = CHR ''/'' \<or> c = CHR ''?'' \<or> c = CHR 0x23) (class_path nickname button) = ''//////''"
proof -
  have seg: "list_all segment_char s \<Longrightarrow> filter (\<lambda>c. c = CHR ''/'' \<or> c = CHR ''?'' \<or> c = CHR 0x23) s = []" for s
    by (auto simp: list_all_iff filter_empty_conv segment_char_def should_escape_segment_def alnum_def between_def digit_def byte_def)
  have "list_all segment_char (itoa button)"
    using nat_str_digits[of "nat button"] nat_str_digits[of "nat (- button)"]
    by (auto simp: itoa_def list_all_iff segment_char_def should_escape_segment_def alnum_def)
  with seg path_escape_chars show ?thesis by (simp add: class_path_def)
qed

text \<open>
  a lookup token is accepted only on a 200 answer that says success and names the user; a 401
  or an answer without them rejects the token, and everything else is an outage.
\<close>

theorem LookupUser_outcomes:
  "case LookupUser http token of
     Inr u \<Rightarrow> \<exists>body out. http ''/api/v2/open-token/user'' token = Some (200, body)
         \<and> unmarshal lookup_fields \<lparr>lo_success = False, lo_user_no = None, lo_nickname = None\<rparr> (take body_limit body) = Some out
         \<and> out = \<lparr>lo_success = True, lo_user_no = Some (va_user_no u), lo_nickname = Some (va_nickname u)\<rparr>
   | Inl ErrInvalidToken \<Rightarrow> \<exists>status body. http ''/api/v2/open-token/user'' token = Some (status, body) \<and> status \<in> {200, 401}
   | Inl ErrUnavailable \<Rightarrow> \<forall>body. http ''/api/v2/open-token/user'' token \<noteq> Some (401, body)"
  by (auto simp: LookupUser_def va_get_def split: option.split sum.split bool.split)

end
