(* ===== verification/Resolver.thy ===== *)
theory Resolver
  imports DjClass TtlCache Store
begin

text \<open>
  \<open>internal/resolver/resolver.go\<close>: the badge status of a chat sender, read from the database and
  cached with a time to live that depends on the status. \<open>badge_of\<close> is the specification: the
  status as a function of the committed database. None as a result stands for a panic of
  the cache.
\<close>

section \<open>Statuses and results\<close>

datatype status = Linked | Unsynced | Unlinked

definition ttl_of :: "status \<Rightarrow> int" where
  "ttl_of s = (case s of Linked \<Rightarrow> 300000000000 | Unsynced \<Rightarrow> 15000000000 | Unlinked \<Rightarrow> 10000000000)"

record badges =
  bs_auto :: badge
  bs_viewer :: badge

record result =
  r_status :: status
  r_badge :: "badges option"

definition unlinked_result :: result where
  "unlinked_result = \<lparr>r_status = Unlinked, r_badge = None\<rparr>"

definition zero_row :: row where
  "zero_row = \<lparr>row_button = 0, row_class = '''', row_conversion = None\<rparr>"

definition or_zero :: "row option \<Rightarrow> row" where
  "or_zero r = (case r of None \<Rightarrow> zero_row | Some x \<Rightarrow> x)"

definition to_row :: "class_row \<Rightarrow> row" where
  "to_row s = \<lparr>row_button = dc_button s, row_class = dc_class s, row_conversion = dc_conversion s\<rparr>"

text \<open>The part of \<open>resolve\<close> after its three queries.\<close>

definition rows_result :: "row list \<Rightarrow> int option \<Rightarrow> result" where
  "rows_result rows preferred =
     (case Resolve rows None Auto of
        None \<Rightarrow> \<lparr>r_status = Unsynced, r_badge = None\<rparr>
      | Some auto \<Rightarrow>
          \<lparr>r_status = Linked,
           r_badge = Some \<lparr>bs_auto = BuildBadge auto,
                           bs_viewer = BuildBadge (or_zero (Resolve rows preferred Viewer))\<rparr>\<rparr>)"

definition resolve :: "string \<Rightarrow> result act" where
  "resolve sender w =
     (case run_stmt (GetUserByChzzkID sender) w of
        (Inl e, w1) \<Rightarrow> if e = ErrNoRows then (Inr unlinked_result, w1) else (Inl e, w1)
      | (Inr user, w1) \<Rightarrow>
          and_then (run_stmt (HasActiveLink (u_id user))) (\<lambda>linked.
            if \<not> linked then return_ok unlinked_result
            else and_then (run_stmt (ListDjClasses (u_id user))) (\<lambda>stored.
              return_ok (rows_result (map to_row stored) (u_preferred user)))) w1)"

type_synonym app = "result cache \<times> world"

definition ResolveSender :: "string \<Rightarrow> app \<Rightarrow> ((db_error + result) \<times> app) option" where
  "ResolveSender sender s =
     (case s of (c, w) \<Rightarrow>
       if sender = '''' then Some (Inr unlinked_result, (c, w))
       else (case cache_get sender (w_now w) c of
               None \<Rightarrow> None
             | Some (Some res, c1) \<Rightarrow> Some (Inr res, (c1, w))
             | Some (None, c1) \<Rightarrow>
                 (case resolve sender w of
                    (Inl e, w1) \<Rightarrow> Some (Inl e, (c1, w1))
                  | (Inr res, w1) \<Rightarrow>
                      (case cache_set sender res (ttl_of (r_status res)) (w_now w1) c1 of
                         None \<Rightarrow> None
                       | Some c2 \<Rightarrow> Some (Inr res, (c2, w1))))))"

definition InvalidateUser :: "string \<Rightarrow> app \<Rightarrow> app option" where
  "InvalidateUser chzzkID s = (case s of (c, w) \<Rightarrow> map_option (\<lambda>c1. (c1, w)) (cache_delete chzzkID c))"

definition new_app :: "world \<Rightarrow> app" where
  "new_app w = (cache_new 10000, w)"

section \<open>The specification\<close>

definition badge_of :: "db \<Rightarrow> string \<Rightarrow> result" where
  "badge_of d sender =
     (case find (\<lambda>u. u_chzzk_id u = sender) (db_users d) of
        None \<Rightarrow> unlinked_result
      | Some u \<Rightarrow>
          if \<not> list_ex (\<lambda>l. l_user l = u_id u \<and> l_active l) (db_links d) then unlinked_result
          else rows_result (map to_row (sort_key dc_button (filter (\<lambda>r. dc_user r = u_id u) (db_classes d))))
                 (u_preferred u))"

lemma run_stmt_cases:
  obtains (fault) w1 where "run_stmt s w = (Inl ErrIO, w1)" "w_db w1 = w_db w" "w_now w1 = w_now w"
  | (failed) e w1 where "run_stmt s w = (Inl e, w1)" "s (w_now w) (w_db w) = Inl e" "w_db w1 = w_db w" "w_now w1 = w_now w"
  | (success) a w1 where "run_stmt s w = (Inr a, w1)" "s (w_now w) (w_db w) = Inr (a, w_db w1)" "w_now w1 = w_now w"
proof (cases "fst (take_fault w)")
  case True
  then show ?thesis using fault by (simp add: run_stmt_def case_prod_beta)
next
  case False
  show ?thesis
  proof (cases "s (w_now w) (w_db w)")
    case (Inl e)
    with False show ?thesis using failed by (simp add: run_stmt_def case_prod_beta)
  next
    case (Inr p)
    then obtain a d where "s (w_now w) (w_db w) = Inr (a, d)" by (cases p) auto
    with False show ?thesis
      using success[of a "(snd (take_fault w))\<lparr>w_db := d\<rparr>"] by (simp add: run_stmt_def case_prod_beta)
  qed
qed

lemma resolve_spec:
  assumes "resolve sender w = (r, w1)"
  shows "w_db w1 = w_db w \<and> w_now w1 = w_now w \<and> (case r of Inl e \<Rightarrow> e = ErrIO | Inr res \<Rightarrow> res = badge_of (w_db w) sender)"
proof (cases rule: run_stmt_cases[of "GetUserByChzzkID sender" w])
  case (fault wa)
  with assms show ?thesis by (auto simp: resolve_def)
next
  case (failed e wa)
  then have "e = ErrNoRows" "find (\<lambda>u. u_chzzk_id u = sender) (db_users (w_db w)) = None"
    by (auto simp: GetUserByChzzkID_def one_def split: option.splits)
  with assms failed show ?thesis by (auto simp: resolve_def badge_of_def)
next
  case (success u wa)
  then have u: "find (\<lambda>u. u_chzzk_id u = sender) (db_users (w_db w)) = Some u" "w_db wa = w_db w"
    by (auto simp: GetUserByChzzkID_def one_def split: option.splits)
  show ?thesis
  proof (cases rule: run_stmt_cases[of "HasActiveLink (u_id u)" wa])
    case (success b wb)
    note b = this
    then have hb: "b = list_ex (\<lambda>l. l_user l = u_id u \<and> l_active l) (db_links (w_db w))" "w_db wb = w_db w"
      using u by (auto simp: HasActiveLink_def)
    show ?thesis
    proof (cases rule: run_stmt_cases[of "ListDjClasses (u_id u)" wb])
      case (fault wc)
      with b hb u assms \<open>run_stmt (GetUserByChzzkID sender) w = (Inr u, wa)\<close> \<open>w_now wa = w_now w\<close> show ?thesis
        by (auto simp: resolve_def and_then_def return_ok_def badge_of_def split: if_splits)
    next
      case (success rows wc)
      with b hb u assms \<open>run_stmt (GetUserByChzzkID sender) w = (Inr u, wa)\<close> \<open>w_now wa = w_now w\<close> show ?thesis
        by (auto simp: resolve_def and_then_def return_ok_def badge_of_def ListDjClasses_def split: if_splits)
    qed (simp add: ListDjClasses_def)
  qed (use success u assms in \<open>auto simp: resolve_def and_then_def HasActiveLink_def\<close>)
qed

text \<open>
  without the cache, a lookup answers with the status the committed database gives the
  sender, or with a database error; it writes nothing.
\<close>

theorem resolve_matches_database:
  "case resolve sender w of
     (Inl e, w1) \<Rightarrow> e = ErrIO \<and> w_db w1 = w_db w
   | (Inr res, w1) \<Rightarrow> res = badge_of (w_db w) sender \<and> w_db w1 = w_db w"
proof -
  obtain r w1 where q: "resolve sender w = (r, w1)" by fastforce
  from resolve_spec[OF q] show ?thesis unfolding q by (cases r) auto
qed

section \<open>The cache is transparent\<close>

text \<open>Every cached result is the one the database gives.\<close>

definition coherent :: "app \<Rightarrow> bool" where
  "coherent s \<longleftrightarrow> ttl.sound (\<lambda>k v x. v = badge_of (w_db (snd s)) k) (fst s)"

lemma coherent_new: "coherent (new_app w)"
  by (simp add: coherent_def ttl.sound_def new_app_def cache_inv_new cache_content_def)

lemma ResolveSender_coherent:
  assumes "coherent s"
  obtains r s' where "ResolveSender sender s = Some (r, s')" "coherent s'"
    "w_db (snd s') = w_db (snd s)" "w_now (snd s') = w_now (snd s)"
    "case r of Inl e \<Rightarrow> e = ErrIO | Inr res \<Rightarrow> res = (if sender = '''' then unlinked_result else badge_of (w_db (snd s)) sender)"
proof (cases "sender = ''''")
  case True
  with assms that show ?thesis by (cases s) (simp add: ResolveSender_def)
next
  case False
  obtain c w where s: "s = (c, w)" by (cases s)
  let ?P = "\<lambda>k v x. v = badge_of (w_db w) k"
  from assms s have "ttl.sound ?P c" by (simp add: coherent_def)
  then obtain r c1 where g: "cache_get sender (w_now w) c = Some (r, c1)" "ttl.sound ?P c1"
    "\<And>v. r = Some v \<Longrightarrow> v = badge_of (w_db w) sender"
    by (rule ttl.sound_get[of _ c sender "w_now w"]) blast
  show ?thesis
  proof (cases r)
    case (Some res)
    with that[of "Inr res" "(c1, w)"] g s False show ?thesis by (simp add: ResolveSender_def coherent_def)
  next
    case None
    obtain q w1 where q: "resolve sender w = (q, w1)" by fastforce
    note spec = resolve_spec[OF q]
    show ?thesis
    proof (cases q)
      case (Inl e)
      with that[of "Inl e" "(c1, w1)"] g s None False q spec show ?thesis by (simp add: ResolveSender_def coherent_def)
    next
      case (Inr res)
      with spec have res: "res = badge_of (w_db w) sender" by simp
      from g(2) res obtain c2 where "cache_set sender res (ttl_of (r_status res)) (w_now w1) c1 = Some c2" "ttl.sound ?P c2"
        by (rule ttl.sound_put[of ?P c1 sender res "w_now w1" "ttl_of (r_status res)"])
      with that[of "Inr res" "(c2, w1)"] g s None False q Inr spec res show ?thesis
        by (simp add: ResolveSender_def coherent_def)
    qed
  qed
qed

end
