(* ===== verification/Link.thy ===== *)
theory Link
  imports Resolver VArchive
begin

text \<open>
  \<open>internal/link/link.go\<close>: linking a viewer to V-ARCHIVE, syncing classes, unlinking, the preferred
  button, the daily sync of all links and the state of the /link card. The state is the
  badge cache together with the world of \<open>Store\<close>; the V-ARCHIVE client is a pair of arguments,
  \<open>lookup\<close> and \<open>fetch\<close>, as it is an interface in the code. None stands for a panic of the cache.
\<close>

section \<open>Operations\<close>

datatype link_error = LStore db_error | LVArchive va_error | ErrNotLinked | ErrInvalidButton

record sync_result =
  sr_ok :: bool
  sr_stale :: bool
  sr_highest :: "row option"

definition empty_sync :: sync_result where
  "empty_sync = \<lparr>sr_ok = False, sr_stale = False, sr_highest = None\<rparr>"

type_synonym 'a op = "app \<Rightarrow> ((link_error + 'a) \<times> app) option"

text \<open>A write transaction and, once it is committed, \<open>InvalidateUser\<close>; the shape of every method.\<close>

definition write_then_invalidate :: "(bool \<Rightarrow> unit act) \<Rightarrow> string \<Rightarrow> unit op" where
  "write_then_invalidate body chzzkID s =
     (case s of (c, w) \<Rightarrow>
       (case WriteTx False body w of
          (Inl e, w1) \<Rightarrow> Some (Inl (LStore e), (c, w1))
        | (Inr u, w1) \<Rightarrow> map_option (\<lambda>s1. (Inr (), s1)) (InvalidateUser chzzkID (c, w1))))"

definition read_op :: "'a stmt \<Rightarrow> app \<Rightarrow> (db_error + 'a) \<times> app" where
  "read_op q s = (case s of (c, w) \<Rightarrow> (case run_stmt q w of (r, w1) \<Rightarrow> (r, (c, w1))))"

fun upsert_classes :: "int \<Rightarrow> va_class list \<Rightarrow> unit act" where
  "upsert_classes uid [] = return_ok ()"
| "upsert_classes uid (c # cs) =
     and_then (run_stmt (UpsertDjClass uid (vc_button c) (vc_class c) (vc_power_sum c) (vc_max_power c) (vc_conversion c)))
       (\<lambda>u. upsert_classes uid cs)"

definition class_to_row :: "va_class \<Rightarrow> row" where
  "class_to_row c = \<lparr>row_button = vc_button c, row_class = vc_class c, row_conversion = vc_conversion c\<rparr>"

definition syncUser :: "(string \<Rightarrow> va_class list) \<Rightarrow> int \<Rightarrow> string \<Rightarrow> string \<Rightarrow> sync_result op" where
  "syncUser fetch uid chzzkID nickname s =
     (let classes = fetch nickname in
      if classes = [] then
        (case read_op (ListDjClasses uid) s of
           (Inl e, s1) \<Rightarrow> Some (Inl (LStore e), s1)
         | (Inr had, s1) \<Rightarrow> Some (Inr (empty_sync\<lparr>sr_stale := had \<noteq> []\<rparr>), s1))
      else
        (case write_then_invalidate
                (\<lambda>h. and_then (run_stmt (DeleteDjClasses uid)) (\<lambda>u. upsert_classes uid classes)) chzzkID s of
           None \<Rightarrow> None
         | Some (Inl e, s1) \<Rightarrow> Some (Inl e, s1)
         | Some (Inr u, s1) \<Rightarrow>
             Some (Inr \<lparr>sr_ok = True, sr_stale = False,
                        sr_highest = Some (or_zero (Resolve (map class_to_row classes) None Auto))\<rparr>, s1)))"

definition Connect ::
  "(string \<Rightarrow> va_error + va_user) \<Rightarrow> (string \<Rightarrow> va_class list) \<Rightarrow> int \<Rightarrow> string \<Rightarrow> string \<Rightarrow> sync_result op" where
  "Connect lookup fetch uid chzzkID token s =
     (case lookup token of
        Inl e \<Rightarrow> Some (Inl (LVArchive e), s)
      | Inr va \<Rightarrow>
          (case write_then_invalidate
                  (\<lambda>h. run_stmt (UpsertVarchiveLink uid (va_nickname va) (Some (va_user_no va)))) chzzkID s of
             None \<Rightarrow> None
           | Some (Inl e, s1) \<Rightarrow> Some (Inl e, s1)
           | Some (Inr u, s1) \<Rightarrow> syncUser fetch uid chzzkID (va_nickname va) s1))"

definition Sync :: "(string \<Rightarrow> va_class list) \<Rightarrow> int \<Rightarrow> string \<Rightarrow> sync_result op" where
  "Sync fetch uid chzzkID s =
     (case read_op (GetActiveLink uid) s of
        (Inl e, s1) \<Rightarrow> Some (Inl (if e = ErrNoRows then ErrNotLinked else LStore e), s1)
      | (Inr l, s1) \<Rightarrow> syncUser fetch uid chzzkID (l_nickname l) s1)"

definition Unlink :: "int \<Rightarrow> string \<Rightarrow> unit op" where
  "Unlink uid chzzkID s =
     (case read_op (GetActiveLink uid) s of
        (Inl e, s1) \<Rightarrow> Some (if e = ErrNoRows then Inr () else Inl (LStore e), s1)
      | (Inr l, s1) \<Rightarrow>
          write_then_invalidate
            (\<lambda>h. and_then (run_stmt (DeactivateLink uid)) (\<lambda>u.
                 and_then (run_stmt (DeleteDjClasses uid)) (\<lambda>u.
                 run_stmt (set_preferred_button None uid)))) chzzkID s1)"

definition store_preference :: "int option \<Rightarrow> int \<Rightarrow> string \<Rightarrow> unit op" where
  "store_preference pref uid chzzkID = write_then_invalidate (\<lambda>h. run_stmt (set_preferred_button pref uid)) chzzkID"

definition SetPreferredButton :: "int \<Rightarrow> string \<Rightarrow> string \<Rightarrow> unit op" where
  "SetPreferredButton uid chzzkID raw s =
     (if raw \<noteq> '''' \<and> raw \<noteq> ''auto'' then
        (case parse_int64 raw of
           None \<Rightarrow> Some (Inl ErrInvalidButton, s)
         | Some n \<Rightarrow>
             (case read_op (ListDjClasses uid) s of
                (Inl e, s1) \<Rightarrow> Some (Inl (LStore e), s1)
              | (Inr rows, s1) \<Rightarrow>
                  if \<not> list_ex (\<lambda>r. dc_button r = n) rows then Some (Inl ErrInvalidButton, s1)
                  else store_preference (Some n) uid chzzkID s1))
      else store_preference None uid chzzkID s)"

text \<open>
  \<open>SyncAll\<close>: \<open>alive\<close> is the number of turns before which the context is still not done. The result
  counts successes and failures.
\<close>

fun sync_links :: "(string \<Rightarrow> va_class list) \<Rightarrow> nat \<Rightarrow> active_link list \<Rightarrow> app \<Rightarrow> ((nat \<times> nat) \<times> app) option" where
  "sync_links fetch alive [] s = Some ((0, 0), s)"
| "sync_links fetch 0 (l # ls) s = Some ((0, 0), s)"
| "sync_links fetch (Suc alive) (l # ls) s =
     (case syncUser fetch (al_user l) (al_chzzk_id l) (al_nickname l) s of
        None \<Rightarrow> None
      | Some (r, s1) \<Rightarrow>
          (case sync_links fetch alive ls s1 of
             None \<Rightarrow> None
           | Some ((good, bad), s2) \<Rightarrow>
               Some (case r of Inl e \<Rightarrow> (good, Suc bad)
                     | Inr res \<Rightarrow> if \<not> sr_ok res then (good, Suc bad) else (Suc good, bad), s2)))"

definition SyncAll :: "(string \<Rightarrow> va_class list) \<Rightarrow> nat \<Rightarrow> app \<Rightarrow> ((nat \<times> nat) \<times> app) option" where
  "SyncAll fetch alive s =
     (case read_op ListActiveLinks s of
        (Inl e, s1) \<Rightarrow> Some ((0, 0), s1)
      | (Inr links, s1) \<Rightarrow> sync_links fetch alive links s1)"

record option_row =
  o_label :: string
  o_value :: string
  o_badge :: badge
  o_checked :: bool

record card =
  k_linked :: bool
  k_nickname :: string
  k_options :: "option_row list"

definition empty_card :: card where
  "empty_card = \<lparr>k_linked = False, k_nickname = '''', k_options = []\<rparr>"

text \<open>The labels: the UTF-8 text for "auto (highest class)", and "<n> button".\<close>

definition auto_label :: string where
  "auto_label =
     [CHR 0xEC, CHR 0x9E, CHR 0x90, CHR 0xEB, CHR 0x8F, CHR 0x99, CHR '' '', CHR ''('', CHR 0xEC, CHR 0xB5, CHR 0x9C,
      CHR 0xEA, CHR 0xB3, CHR 0xA0, CHR '' '', CHR 0xED, CHR 0x81, CHR 0xB4, CHR 0xEB, CHR 0x9E, CHR 0x98,
      CHR 0xEC, CHR 0x8A, CHR 0xA4, CHR '')'']"

definition button_label :: "int \<Rightarrow> string" where
  "button_label b = itoa b @ [CHR 0xEB, CHR 0xB2, CHR 0x84, CHR 0xED, CHR 0x8A, CHR 0xBC]"

definition card_options :: "row list \<Rightarrow> int option \<Rightarrow> option_row list" where
  "card_options rows preferred =
     \<lparr>o_label = auto_label, o_value = ''auto'', o_badge = BuildBadge (or_zero (Resolve rows None Auto)),
      o_checked = (preferred = None)\<rparr>
     # map (\<lambda>r. \<lparr>o_label = button_label (row_button r), o_value = itoa (row_button r), o_badge = BuildBadge r,
                  o_checked = (preferred = Some (row_button r))\<rparr>) rows"

definition Card :: "int \<Rightarrow> int option \<Rightarrow> app \<Rightarrow> (link_error + card) \<times> app" where
  "Card uid preferred s =
     (case read_op (GetActiveLink uid) s of
        (Inl e, s1) \<Rightarrow> (if e = ErrNoRows then Inr empty_card else Inl (LStore e), s1)
      | (Inr l, s1) \<Rightarrow>
          (case read_op (ListDjClasses uid) s1 of
             (Inl e, s2) \<Rightarrow> (Inl (LStore e), s2)
           | (Inr stored, s2) \<Rightarrow>
               (Inr \<lparr>k_linked = True, k_nickname = l_nickname l,
                     k_options = (if stored = [] then [] else card_options (map to_row stored) preferred)\<rparr>, s2)))"

section \<open>What an operation on one user may touch\<close>

named_theorems frame_intros \<open>statements and actions that touch the rows of one user only\<close>

definition user_keys :: "db \<Rightarrow> (int \<times> string) list" where
  "user_keys d = map (\<lambda>u. (u_id u, u_chzzk_id u)) (db_users d)"

definition user_rows :: "db \<Rightarrow> int \<Rightarrow> user_row list \<times> link_row list \<times> class_row list" where
  "user_rows d v = (filter (\<lambda>u. u_id u = v) (db_users d), filter (\<lambda>l. l_user l = v) (db_links d),
                    filter (\<lambda>r. dc_user r = v) (db_classes d))"

definition only_user :: "int \<Rightarrow> db \<Rightarrow> db \<Rightarrow> bool" where
  "only_user uid d d' \<longleftrightarrow> user_keys d' = user_keys d \<and> db_channels d' = db_channels d \<and> db_sessions d' = db_sessions d
     \<and> (\<forall>v. v \<noteq> uid \<longrightarrow> user_rows d' v = user_rows d v)"

definition only_stmt :: "int \<Rightarrow> 'a stmt \<Rightarrow> bool" where
  "only_stmt uid s \<longleftrightarrow> (\<forall>t d a d'. s t d = Inr (a, d') \<longrightarrow> only_user uid d d')"

definition only_act :: "int \<Rightarrow> 'a act \<Rightarrow> bool" where
  "only_act uid m \<longleftrightarrow> (\<forall>w. only_user uid (w_db w) (w_db (snd (m w))))"

lemma only_user_refl [simp]: "only_user uid d d"
  by (simp add: only_user_def)

lemma only_user_trans: "only_user uid d d' \<Longrightarrow> only_user uid d' d'' \<Longrightarrow> only_user uid d d''"
  by (simp add: only_user_def)

lemma filter_update_where_other:
  "(\<And>r. k r = v \<Longrightarrow> \<not> P r) \<Longrightarrow> (\<And>r. k (f r) = k r) \<Longrightarrow>
     filter (\<lambda>r. k r = v) (update_where P f rows) = filter (\<lambda>r. k r = v) rows"
  by (induction rows) (auto simp: update_where_def)

lemma filter_delete_other:
  "v \<noteq> uid \<Longrightarrow> filter (\<lambda>r. k r \<noteq> uid \<and> k r = v) rows = filter (\<lambda>r. k r = v) rows"
  by (induction rows) auto

lemma only_writes [frame_intros]:
  "only_stmt uid (UpsertVarchiveLink uid n no)" "only_stmt uid (DeactivateLink uid)"
  "only_stmt uid (DeleteDjClasses uid)" "only_stmt uid (UpsertDjClass uid b cls ps mp cv)"
  "only_stmt uid (set_preferred_button p uid)"
  by (auto simp: only_stmt_def only_user_def user_keys_def user_rows_def UpsertVarchiveLink_def DeactivateLink_def
      DeleteDjClasses_def UpsertDjClass_def set_preferred_button_def filter_update_where_other
      filter_delete_other split: option.splits if_splits)

lemma only_run_stmt [frame_intros]: "only_stmt uid s \<Longrightarrow> only_act uid (run_stmt s)"
  unfolding only_act_def
proof
  fix w :: world
  assume "only_stmt uid s"
  then show "only_user uid (w_db w) (w_db (snd (run_stmt s w)))"
    by (cases rule: run_stmt_cases[of s w]) (auto simp: only_stmt_def)
qed

lemma only_return [frame_intros]: "only_act uid (return_ok a)"
  by (simp add: only_act_def return_ok_def)

lemma only_and_then [frame_intros]:
  assumes "only_act uid m" "\<And>a. only_act uid (f a)" shows "only_act uid (and_then m f)"
  unfolding only_act_def
proof
  fix w :: world
  obtain r w1 where m: "m w = (r, w1)" by fastforce
  with assms(1) have "only_user uid (w_db w) (w_db w1)" unfolding only_act_def by (metis snd_conv)
  with m assms(2) show "only_user uid (w_db w) (w_db (snd (and_then m f w)))"
    unfolding only_act_def and_then_def by (cases r) (auto intro: only_user_trans)
qed

lemma only_upsert_classes [frame_intros]: "only_act uid (upsert_classes uid cs)"
  and keeps_upsert_classes [stmt_intros]: "keeps_act (upsert_classes uid cs)"
  by (induction cs) (auto intro: frame_intros stmt_intros)

text \<open>The badge of everybody else is what it was.\<close>

lemma user_in_rows: "u \<in> set (db_users d) \<longleftrightarrow> u \<in> set (fst (user_rows d (u_id u)))"
  by (simp add: user_rows_def)

lemma badge_of_rows:
  assumes "find (\<lambda>u. u_chzzk_id u = k) (db_users d) = Some u"
  shows "badge_of d k =
    (let (us, ls, rs) = user_rows d (u_id u) in
     if \<not> list_ex l_active ls then unlinked_result
     else rows_result (map to_row (sort_key dc_button rs)) (u_preferred u))"
  using assms by (auto simp: badge_of_def user_rows_def list_ex_iff)

lemma badge_of_frame:
  assumes "users_ok (db_users d)" "users_ok (db_users d')" "only_user uid d d'" "(uid, k) \<in> set (user_keys d)" "k' \<noteq> k"
  shows "badge_of d' k' = badge_of d k'"
proof (cases "find (\<lambda>u. u_chzzk_id u = k') (db_users d)")
  case None
  then have "k' \<notin> set (map snd (user_keys d))" by (auto simp: find_None_iff user_keys_def)
  with assms(3) have "k' \<notin> set (map snd (user_keys d'))" by (simp add: only_user_def)
  then have "find (\<lambda>u. u_chzzk_id u = k') (db_users d') = None" by (auto simp: find_None_iff user_keys_def)
  with None show ?thesis by (simp add: badge_of_def)
next
  case (Some u)
  then have u: "u \<in> set (db_users d)" "u_chzzk_id u = k'" by (auto dest: find_some_in)
  from assms(4) obtain x where x: "x \<in> set (db_users d)" "u_id x = uid" "u_chzzk_id x = k" by (auto simp: user_keys_def)
  have other: "u_id u \<noteq> uid"
  proof
    assume "u_id u = uid"
    with x u assms(1) have "u = x" by (auto simp: users_ok_def distinct_map dest: inj_onD)
    with u x assms(5) show False by simp
  qed
  then have rows: "user_rows d' (u_id u) = user_rows d (u_id u)" using assms(3) by (simp add: only_user_def)
  with u(1) have "u \<in> set (db_users d')" using user_in_rows by metis
  with u(2) assms(2) have "find (\<lambda>u. u_chzzk_id u = k') (db_users d') = Some u"
    by (intro find_unique) (auto simp: users_ok_def distinct_map dest: inj_onD)
  with Some rows show ?thesis by (simp add: badge_of_rows)
qed

section \<open>Every operation keeps the cache coherent\<close>

definition app_db :: "app \<Rightarrow> db" where
  "app_db s = w_db (snd s)"

definition app_ok :: "app \<Rightarrow> bool" where
  "app_ok s \<longleftrightarrow> coherent s \<and> db_inv (app_db s)"

text \<open>\<open>s'\<close> is a state an operation of user \<open>uid\<close> may lead to from \<open>s\<close>.\<close>

definition op_step :: "int \<Rightarrow> app \<Rightarrow> app \<Rightarrow> bool" where
  "op_step uid s s' \<longleftrightarrow> app_ok s' \<and> only_user uid (app_db s) (app_db s') \<and> w_now (snd s') = w_now (snd s)"

lemma op_step_trans: "op_step uid s s' \<Longrightarrow> op_step uid s' s'' \<Longrightarrow> op_step uid s s''"
  by (auto simp: op_step_def intro: only_user_trans)

lemma op_step_refl: "app_ok s \<Longrightarrow> op_step uid s s"
  by (simp add: op_step_def)

lemma op_step_keys: "op_step uid s s' \<Longrightarrow> user_keys (app_db s') = user_keys (app_db s)"
  by (simp add: op_step_def only_user_def)

lemma WriteTx_now:
  assumes "\<And>h w. w_now (snd (fn h w)) = w_now w"
  shows "w_now (snd (WriteTx held fn w)) = w_now (w :: world)"
  using assms[of True "snd (take_fault w)"]
  by (auto simp: WriteTx_def Let_def case_prod_beta split: sum.splits prod.splits)

definition steady :: "'a act \<Rightarrow> bool" where
  "steady m \<longleftrightarrow> (\<forall>w. w_now (snd (m w)) = w_now w)"

lemma steady_run_stmt [frame_intros]: "steady (run_stmt s)"
  unfolding steady_def
proof
  fix w :: world
  show "w_now (snd (run_stmt s w)) = w_now w" by (cases rule: run_stmt_cases[of s w]) auto
qed

lemma steady_return [frame_intros]: "steady (return_ok a)"
  by (simp add: steady_def return_ok_def)

lemma steady_and_then [frame_intros]: "steady m \<Longrightarrow> (\<And>a. steady (f a)) \<Longrightarrow> steady (and_then m f)"
  by (simp add: steady_def and_then_def case_prod_beta split: sum.split)

lemma steady_upsert_classes [frame_intros]: "steady (upsert_classes uid cs)"
  by (induction cs) (auto intro: frame_intros)

lemma write_then_invalidate_step:
  assumes "app_ok s" "(uid, k) \<in> set (user_keys (app_db s))"
    and "\<And>h. keeps_act (body h)" "\<And>h. only_act uid (body h)" "\<And>h. steady (body h)"
  obtains (err) e s' where "write_then_invalidate body k s = Some (Inl (LStore e), s')" "op_step uid s s'" "app_db s' = app_db s"
  | (ok) s' w1 where "write_then_invalidate body k s = Some (Inr (), s')" "op_step uid s s'"
      "body True (snd (take_fault (snd s))) = (Inr (), w1)" "app_db s' = w_db w1"
proof -
  obtain c w where s: "s = (c, w)" by (cases s)
  obtain r w' where tx: "WriteTx False body w = (r, w')" by fastforce
  have inv: "db_inv (w_db w)" and co: "ttl.sound (\<lambda>k v x. v = badge_of (w_db w) k) c"
    using assms(1) s by (simp_all add: app_ok_def app_db_def coherent_def)
  have inv': "db_inv (w_db w')" using keeps_actD[OF keeps_WriteTx[OF assms(3)] inv tx] .
  have now: "w_now w' = w_now w" using WriteTx_now[of body False w] assms(5) tx by (simp add: steady_def)
  show ?thesis
  proof (cases r)
    case (Inl e)
    then have "w_db w' = w_db w" using WriteTx_error[OF tx[unfolded Inl]] by blast
    then have "op_step uid s (c, w')" "app_db (c, w') = app_db s"
      using s inv' co now by (simp_all add: op_step_def app_ok_def app_db_def coherent_def)
    moreover have "write_then_invalidate body k s = Some (Inl (LStore e), (c, w'))"
      using Inl tx s by (simp add: write_then_invalidate_def)
    ultimately show ?thesis by (intro err)
  next
    case (Inr u)
    then obtain w1 where w1: "body True (snd (take_fault w)) = (Inr u, w1)" "w_db w' = w_db w1"
      using WriteTx_ok[OF tx[unfolded Inr]] by blast
    have "only_user uid (w_db (snd (take_fault w))) (w_db (snd (body True (snd (take_fault w)))))"
      using assms(4)[of True] by (simp only: only_act_def)
    with w1 have fr: "only_user uid (w_db w) (w_db w')" by simp
    have "badge_of (w_db w') k' = badge_of (w_db w) k'" if "k' \<noteq> k" for k'
      using badge_of_frame[OF _ _ fr, of k k'] inv inv' assms(2) that s by (simp add: db_inv_def app_db_def)
    then obtain c' where c': "cache_delete k c = Some c'" "ttl.sound (\<lambda>k v x. v = badge_of (w_db w') k) c'"
      using ttl.sound_del[OF co, of k "\<lambda>k v x. v = badge_of (w_db w') k"] by simp blast
    moreover from c'(2) have "op_step uid s (c', w')"
      using s inv' fr now by (simp add: op_step_def app_ok_def app_db_def coherent_def)
    ultimately show ?thesis using ok[of "(c', w')" w1] Inr tx s w1
      by (simp add: write_then_invalidate_def InvalidateUser_def app_db_def)
  qed
qed

lemma read_op_step:
  assumes "app_ok s" "\<And>t d a d'. q t d = Inr (a, d') \<Longrightarrow> d' = d"
  obtains r s' where "read_op q s = (r, s')" "op_step uid s s'" "app_db s' = app_db s"
    "case r of Inl e \<Rightarrow> e = ErrIO \<or> q (w_now (snd s)) (app_db s) = Inl e
             | Inr a \<Rightarrow> q (w_now (snd s)) (app_db s) = Inr (a, app_db s)"
proof -
  obtain c w where s: "s = (c, w)" by (cases s)
  have step: "op_step uid s (c, w1)" "app_db (c, w1) = app_db s" if "w_db w1 = w_db w" "w_now w1 = w_now w" for w1
    using that assms(1) s by (simp_all add: op_step_def app_ok_def app_db_def coherent_def)
  show ?thesis
  proof (cases rule: run_stmt_cases[of q w])
    case (fault w1)
    with that[of "Inl ErrIO" "(c, w1)"] step[of w1] s show ?thesis by (simp add: read_op_def)
  next
    case (failed e w1)
    with that[of "Inl e" "(c, w1)"] step[of w1] s show ?thesis by (simp add: read_op_def app_db_def)
  next
    case (success a w1)
    with assms(2) have "w_db w1 = w_db w" by blast
    with success that[of "Inr a" "(c, w1)"] step[of w1] s show ?thesis by (simp add: read_op_def app_db_def)
  qed
qed

lemma read_queries:
  "ListDjClasses uid t d = Inr (a, d') \<Longrightarrow> d' = d" "GetActiveLink uid t d = Inr (b, d') \<Longrightarrow> d' = d"
  "ListActiveLinks t d = Inr (c, d') \<Longrightarrow> d' = d"
  by (auto simp: ListDjClasses_def GetActiveLink_def one_def ListActiveLinks_def split: option.splits)

lemma write_step:
  assumes "app_ok s" "(uid, k) \<in> set (user_keys (app_db s))"
    and "\<And>h. keeps_act (body h)" "\<And>h. only_act uid (body h)" "\<And>h. steady (body h)"
  shows "\<exists>r s'. write_then_invalidate body k s = Some (r, s') \<and> op_step uid s s'"
  by (rule write_then_invalidate_step[where body = body, OF assms]) auto

lemma syncUser_step:
  assumes "app_ok s" "(uid, k) \<in> set (user_keys (app_db s))"
  shows "\<exists>r s'. syncUser fetch uid k nick s = Some (r, s') \<and> op_step uid s s'"
proof (cases "fetch nick = []")
  case True
  obtain r s' where "read_op (ListDjClasses uid) s = (r, s')" "op_step uid s s'"
    by (rule read_op_step[OF assms(1) read_queries(1), where uid = uid])
  with True show ?thesis by (cases r) (auto simp: syncUser_def)
next
  case False
  let ?body = "\<lambda>h. and_then (run_stmt (DeleteDjClasses uid)) (\<lambda>u. upsert_classes uid (fetch nick))"
  obtain r s' where "write_then_invalidate ?body k s = Some (r, s')" "op_step uid s s'"
    using write_step[OF assms, of ?body] by (auto intro: stmt_intros frame_intros)
  with False show ?thesis by (cases r) (auto simp: syncUser_def)
qed

lemma Sync_step:
  assumes "app_ok s" "(uid, k) \<in> set (user_keys (app_db s))"
  shows "\<exists>r s'. Sync fetch uid k s = Some (r, s') \<and> op_step uid s s'"
proof -
  obtain r s1 where r: "read_op (GetActiveLink uid) s = (r, s1)" "op_step uid s s1"
    by (rule read_op_step[OF assms(1) read_queries(2), where uid = uid])
  show ?thesis
  proof (cases r)
    case (Inr l)
    have "app_ok s1" "(uid, k) \<in> set (user_keys (app_db s1))" using r(2) assms(2) by (simp_all add: op_step_def only_user_def)
    from syncUser_step[OF this, of fetch "l_nickname l"] r Inr show ?thesis
      by (auto simp: Sync_def intro: op_step_trans)
  qed (use r in \<open>auto simp: Sync_def\<close>)
qed

lemma Connect_step:
  assumes "app_ok s" "(uid, k) \<in> set (user_keys (app_db s))"
  shows "\<exists>r s'. Connect lookup fetch uid k token s = Some (r, s') \<and> op_step uid s s'"
proof (cases "lookup token")
  case (Inl e)
  with assms show ?thesis by (auto simp: Connect_def intro: op_step_refl)
next
  case (Inr va)
  let ?body = "\<lambda>h::bool. run_stmt (UpsertVarchiveLink uid (va_nickname va) (Some (va_user_no va)))"
  obtain r s1 where r: "write_then_invalidate ?body k s = Some (r, s1)" "op_step uid s s1"
    using write_step[OF assms, of ?body] by (auto intro: stmt_intros frame_intros)
  show ?thesis
  proof (cases r)
    case (Inr u)
    have "app_ok s1" "(uid, k) \<in> set (user_keys (app_db s1))" using r(2) assms(2) by (simp_all add: op_step_def only_user_def)
    from syncUser_step[OF this, of fetch "va_nickname va"] r Inr \<open>lookup token = Inr va\<close> show ?thesis
      by (auto simp: Connect_def intro: op_step_trans)
  qed (use r \<open>lookup token = Inr va\<close> in \<open>auto simp: Connect_def\<close>)
qed

lemma Unlink_step:
  assumes "app_ok s" "(uid, k) \<in> set (user_keys (app_db s))"
  shows "\<exists>r s'. Unlink uid k s = Some (r, s') \<and> op_step uid s s'"
proof -
  obtain r s1 where r: "read_op (GetActiveLink uid) s = (r, s1)" "op_step uid s s1"
    by (rule read_op_step[OF assms(1) read_queries(2), where uid = uid])
  show ?thesis
  proof (cases r)
    case (Inr l)
    let ?body = "\<lambda>h::bool. and_then (run_stmt (DeactivateLink uid)) (\<lambda>u.
                 and_then (run_stmt (DeleteDjClasses uid)) (\<lambda>u.
                 run_stmt (set_preferred_button None uid)))"
    have "app_ok s1" "(uid, k) \<in> set (user_keys (app_db s1))" using r(2) assms(2) by (simp_all add: op_step_def only_user_def)
    from write_step[OF this, of ?body] r Inr show ?thesis
      by (auto simp: Unlink_def intro: stmt_intros frame_intros op_step_trans)
  qed (use r in \<open>auto simp: Unlink_def\<close>)
qed

lemma store_preference_step:
  assumes "app_ok s" "(uid, k) \<in> set (user_keys (app_db s))"
  shows "\<exists>r s'. store_preference p uid k s = Some (r, s') \<and> op_step uid s s'"
  unfolding store_preference_def by (rule write_step[where body = "\<lambda>h. run_stmt (set_preferred_button p uid)", OF assms]) (auto intro: stmt_intros frame_intros)

lemma SetPreferredButton_step:
  assumes "app_ok s" "(uid, k) \<in> set (user_keys (app_db s))"
  shows "\<exists>r s'. SetPreferredButton uid k raw s = Some (r, s') \<and> op_step uid s s'"
proof (cases "raw \<noteq> '''' \<and> raw \<noteq> ''auto'' \<and> parse_int64 raw \<noteq> None")
  case True
  then obtain n where n: "parse_int64 raw = Some n" by blast
  obtain r s1 where r: "read_op (ListDjClasses uid) s = (r, s1)" "op_step uid s s1"
    by (rule read_op_step[OF assms(1) read_queries(1), where uid = uid])
  then have "app_ok s1" "(uid, k) \<in> set (user_keys (app_db s1))" using assms(2) by (simp_all add: op_step_def only_user_def)
  from store_preference_step[OF this, of "Some n"] r True n show ?thesis
    by (cases r; cases s1) (auto simp: SetPreferredButton_def intro: op_step_trans)
next
  case False
  with store_preference_step[OF assms, of None] assms(1) show ?thesis
    by (cases s) (auto simp: SetPreferredButton_def intro: op_step_refl)
qed

section \<open>What a sync stores\<close>

definition class_payload :: "class_row \<Rightarrow> int \<times> string \<times> rat option \<times> rat option \<times> rat option" where
  "class_payload r = (dc_button r, dc_class r, dc_power_sum r, dc_max_power r, dc_conversion r)"

definition va_payload :: "va_class \<Rightarrow> int \<times> string \<times> rat option \<times> rat option \<times> rat option" where
  "va_payload c = (vc_button c, vc_class c, vc_power_sum c, vc_max_power c, vc_conversion c)"

text \<open>The classes of a user as \<open>ListDjClasses\<close> returns them.\<close>

definition classes_of :: "db \<Rightarrow> int \<Rightarrow> class_row list" where
  "classes_of d uid = sort_key dc_button (filter (\<lambda>r. dc_user r = uid) (db_classes d))"

definition active_link_of :: "db \<Rightarrow> int \<Rightarrow> link_row option" where
  "active_link_of d uid = find (\<lambda>l. l_user l = uid \<and> l_active l) (db_links d)"

lemma ListDjClasses_value: "ListDjClasses uid t d = Inr (classes_of d uid, d)"
  by (simp add: ListDjClasses_def classes_of_def)

lemma and_then_ok:
  "and_then m f w = (Inr b, w') \<Longrightarrow> \<exists>a w1. m w = (Inr a, w1) \<and> f a w1 = (Inr b, w')"
  by (auto simp: and_then_def split: prod.splits sum.splits)

lemma upsert_new_class:
  assumes "UpsertDjClass uid b cls ps mp cv t d = Inr (u, d')"
    "\<And>r. r \<in> set (db_classes d) \<Longrightarrow> \<not> (dc_user r = uid \<and> dc_button r = b)"
  shows "\<exists>r. d' = d\<lparr>db_classes := db_classes d @ [r]\<rparr> \<and> dc_user r = uid \<and> class_payload r = (b, cls, ps, mp, cv)"
proof -
  have "find (\<lambda>r. dc_user r = uid \<and> dc_button r = b) (db_classes d) = None"
    using assms(2) by (auto simp: find_None_iff)
  with assms(1) show ?thesis by (auto simp: UpsertDjClass_def class_payload_def split: if_splits)
qed

lemma upsert_classes_ok:
  assumes "upsert_classes uid cs w = (Inr u, w')" "distinct (map vc_button cs)"
    and "\<And>c r. c \<in> set cs \<Longrightarrow> r \<in> set (db_classes (w_db w)) \<Longrightarrow> \<not> (dc_user r = uid \<and> dc_button r = vc_button c)"
  shows "\<exists>rs. w_db w' = (w_db w)\<lparr>db_classes := db_classes (w_db w) @ rs\<rparr> \<and> map class_payload rs = map va_payload cs
    \<and> (\<forall>r\<in>set rs. dc_user r = uid)"
  using assms
proof (induction cs arbitrary: w)
  case Nil
  then have "w_db w' = (w_db w)\<lparr>db_classes := db_classes (w_db w) @ []\<rparr>" by (simp add: return_ok_def)
  then show ?case by (intro exI[of _ "[]"]) simp
next
  case (Cons c cs)
  from and_then_ok[OF Cons.prems(1)[simplified]] obtain a w1 where
    w1: "run_stmt (UpsertDjClass uid (vc_button c) (vc_class c) (vc_power_sum c) (vc_max_power c) (vc_conversion c)) w = (Inr a, w1)"
    "upsert_classes uid cs w1 = (Inr u, w')" by auto
  from run_stmt_ok[OF w1(1)] Cons.prems(3)[of c] obtain r where
    r: "w_db w1 = (w_db w)\<lparr>db_classes := db_classes (w_db w) @ [r]\<rparr>" "dc_user r = uid" "class_payload r = va_payload c"
    using upsert_new_class by (fastforce simp: va_payload_def)
  then have b: "dc_button r = vc_button c" by (simp add: class_payload_def va_payload_def)
  have other: "vc_button c' \<noteq> vc_button c" if "c' \<in> set cs" for c'
    using Cons.prems(2) that by (metis distinct.simps(2) image_eqI list.simps(9) set_map)
  have "\<exists>rs. w_db w' = (w_db w1)\<lparr>db_classes := db_classes (w_db w1) @ rs\<rparr> \<and> map class_payload rs = map va_payload cs
    \<and> (\<forall>r\<in>set rs. dc_user r = uid)"
    using Cons.prems(2,3) r b by (intro Cons.IH[OF w1(2)]) (auto dest: other)
  then obtain rs where rs: "w_db w' = (w_db w1)\<lparr>db_classes := db_classes (w_db w1) @ rs\<rparr>" "map class_payload rs = map va_payload cs"
    "\<forall>r\<in>set rs. dc_user r = uid" by blast
  with r show ?case by (intro exI[of _ "r # rs"]) simp
qed

lemma sort_ascending: "sorted_wrt (\<lambda>a b. k a < k b) xs \<Longrightarrow> sort_key k xs = (xs :: 'a list)" for k :: "'a \<Rightarrow> int"
  by (rule sort_key_id_if_sorted) (auto simp: sorted_wrt_map elim!: sorted_wrt_mono_rel[rotated])

context class_source
begin

text \<open>The transaction of \<open>syncUser\<close>, when it commits: the user's rows are exactly the fetched classes.\<close>

lemma replace_classes:
  assumes "and_then (run_stmt (DeleteDjClasses uid)) (\<lambda>u. upsert_classes uid (fetch nick)) w = (Inr u, w')"
  shows "map class_payload (classes_of (w_db w') uid) = map va_payload (fetch nick)
     \<and> db_users (w_db w') = db_users (w_db w) \<and> db_links (w_db w') = db_links (w_db w)"
proof -
  from and_then_ok[OF assms] obtain a w1 where w1: "run_stmt (DeleteDjClasses uid) w = (Inr a, w1)"
    "upsert_classes uid (fetch nick) w1 = (Inr u, w')" by auto
  from run_stmt_ok[OF w1(1)] have d1: "w_db w1 = (w_db w)\<lparr>db_classes := filter (\<lambda>r. dc_user r \<noteq> uid) (db_classes (w_db w))\<rparr>"
    by (auto simp: DeleteDjClasses_def)
  then obtain rs where rs: "w_db w' = (w_db w1)\<lparr>db_classes := db_classes (w_db w1) @ rs\<rparr>"
    "map class_payload rs = map va_payload (fetch nick)" "\<forall>r\<in>set rs. dc_user r = uid"
    using upsert_classes_ok[OF w1(2) buttons_distinct] by auto
  have "filter (\<lambda>r. dc_user r = uid) (db_classes (w_db w')) = rs"
    using rs d1 by (simp add: filter_id_conv filter_empty_conv)
  moreover have "sort_key dc_button rs = rs"
  proof (rule sort_ascending)
    have "map dc_button rs = map vc_button (fetch nick)"
      using rs(2) by (metis (no_types, lifting) class_payload_def fst_conv list.map_comp map_cong comp_apply va_payload_def)
    then have "sorted_wrt (<) (map dc_button rs)" using ascending[of nick] by (simp add: sorted_wrt_map)
    then show "sorted_wrt (\<lambda>a b. dc_button a < dc_button b) rs" by (simp add: sorted_wrt_map)
  qed
  ultimately show ?thesis using rs d1 by (simp add: classes_of_def)
qed

end

lemma payload_rows:
  "map class_payload rs = map va_payload cs \<Longrightarrow> map to_row rs = map class_to_row cs"
  by (induction rs arbitrary: cs)
    (auto simp: class_payload_def va_payload_def to_row_def class_to_row_def)

text \<open>The outcome of \<open>syncUser\<close>, for whatever the service answers.\<close>

lemma syncUser_cases:
  assumes "app_ok s" "(uid, k) \<in> set (user_keys (app_db s))"
    and "syncUser (AllDjClasses http order) uid k nick s = Some (r, s')"
  shows "(case r of
      Inl e \<Rightarrow> app_db s' = app_db s
    | Inr res \<Rightarrow>
        if AllDjClasses http order nick = []
        then app_db s' = app_db s \<and> res = empty_sync\<lparr>sr_stale := classes_of (app_db s) uid \<noteq> []\<rparr>
        else sr_ok res
          \<and> map class_payload (classes_of (app_db s') uid) = map va_payload (AllDjClasses http order nick)
          \<and> db_users (app_db s') = db_users (app_db s) \<and> db_links (app_db s') = db_links (app_db s)
          \<and> Resolve (map to_row (classes_of (app_db s') uid)) None Auto = sr_highest res)"
proof (cases "AllDjClasses http order nick = []")
  case True
  obtain q s1 where q: "read_op (ListDjClasses uid) s = (q, s1)" "app_db s1 = app_db s"
    "case q of Inl e \<Rightarrow> e = ErrIO \<or> ListDjClasses uid (w_now (snd s)) (app_db s) = Inl e
             | Inr a \<Rightarrow> ListDjClasses uid (w_now (snd s)) (app_db s) = Inr (a, app_db s)"
    by (rule read_op_step[OF assms(1) read_queries(1), where uid = uid])
  with True assms(3) show ?thesis by (cases q) (auto simp: syncUser_def ListDjClasses_value)
next
  case False
  let ?cs = "AllDjClasses http order nick"
  let ?body = "\<lambda>h::bool. and_then (run_stmt (DeleteDjClasses uid)) (\<lambda>u. upsert_classes uid ?cs)"
  have wf: "keeps_act (?body h)" "only_act uid (?body h)" "steady (?body h)" for h
    by (auto intro: stmt_intros frame_intros)
  show ?thesis
  proof (cases rule: write_then_invalidate_step[where body = ?body, OF assms(1,2) wf])
    case (1 e s1)
    with False assms(3) show ?thesis by (auto simp: syncUser_def)
  next
    case (2 s1 w1)
    from va.replace_classes[OF 2(3)] have rows: "map class_payload (classes_of (app_db s1) uid) = map va_payload ?cs"
      "db_users (app_db s1) = db_users (app_db s)" "db_links (app_db s1) = db_links (app_db s)"
      using 2(4) by (simp_all add: app_db_def)
    obtain best where best: "Resolve (map class_to_row ?cs) None Auto = Some best"
      using False Resolve_None_iff[of "map class_to_row ?cs" None Auto] by auto
    with payload_rows[OF rows(1)] have "Resolve (map to_row (classes_of (app_db s1) uid)) None Auto = Some best" by simp
    with 2(1) False assms(3) rows best show ?thesis by (auto simp: syncUser_def or_zero_def)
  qed
qed

text \<open>
  C12: a sync either fails and changes nothing, or finds nothing at V-ARCHIVE, keeps the stored classes
  and reports whether there were any (stale), or replaces the viewer's classes by exactly the
  fetched ones, in which case the class it reports is the one the automatic badge shows.
\<close>

theorem syncUser_outcome:
  assumes "app_ok s" "(uid, k) \<in> set (user_keys (app_db s))"
    and "syncUser (AllDjClasses http order) uid k nick s = Some (r, s')"
  shows "(case r of
      Inl e \<Rightarrow> app_db s' = app_db s
    | Inr res \<Rightarrow>
        if AllDjClasses http order nick = []
        then app_db s' = app_db s \<and> \<not> sr_ok res \<and> (sr_stale res \<longleftrightarrow> classes_of (app_db s) uid \<noteq> [])
        else sr_ok res
          \<and> map class_payload (classes_of (app_db s') uid) = map va_payload (AllDjClasses http order nick)
          \<and> Resolve (map to_row (classes_of (app_db s') uid)) None Auto = sr_highest res)"
  using syncUser_cases[OF assms] by (auto split: sum.split simp: empty_sync_def)

definition sample_db :: db where
  "sample_db = empty_db\<lparr>
     db_users := [\<lparr>u_id = 1, u_chzzk_id = ''c1'', u_nickname = ''Nick'', u_preferred = None, u_created = 0\<rparr>],
     db_links := [\<lparr>l_id = 1, l_user = 1, l_nickname = ''a/b'', l_user_no = Some 7, l_active = True, l_created = 0, l_updated = 0\<rparr>],
     db_classes := [\<lparr>dc_id = 1, dc_user = 1, dc_button = 4, dc_class = ''ROOKIE I'', dc_power_sum = None, dc_max_power = None,
                     dc_conversion = None, dc_synced = 0\<rparr>,
                    \<lparr>dc_id = 2, dc_user = 1, dc_button = 8, dc_class = ''PRO DJ II'', dc_power_sum = None, dc_max_power = None,
                     dc_conversion = None, dc_synced = 0\<rparr>]\<rparr>"

definition sample_app :: app where
  "sample_app = new_app \<lparr>w_db = sample_db, w_now = 0, w_faults = []\<rparr>"

lemma sample_app_ok: "app_ok sample_app" "(1, ''c1'') \<in> set (user_keys (app_db sample_app))" "app_db sample_app = sample_db"
proof -
  have "db_inv sample_db"
    by (simp add: db_inv_def sample_db_def empty_db_def users_ok_def channels_ok_def links_ok_def classes_ok_def
        user_ids_def valid_button_def)
  then show "app_ok sample_app"
    using coherent_new by (simp add: app_ok_def app_db_def sample_app_def) (simp add: new_app_def)
  show "app_db sample_app = sample_db" by (simp add: sample_app_def app_db_def new_app_def)
  then show "(1, ''c1'') \<in> set (user_keys (app_db sample_app))" by (simp add: user_keys_def sample_db_def)
qed

definition no_http :: http where
  "no_http path bearer = None"

theorem syncUser_outcome_witness:
  "\<exists>s'. syncUser (AllDjClasses no_http [0, 1, 2, 3]) 1 ''c1'' ''a/b'' sample_app = Some (Inr \<lparr>sr_ok = False, sr_stale = True, sr_highest = None\<rparr>, s')
     \<and> app_db s' = sample_db"
proof -
  have none: "AllDjClasses no_http [0, 1, 2, 3] ''a/b'' = []" by code_simp
  obtain r s' where s': "syncUser (AllDjClasses no_http [0, 1, 2, 3]) 1 ''c1'' ''a/b'' sample_app = Some (r, s')"
    using syncUser_step[OF sample_app_ok(1,2)] by blast
  moreover have "r = Inr \<lparr>sr_ok = False, sr_stale = True, sr_highest = None\<rparr>"
    using s' by (simp add: syncUser_def none[simplified] Let_def read_op_def sample_app_def new_app_def run_stmt_def ListDjClasses_def
        sample_db_def empty_sync_def)
  ultimately show ?thesis
    using syncUser_outcome[OF sample_app_ok(1,2) s'] none sample_app_ok(3) by auto
qed

section \<open>Linking, unlinking, the preferred button\<close>

lemma active_link_upsert:
  assumes "UpsertVarchiveLink uid nick no t d = Inr (u, d')" "distinct (map l_user (db_links d))"
  shows "\<exists>l. active_link_of d' uid = Some l \<and> l_nickname l = nick \<and> l_user_no l = no \<and> db_users d' = db_users d"
proof (cases "find (\<lambda>l. l_user l = uid) (db_links d)")
  case None
  then have "find (\<lambda>l. l_user l = uid \<and> l_active l) (db_links d) = None" by (auto simp: find_None_iff)
  with None assms(1) show ?thesis
    by (auto simp: UpsertVarchiveLink_def active_link_of_def find_append split: if_splits)
next
  case (Some l)
  let ?f = "\<lambda>x. x\<lparr>l_nickname := nick, l_user_no := no, l_active := True, l_updated := unixepoch t\<rparr>"
  from Some assms(1) have d': "d' = d\<lparr>db_links := update_where (\<lambda>x. l_user x = uid) ?f (db_links d)\<rparr>"
    by (simp add: UpsertVarchiveLink_def)
  from Some have l: "l \<in> set (db_links d)" "l_user l = uid" by (auto dest: find_some_in)
  have "find (\<lambda>l. l_user l = uid \<and> l_active l) (update_where (\<lambda>x. l_user x = uid) ?f (db_links d)) = Some (?f l)"
    using l assms(2) by (intro find_unique) (auto simp: update_where_def distinct_map inj_on_def split: if_splits)
  with d' show ?thesis by (simp add: active_link_of_def)
qed

lemma badge_of_linked:
  assumes "db_inv d" "(uid, k) \<in> set (user_keys d)"
  obtains u where "u \<in> set (db_users d)" "u_id u = uid" "u_chzzk_id u = k"
    "badge_of d k = (if active_link_of d uid = None then unlinked_result
                     else rows_result (map to_row (classes_of d uid)) (u_preferred u))"
proof -
  from assms(2) obtain u where u: "u \<in> set (db_users d)" "u_id u = uid" "u_chzzk_id u = k" by (auto simp: user_keys_def)
  then have "find (\<lambda>u. u_chzzk_id u = k) (db_users d) = Some u"
    using assms(1) by (intro find_unique) (auto simp: db_inv_def users_ok_def distinct_map inj_on_def)
  moreover have "active_link_of d uid = None \<longleftrightarrow> \<not> list_ex (\<lambda>l. l_user l = uid \<and> l_active l) (db_links d)"
    by (auto simp: active_link_of_def find_None_iff list_ex_iff)
  ultimately have "badge_of d k = (if active_link_of d uid = None then unlinked_result
                     else rows_result (map to_row (classes_of d uid)) (u_preferred u))"
    using u by (simp add: badge_of_def classes_of_def)
  with u that show ?thesis by blast
qed

lemma write_then_invalidate_error: "write_then_invalidate body k s = Some (Inl e, s') \<Longrightarrow> \<exists>d. e = LStore d"
  by (auto simp: write_then_invalidate_def split: prod.splits sum.splits)

lemma syncUser_error: "syncUser fetch uid k nick s = Some (Inl e, s') \<Longrightarrow> \<exists>d. e = LStore d"
  by (auto simp: syncUser_def Let_def split: if_splits prod.splits sum.splits option.splits dest: write_then_invalidate_error)

lemma active_link_frame: "db_links d' = db_links d \<Longrightarrow> active_link_of d' uid = active_link_of d uid"
  by (simp add: active_link_of_def)

lemma UpsertVarchiveLink_classes:
  "UpsertVarchiveLink uid nick no t d = Inr (u, d') \<Longrightarrow> db_classes d' = db_classes d"
  by (auto simp: UpsertVarchiveLink_def split: option.splits if_splits)

lemma Connect_cases:
  assumes "app_ok s" "(uid, k) \<in> set (user_keys (app_db s))"
    and "Connect (LookupUser http) (AllDjClasses http order) uid k token s = Some (r, s')"
  shows "(case r of
      Inl (LVArchive e) \<Rightarrow> s' = s \<and> LookupUser http token = Inl e
    | Inl e \<Rightarrow> \<exists>d. e = LStore d
        \<and> classes_of (app_db s') uid = classes_of (app_db s) uid
        \<and> (app_db s' = app_db s \<or> (\<exists>va l. LookupUser http token = Inr va \<and> active_link_of (app_db s') uid = Some l
            \<and> l_nickname l = va_nickname va \<and> l_user_no l = Some (va_user_no va)))
    | Inr res \<Rightarrow> \<exists>va l. LookupUser http token = Inr va \<and> active_link_of (app_db s') uid = Some l
        \<and> l_nickname l = va_nickname va \<and> l_user_no l = Some (va_user_no va)
        \<and> r_status (badge_of (app_db s') k) \<in> (if sr_ok res then {Linked} else {Linked, Unsynced}))"
proof (cases "LookupUser http token")
  case (Inl e)
  with assms(3) show ?thesis by (auto simp: Connect_def)
next
  case (Inr va)
  let ?body = "\<lambda>h::bool. run_stmt (UpsertVarchiveLink uid (va_nickname va) (Some (va_user_no va)))"
  have wf: "keeps_act (?body h)" "only_act uid (?body h)" "steady (?body h)" for h
    by (auto intro: stmt_intros frame_intros)
  show ?thesis
  proof (cases rule: write_then_invalidate_step[where body = ?body, OF assms(1,2) wf])
    case (1 e s1)
    with assms(3) Inr show ?thesis by (auto simp: Connect_def)
  next
    case (2 s1 w1)
    have ok1: "app_ok s1" "(uid, k) \<in> set (user_keys (app_db s1))" using 2(2) assms(2) by (simp_all add: op_step_def only_user_def)
    have inv: "distinct (map l_user (db_links (app_db s)))" using assms(1) by (simp add: app_ok_def db_inv_def links_ok_def)
    from run_stmt_ok[OF 2(3)] have up: "UpsertVarchiveLink uid (va_nickname va) (Some (va_user_no va)) (w_now (snd s)) (app_db s) = Inr ((), app_db s1)"
      using 2(4) by (simp add: app_db_def)
    note cl = UpsertVarchiveLink_classes[OF up]
    from active_link_upsert[OF up inv] obtain l where
      l: "active_link_of (app_db s1) uid = Some l" "l_nickname l = va_nickname va" "l_user_no l = Some (va_user_no va)" by blast
    from assms(3) Inr 2(1) have sy: "syncUser (AllDjClasses http order) uid k (va_nickname va) s1 = Some (r, s')"
      by (simp add: Connect_def)
    note sc = syncUser_cases[OF ok1 sy]
    show ?thesis
    proof (cases r)
      case (Inl e)
      with sy have "\<exists>d. e = LStore d" by (simp add: syncUser_error)
      moreover have "app_db s' = app_db s1" using sc Inl by simp
      ultimately show ?thesis using Inl l cl \<open>LookupUser http token = Inr va\<close> by (cases e) (simp_all add: classes_of_def)
    next
      case (Inr res)
      have al: "active_link_of (app_db s') uid = Some l"
        using sc Inr l(1) by (cases "AllDjClasses http order (va_nickname va) = []") (simp_all add: active_link_of_def)
      have "op_step uid s1 s'"
        using syncUser_step[OF ok1, of "AllDjClasses http order" "va_nickname va"] unfolding sy by simp
      then have i': "db_inv (app_db s')" "(uid, k) \<in> set (user_keys (app_db s'))"
        using ok1(2) by (simp_all add: op_step_def app_ok_def only_user_def)
      obtain u :: user_row where "badge_of (app_db s') k = (if active_link_of (app_db s') uid = None then unlinked_result
                     else rows_result (map to_row (classes_of (app_db s') uid)) (u_preferred u))"
        by (rule badge_of_linked[OF i']) blast
      then have b: "badge_of (app_db s') k = rows_result (map to_row (classes_of (app_db s') uid)) (u_preferred u)"
        using al by simp
      have "sr_ok res \<longrightarrow> classes_of (app_db s') uid \<noteq> []"
        using sc Inr by (cases "AllDjClasses http order (va_nickname va) = []") (auto simp: empty_sync_def)
      then have "sr_ok res \<longrightarrow> Resolve (map to_row (classes_of (app_db s') uid)) None Auto \<noteq> None"
        by (simp add: Resolve_None_iff del: not_None_eq)
      then have "r_status (badge_of (app_db s') k) \<in> (if sr_ok res then {Linked} else {Linked, Unsynced})"
        unfolding b by (cases "Resolve (map to_row (classes_of (app_db s') uid)) None Auto") (simp_all add: rows_result_def)
      with l al \<open>LookupUser http token = Inr va\<close> show ?thesis unfolding Inr by simp
    qed
  qed
qed

text \<open>
  What chat shows for a viewer from a state on: any lookup, at any time and whatever statements fail, answers with the
  given status, or with a database error if some fail.
\<close>

definition chat_shows :: "app \<Rightarrow> string \<Rightarrow> result \<Rightarrow> bool" where
  "chat_shows s k res \<longleftrightarrow> (\<forall>t faults. \<exists>x s'.
     ResolveSender k (fst s, (snd s)\<lparr>w_now := t, w_faults := faults\<rparr>) = Some (x, s')
     \<and> (x = Inr res \<or> x = Inl ErrIO \<and> faults \<noteq> []))"

lemma resolve_quiet:
  assumes "w_faults w = []"
  shows "\<exists>res w1. resolve k w = (Inr res, w1)"
proof -
  have q: "run_stmt st w = (case st (w_now w) (w_db w) of Inl e \<Rightarrow> (Inl e, w) | Inr (a, d) \<Rightarrow> (Inr a, w\<lparr>w_db := d\<rparr>))"
    if "w_faults w = []" for st :: "'a stmt" and w
    using that by (simp add: run_stmt_def)
  show ?thesis
    using assms by (auto simp: resolve_def q GetUserByChzzkID_def one_def and_then_def HasActiveLink_def ListDjClasses_def return_ok_def
        split: option.split)
qed

lemma chat_shows_badge:
  assumes "app_ok s" "k \<noteq> ''''"
  shows "chat_shows s k (badge_of (app_db s) k)"
  unfolding chat_shows_def
proof (intro allI)
  fix t faults
  let ?s = "(fst s, (snd s)\<lparr>w_now := t, w_faults := faults\<rparr>)"
  have "coherent ?s" using assms(1) by (simp add: app_ok_def coherent_def)
  then obtain x s' where x: "ResolveSender k ?s = Some (x, s')"
    "case x of Inl e \<Rightarrow> e = ErrIO | Inr res \<Rightarrow> res = (if k = '''' then unlinked_result else badge_of (w_db (snd ?s)) k)"
    by (rule ResolveSender_coherent)
  moreover have "\<exists>r. x = Inr r" if "faults = []"
    using x(1) resolve_quiet[of "snd ?s" k] that assms(2)
    by (auto simp: ResolveSender_def split: option.splits)
  ultimately show "\<exists>x s'. ResolveSender k ?s = Some (x, s') \<and> (x = Inr (badge_of (app_db s) k) \<or> x = Inl ErrIO \<and> faults \<noteq> [])"
    using assms(2) by (cases x) (auto simp: app_db_def)
qed

text \<open>
  C26: Linking. A rejected or unreachable lookup changes nothing, and a failed write nothing or nothing but the link. When
  \<open>Connect\<close> succeeds, the viewer's link is active under the looked-up nickname and user number, and the cache never hides
  it: from then on every lookup of chat shows the viewer with the badges of the new rows, as linked if the first sync found classes, otherwise
  as linked or unsynced, and never as unlinked.
\<close>

theorem Connect_outcome:
  assumes "app_ok s" "(uid, k) \<in> set (user_keys (app_db s))"
    and "Connect (LookupUser http) (AllDjClasses http order) uid k token s = Some (r, s')"
  shows "(case r of
      Inl (LVArchive e) \<Rightarrow> s' = s \<and> LookupUser http token = Inl e
    | Inl e \<Rightarrow> \<exists>d. e = LStore d
        \<and> classes_of (app_db s') uid = classes_of (app_db s) uid
        \<and> (app_db s' = app_db s \<or> (\<exists>va l. LookupUser http token = Inr va \<and> active_link_of (app_db s') uid = Some l
            \<and> l_nickname l = va_nickname va \<and> l_user_no l = Some (va_user_no va)))
    | Inr res \<Rightarrow> \<exists>va l. LookupUser http token = Inr va \<and> active_link_of (app_db s') uid = Some l
        \<and> l_nickname l = va_nickname va \<and> l_user_no l = Some (va_user_no va)
        \<and> r_status (badge_of (app_db s') k) \<in> (if sr_ok res then {Linked} else {Linked, Unsynced}))
    \<and> (k \<noteq> '''' \<longrightarrow> chat_shows s' k (badge_of (app_db s') k))"
proof
  have "op_step uid s s'" using Connect_step[OF assms(1,2), of "LookupUser http" "AllDjClasses http order" token] assms(3) by auto
  then show "k \<noteq> '''' \<longrightarrow> chat_shows s' k (badge_of (app_db s') k)" by (simp add: op_step_def chat_shows_badge)
qed (rule Connect_cases[OF assms])

definition login_http :: http where
  \<open>login_http path bearer =
     (if path = ''/api/v2/open-token/user'' \<and> bearer = ''tok'' then Some (200, ''{"success":true,"userNo":42,"nickname":"a/b"}'')
      else sample_http path bearer)\<close>

theorem Connect_outcome_witness:
  "\<exists>res s' l. Connect (LookupUser login_http) (AllDjClasses login_http [0, 1, 2, 3]) 1 ''c1'' ''tok'' sample_app = Some (Inr res, s')
     \<and> active_link_of (app_db s') 1 = Some l \<and> l_nickname l = ''a/b'' \<and> l_user_no l = Some 42
     \<and> chat_shows s' ''c1'' (badge_of (app_db s') ''c1'')"
proof -
  let ?F = "AllDjClasses login_http [0, 1, 2, 3]"
  let ?va = "\<lparr>va_user_no = 42, va_nickname = ''a/b''\<rparr>"
  let ?c = "\<lparr>vc_button = 5, vc_class = ''PRO DJ I'', vc_power_sum = None, vc_max_power = None, vc_conversion = None\<rparr>"
  have lk: "LookupUser login_http ''tok'' = Inr ?va" by code_simp
  have f: "?F ''a/b'' = [?c]" by code_simp
  have "syncUser ?F 1 ''c1'' ''a/b'' = syncUser (\<lambda>n. [?c]) 1 ''c1'' ''a/b''"
    by (rule ext) (simp only: syncUser_def f)
  then have run: "Connect (LookupUser login_http) ?F 1 ''c1'' ''tok'' sample_app
      = Connect (\<lambda>t. Inr ?va) (\<lambda>n. [?c]) 1 ''c1'' ''tok'' sample_app"
    by (simp add: Connect_def lk del: One_nat_def split: option.split sum.split)
  obtain r s' where s': "Connect (LookupUser login_http) ?F 1 ''c1'' ''tok'' sample_app = Some (r, s')"
    using Connect_step[OF sample_app_ok(1,2)] by blast
  have "case fst (the (Connect (\<lambda>t. Inr ?va) (\<lambda>n. [?c]) 1 ''c1'' ''tok'' sample_app)) of Inl e \<Rightarrow> False | Inr x \<Rightarrow> True"
    by code_simp
  moreover from s' have "Connect (\<lambda>t. Inr ?va) (\<lambda>n. [?c]) 1 ''c1'' ''tok'' sample_app = Some (r, s')" by (simp only: run)
  ultimately have "case r of Inl e \<Rightarrow> False | Inr x \<Rightarrow> True" by (simp only: option.sel fst_conv)
  then obtain res where r: "r = Inr res" by (cases r) auto
  from Connect_outcome[OF sample_app_ok(1,2) s'] lk s' show ?thesis unfolding r by fastforce
qed

lemma find_deactivated:
  "find (\<lambda>l. l_user l = uid \<and> l_active l) (update_where (\<lambda>l. l_user l = uid) (\<lambda>l. l\<lparr>l_active := False, l_updated := t\<rparr>) ls) = None"
  by (induction ls) (simp_all add: update_where_def)

lemma deactivate_none:
  assumes "DeactivateLink uid t d = Inr (u, d')" shows "active_link_of d' uid = None \<and> db_classes d' = db_classes d"
proof -
  from assms have "d' = d\<lparr>db_links := update_where (\<lambda>l. l_user l = uid) (\<lambda>l. l\<lparr>l_active := False, l_updated := unixepoch t\<rparr>) (db_links d)\<rparr>"
    by (simp add: DeactivateLink_def)
  then show ?thesis by (simp add: active_link_of_def find_deactivated)
qed

lemma GetActiveLink_value: "GetActiveLink uid t d = (case active_link_of d uid of None \<Rightarrow> Inl ErrNoRows | Some l \<Rightarrow> Inr (l, d))"
  by (simp add: GetActiveLink_def active_link_of_def one_def)

abbreviation unlink_body :: "int \<Rightarrow> bool \<Rightarrow> unit act" where
  "unlink_body uid h \<equiv> and_then (run_stmt (DeactivateLink uid)) (\<lambda>u. and_then (run_stmt (DeleteDjClasses uid)) (\<lambda>u.
     run_stmt (set_preferred_button None uid)))"

definition unlinked_user :: "db \<Rightarrow> int \<Rightarrow> bool" where
  "unlinked_user d uid \<longleftrightarrow> active_link_of d uid = None \<and> classes_of d uid = []
     \<and> list_all (\<lambda>x. u_id x = uid \<longrightarrow> u_preferred x = None) (db_users d)"

lemma cleared_preference:
  "list_all (\<lambda>x. u_id x = uid \<longrightarrow> u_preferred x = None)
     (update_where (\<lambda>u. u_id u = uid) (\<lambda>u. u\<lparr>u_preferred := None\<rparr>) us)"
  by (induction us) (simp_all add: update_where_def)

lemma unlink_body_ok:
  assumes "unlink_body uid h w = (Inr u, w1)"
  shows "unlinked_user (w_db w1) uid"
proof -
  from and_then_ok[OF assms] obtain x1 wa where a: "run_stmt (DeactivateLink uid) w = (Inr x1, wa)"
    "and_then (run_stmt (DeleteDjClasses uid)) (\<lambda>u. run_stmt (set_preferred_button None uid)) wa = (Inr u, w1)" by auto
  from and_then_ok[OF a(2)] obtain x2 wb where b: "run_stmt (DeleteDjClasses uid) wa = (Inr x2, wb)"
    "run_stmt (set_preferred_button None uid) wb = (Inr u, w1)" by auto
  have 3: "active_link_of (w_db wa) uid = None" using deactivate_none[OF conjunct1[OF run_stmt_ok[OF a(1)]]] by simp
  have 4: "w_db wb = (w_db wa)\<lparr>db_classes := filter (\<lambda>r. dc_user r \<noteq> uid) (db_classes (w_db wa))\<rparr>"
    using run_stmt_ok[OF b(1)] by (simp add: DeleteDjClasses_def)
  have 5: "w_db w1 = (w_db wb)\<lparr>db_users := update_where (\<lambda>u. u_id u = uid) (\<lambda>u. u\<lparr>u_preferred := None\<rparr>) (db_users (w_db wb))\<rparr>"
    using run_stmt_ok[OF b(2)] by (simp add: set_preferred_button_def)
  have "active_link_of (w_db w1) uid = None" using 3 by (simp add: 4 5 active_link_of_def)
  moreover have "classes_of (w_db w1) uid = []" by (simp add: 4 5 classes_of_def filter_empty_conv)
  moreover have "list_all (\<lambda>x. u_id x = uid \<longrightarrow> u_preferred x = None) (db_users (w_db w1))"
    by (simp add: 5 cleared_preference)
  ultimately show ?thesis by (simp add: unlinked_user_def)
qed

lemma Unlink_cases:
  assumes "app_ok s" "(uid, k) \<in> set (user_keys (app_db s))" "Unlink uid k s = Some (Inr u, s')"
  shows "if active_link_of (app_db s) uid = None then app_db s' = app_db s else unlinked_user (app_db s') uid"
proof -
  obtain q s1 where q: "read_op (GetActiveLink uid) s = (q, s1)" "op_step uid s s1" "app_db s1 = app_db s"
    "case q of Inl e \<Rightarrow> e = ErrIO \<or> GetActiveLink uid (w_now (snd s)) (app_db s) = Inl e
             | Inr a \<Rightarrow> GetActiveLink uid (w_now (snd s)) (app_db s) = Inr (a, app_db s)"
    by (rule read_op_step[OF assms(1) read_queries(2), where uid = uid])
  show ?thesis
  proof (cases q)
    case (Inl e)
    with q(1) assms(3) have e: "e = ErrNoRows" "s' = s1" by (simp_all add: Unlink_def split: if_splits)
    with q(4) Inl have "active_link_of (app_db s) uid = None"
      by (simp add: GetActiveLink_value split: option.splits)
    with q(3) e show ?thesis by simp
  next
    case (Inr l)
    have wf: "keeps_act (unlink_body uid h)" "only_act uid (unlink_body uid h)" "steady (unlink_body uid h)" for h
      by (auto intro: stmt_intros frame_intros)
    have ok1: "app_ok s1" "(uid, k) \<in> set (user_keys (app_db s1))" using q(2) assms(2) by (simp_all add: op_step_def only_user_def)
    have tx: "write_then_invalidate (unlink_body uid) k s1 = Some (Inr u, s')" using q(1) Inr assms(3) by (simp add: Unlink_def)
    have was: "active_link_of (app_db s) uid \<noteq> None" using q(4) Inr by (simp add: GetActiveLink_value split: option.splits)
    show ?thesis
    proof (cases rule: write_then_invalidate_step[where body = "unlink_body uid", OF ok1 wf])
      case (1 e s2)
      with tx show ?thesis by simp
    next
      case (2 s2 w1)
      with tx unlink_body_ok[OF 2(3)] have "unlinked_user (app_db s') uid" by simp
      with was show ?thesis by (simp only: if_False)
    qed
  qed
qed

text \<open>
  C27: Unlinking. After a successful \<open>Unlink\<close> the viewer has no active link, and the cache never hides it: from then on
  every lookup of chat shows the viewer as unlinked. If there was an active link, the stored classes and
  the preference of the viewer are gone; if there was none, the database is as it was.
\<close>

theorem Unlink_outcome:
  assumes "app_ok s" "(uid, k) \<in> set (user_keys (app_db s))" "Unlink uid k s = Some (Inr u, s')"
  shows "active_link_of (app_db s') uid = None \<and> badge_of (app_db s') k = unlinked_result \<and> chat_shows s' k unlinked_result
    \<and> (if active_link_of (app_db s) uid = None then app_db s' = app_db s
       else classes_of (app_db s') uid = []
         \<and> list_all (\<lambda>x. u_id x = uid \<longrightarrow> u_preferred x = None) (db_users (app_db s')))"
proof -
  have "op_step uid s s'" using Unlink_step[OF assms(1,2)] assms(3) by auto
  then have i': "db_inv (app_db s')" "(uid, k) \<in> set (user_keys (app_db s'))"
    using assms(2) by (simp_all add: op_step_def app_ok_def only_user_def)
  obtain x :: user_row where "badge_of (app_db s') k = (if active_link_of (app_db s') uid = None then unlinked_result
                 else rows_result (map to_row (classes_of (app_db s') uid)) (u_preferred x))"
    by (rule badge_of_linked[OF i']) blast
  with Unlink_cases[OF assms] have b: "active_link_of (app_db s') uid = None" "badge_of (app_db s') k = unlinked_result"
    by (simp_all add: unlinked_user_def split: if_splits)
  have "chat_shows s' k unlinked_result"
  proof (cases "k = ''''")
    case True
    then show ?thesis by (simp add: chat_shows_def ResolveSender_def)
  next
    case False
    then show ?thesis using chat_shows_badge[of s' k] \<open>op_step uid s s'\<close> b(2) by (simp add: op_step_def)
  qed
  then show ?thesis using b Unlink_cases[OF assms] by (simp add: unlinked_user_def split: if_splits)
qed

theorem Unlink_outcome_witness:
  "\<exists>u s'. Unlink 1 ''c1'' sample_app = Some (Inr u, s') \<and> chat_shows s' ''c1'' unlinked_result"
proof -
  have "fst (the (Unlink 1 ''c1'' sample_app)) = Inr ()" by code_simp
  moreover obtain r s' where s': "Unlink 1 ''c1'' sample_app = Some (r, s')"
    using Unlink_step[OF sample_app_ok(1,2)] by blast
  ultimately have r: "r = Inr ()" by simp
  with s' Unlink_outcome[OF sample_app_ok(1,2) s'[unfolded r]] show ?thesis by blast
qed

lemma read_op_quiet: "w_faults (snd s) = [] \<Longrightarrow> q (w_now (snd s)) (app_db s) = Inr (a, app_db s) \<Longrightarrow> read_op q s = (Inr a, s)"
  by (cases s) (simp add: read_op_def run_stmt_def app_db_def)

end
