(* ===== verification/LinkCard.thy ===== *)
theory LinkCard
  imports Link
begin

text \<open>
  The preferred button and the /link card of \<open>internal/link/link.go\<close>: what
  \<open>SetPreferredButton\<close> accepts, and that the card offers exactly such choices and shows what the
  widget shows. The operations themselves are in \<open>Link\<close>.
\<close>

section \<open>The preferred button\<close>

text \<open>The choice a raw form value stands for: None if it is no choice, Some None for automatic.\<close>

definition choice_of :: "string \<Rightarrow> int option option" where
  "choice_of raw = (if raw = '''' \<or> raw = ''auto'' then Some None else map_option Some (parse_int64 raw))"

definition preference_is :: "int option \<Rightarrow> int \<Rightarrow> db \<Rightarrow> bool" where
  "preference_is p uid d \<longleftrightarrow> list_all (\<lambda>x. u_id x = uid \<longrightarrow> u_preferred x = p) (db_users d)"

lemma preference_stored:
  "set_preferred_button p uid t d = Inr (u, d') \<Longrightarrow>
     preference_is p uid d' \<and> db_links d' = db_links d \<and> db_classes d' = db_classes d"
proof -
  assume a: "set_preferred_button p uid t d = Inr (u, d')"
  have l: "list_all (\<lambda>x. u_id x = uid \<longrightarrow> u_preferred x = p)
      (update_where (\<lambda>u. u_id u = uid) (\<lambda>u. u\<lparr>u_preferred := p\<rparr>) us)" for us
    by (induction us) (simp_all add: update_where_def)
  from a have "d' = d\<lparr>db_users := update_where (\<lambda>u. u_id u = uid) (\<lambda>u. u\<lparr>u_preferred := p\<rparr>) (db_users d)\<rparr>"
    by (simp add: set_preferred_button_def split: if_splits)
  with l show ?thesis by (simp add: preference_is_def)
qed

lemma store_preference_cases:
  assumes "app_ok s" "(uid, k) \<in> set (user_keys (app_db s))" "store_preference p uid k s = Some (r, s')"
  shows "case r of Inl e \<Rightarrow> (\<exists>d. e = LStore d) \<and> app_db s' = app_db s
    | Inr u \<Rightarrow> preference_is p uid (app_db s') \<and> db_links (app_db s') = db_links (app_db s) \<and> db_classes (app_db s') = db_classes (app_db s)"
proof -
  let ?body = "\<lambda>h::bool. run_stmt (set_preferred_button p uid)"
  have wf: "keeps_act (?body h)" "only_act uid (?body h)" "steady (?body h)" for h
    by (auto intro: stmt_intros frame_intros)
  show ?thesis
  proof (cases rule: write_then_invalidate_step[where body = ?body, OF assms(1,2) wf])
    case (1 e s1)
    with assms(3) have "r = Inl (LStore e)" "s' = s1" by (simp_all add: store_preference_def)
    with 1 show ?thesis by simp
  next
    case (2 s1 w1)
    from run_stmt_ok[OF 2(3)] have "set_preferred_button p uid (w_now (snd s)) (app_db s) = Inr ((), app_db s1)"
      using 2(4) by (simp add: app_db_def)
    note stored = preference_stored[OF this]
    from 2(1) assms(3) have "r = Inr ()" "s' = s1" by (simp_all add: store_preference_def)
    with stored show ?thesis by simp
  qed
qed

lemma SetPreferredButton_cases:
  assumes "app_ok s" "(uid, k) \<in> set (user_keys (app_db s))" "SetPreferredButton uid k raw s = Some (r, s')"
  shows "case r of Inl e \<Rightarrow> app_db s' = app_db s
       \<and> (e = ErrInvalidButton \<longleftrightarrow> (\<nexists>d. e = LStore d))
       \<and> (e = ErrInvalidButton \<longrightarrow> (case choice_of raw of None \<Rightarrow> True | Some None \<Rightarrow> False
            | Some (Some n) \<Rightarrow> n \<notin> set (map dc_button (classes_of (app_db s) uid))))
    | Inr u \<Rightarrow> (\<exists>p. choice_of raw = Some p \<and> preference_is p uid (app_db s')
         \<and> (case p of None \<Rightarrow> True | Some n \<Rightarrow> n \<in> set (map dc_button (classes_of (app_db s) uid))))
       \<and> db_links (app_db s') = db_links (app_db s) \<and> db_classes (app_db s') = db_classes (app_db s)"
proof (cases "choice_of raw")
  case None
  then have "SetPreferredButton uid k raw s = Some (Inl ErrInvalidButton, s)"
    by (auto simp: choice_of_def SetPreferredButton_def split: if_splits)
  with assms(3) have "r = Inl ErrInvalidButton" "s' = s" by simp_all
  with None show ?thesis by simp
next
  case (Some p)
  show ?thesis
  proof (cases p)
    case None
    with Some have "SetPreferredButton uid k raw s = store_preference None uid k s"
      by (auto simp: choice_of_def SetPreferredButton_def split: if_splits)
    with assms(3) store_preference_cases[OF assms(1,2), of None r s'] Some None show ?thesis
      by (cases r) auto
  next
    case (Some n)
    with \<open>choice_of raw = Some p\<close> have raw: "parse_int64 raw = Some n" "raw \<noteq> ''''" "raw \<noteq> ''auto''"
      by (auto simp: choice_of_def split: if_splits)
    obtain q s1 where q: "read_op (ListDjClasses uid) s = (q, s1)" "op_step uid s s1" "app_db s1 = app_db s"
      "case q of Inl e \<Rightarrow> e = ErrIO \<or> ListDjClasses uid (w_now (snd s)) (app_db s) = Inl e
               | Inr a \<Rightarrow> ListDjClasses uid (w_now (snd s)) (app_db s) = Inr (a, app_db s)"
      by (rule read_op_step[OF assms(1) read_queries(1), where uid = uid])
    have ok1: "app_ok s1" "(uid, k) \<in> set (user_keys (app_db s1))" using q(2) assms(2) by (simp_all add: op_step_def only_user_def)
    show ?thesis
    proof (cases q)
      case (Inl e)
      with q(1) raw assms(3) have "r = Inl (LStore e)" "s' = s1" by (simp_all add: SetPreferredButton_def)
      with q(3) show ?thesis by simp
    next
      case (Inr rows)
      with q(4) have rows: "rows = classes_of (app_db s) uid" by (simp add: ListDjClasses_value)
      have run: "SetPreferredButton uid k raw s =
         (if n \<notin> set (map dc_button rows) then Some (Inl ErrInvalidButton, s1) else store_preference (Some n) uid k s1)"
        using q(1) Inr raw by (auto simp: SetPreferredButton_def list_ex_iff)
      show ?thesis
      proof (cases "n \<in> set (map dc_button rows)")
        case True
        with run assms(3) have "store_preference (Some n) uid k s1 = Some (r, s')" by simp
        from store_preference_cases[OF ok1 this] True rows q(3) \<open>choice_of raw = Some p\<close> \<open>p = Some n\<close> show ?thesis
          by (cases r) auto
      next
        case False
        with run assms(3) q(3) rows \<open>choice_of raw = Some p\<close> \<open>p = Some n\<close> show ?thesis by auto
      qed
    qed
  qed
qed

text \<open>
  the preferred button a viewer stores is automatic or one the viewer has a class for; any
  other input is refused as invalid, only such input is, and a refusal or an error changes nothing.
\<close>

theorem SetPreferredButton_outcome:
  assumes "app_ok s" "(uid, k) \<in> set (user_keys (app_db s))" "SetPreferredButton uid k raw s = Some (r, s')"
  shows "case r of Inl e \<Rightarrow> app_db s' = app_db s
       \<and> (e = ErrInvalidButton \<longrightarrow> (case choice_of raw of None \<Rightarrow> True | Some None \<Rightarrow> False
            | Some (Some n) \<Rightarrow> n \<notin> set (map dc_button (classes_of (app_db s) uid))))
    | Inr u \<Rightarrow> \<exists>p. choice_of raw = Some p \<and> preference_is p uid (app_db s')
         \<and> (case p of None \<Rightarrow> True | Some n \<Rightarrow> n \<in> set (map dc_button (classes_of (app_db s) uid)))"
  using SetPreferredButton_cases[OF assms] by (cases r) auto

theorem SetPreferredButton_outcome_witness:
  "\<exists>u s'. SetPreferredButton 1 ''c1'' ''8'' sample_app = Some (Inr u, s') \<and> preference_is (Some 8) 1 (app_db s')"
proof -
  have "fst (the (SetPreferredButton 1 ''c1'' ''8'' sample_app)) = Inr ()" by code_simp
  moreover obtain r s' where s': "SetPreferredButton 1 ''c1'' ''8'' sample_app = Some (r, s')"
    using SetPreferredButton_step[OF sample_app_ok(1,2)] by blast
  ultimately have r: "r = Inr ()" by simp
  have "choice_of ''8'' = Some (Some 8)" by code_simp
  with SetPreferredButton_outcome[OF sample_app_ok(1,2) s'] s' show ?thesis unfolding r by simp
qed

section \<open>The card\<close>

lemma itoa_button: "valid_button b \<Longrightarrow> parse_int64 (itoa b) = Some b \<and> itoa b \<noteq> '''' \<and> itoa b \<noteq> ''auto''"
proof -
  assume "valid_button b"
  then have p: "parse_int64 (itoa b) = Some b"
    by (intro parse_itoa) (auto simp: valid_button_def min_int64_def max_int64_def)
  moreover have "parse_int64 ''auto'' = None" by code_simp
  ultimately show ?thesis using itoa_not_empty by auto
qed

lemma Card_cases:
  assumes "app_ok s" "Card uid p s = (Inr c, s')"
  shows "app_db s' = app_db s \<and> (case active_link_of (app_db s) uid of
      None \<Rightarrow> c = empty_card
    | Some l \<Rightarrow> c = \<lparr>k_linked = True, k_nickname = l_nickname l,
        k_options = (if classes_of (app_db s) uid = [] then [] else card_options (map to_row (classes_of (app_db s) uid)) p)\<rparr>)"
proof -
  obtain q s1 where q: "read_op (GetActiveLink uid) s = (q, s1)" "op_step uid s s1" "app_db s1 = app_db s"
    "case q of Inl e \<Rightarrow> e = ErrIO \<or> GetActiveLink uid (w_now (snd s)) (app_db s) = Inl e
             | Inr a \<Rightarrow> GetActiveLink uid (w_now (snd s)) (app_db s) = Inr (a, app_db s)"
    by (rule read_op_step[OF assms(1) read_queries(2), where uid = uid])
  show ?thesis
  proof (cases q)
    case (Inl e)
    with q(1) assms(2) have "e = ErrNoRows" "c = empty_card" "s' = s1" by (simp_all add: Card_def split: if_splits)
    with q(3,4) Inl show ?thesis by (simp add: GetActiveLink_value split: option.splits)
  next
    case (Inr l)
    have ok1: "app_ok s1" using q(2) by (simp add: op_step_def)
    obtain q2 s2 where q2: "read_op (ListDjClasses uid) s1 = (q2, s2)" "app_db s2 = app_db s1"
      "case q2 of Inl e \<Rightarrow> e = ErrIO \<or> ListDjClasses uid (w_now (snd s1)) (app_db s1) = Inl e
                | Inr a \<Rightarrow> ListDjClasses uid (w_now (snd s1)) (app_db s1) = Inr (a, app_db s1)"
      by (rule read_op_step[OF ok1 read_queries(1), where uid = uid])
    with q Inr assms(2) show ?thesis
      by (cases q2) (auto simp: Card_def GetActiveLink_value ListDjClasses_value split: option.splits)
  qed
qed

lemma classes_of_buttons:
  assumes "db_inv d" shows "distinct (map dc_button (classes_of d uid))" "list_all (\<lambda>r. valid_button (dc_button r)) (classes_of d uid)"
proof -
  have "inj_on dc_button {r \<in> set (db_classes d). dc_user r = uid}" "distinct (db_classes d)"
    using assms by (auto simp: db_inv_def classes_ok_def distinct_map inj_on_def)
  then show "distinct (map dc_button (classes_of d uid))"
    by (auto simp: classes_of_def distinct_map)
  show "list_all (\<lambda>r. valid_button (dc_button r)) (classes_of d uid)"
    using assms by (auto simp: classes_of_def db_inv_def classes_ok_def list_all_iff)
qed

lemma checked_options:
  assumes "distinct (map row_button rows)" "list_all (\<lambda>r. valid_button (row_button r)) rows"
    and "case p of None \<Rightarrow> True | Some n \<Rightarrow> n \<in> set (map row_button rows)"
  shows "map o_value (filter o_checked (card_options rows p)) = [case p of None \<Rightarrow> ''auto'' | Some n \<Rightarrow> itoa n]"
proof (cases p)
  case (Some n)
  then obtain r where r: "r \<in> set rows" "row_button r = n" using assms(3) by auto
  then have "filter (\<lambda>r. n = row_button r) rows = [r]"
    using assms(1) by (induction rows) (auto simp: filter_empty_conv image_iff)
  with Some r show ?thesis by (simp add: card_options_def filter_map comp_def)
qed (simp add: card_options_def filter_map comp_def)

lemma card_values:
  "x \<in> set (card_options rows p) \<Longrightarrow> list_all (\<lambda>r. valid_button (row_button r)) rows \<Longrightarrow>
     \<exists>q. choice_of (o_value x) = Some q \<and> o_value x = (case q of None \<Rightarrow> ''auto'' | Some n \<Rightarrow> itoa n)
       \<and> (case q of None \<Rightarrow> True | Some n \<Rightarrow> n \<in> set (map row_button rows))"
  using itoa_button by (auto simp: card_options_def choice_of_def list_all_iff)

lemma rows_of_classes:
  assumes "db_inv d"
  shows "distinct (map row_button (map to_row (classes_of d uid)))"
    "list_all (\<lambda>r. valid_button (row_button r)) (map to_row (classes_of d uid))"
    "map row_button (map to_row (classes_of d uid)) = map dc_button (classes_of d uid)"
proof -
  show eq: "map row_button (map to_row (classes_of d uid)) = map dc_button (classes_of d uid)" by (simp add: to_row_def)
  then show "distinct (map row_button (map to_row (classes_of d uid)))" using classes_of_buttons(1)[OF assms] by (simp only:)
  show "list_all (\<lambda>r. valid_button (row_button r)) (map to_row (classes_of d uid))"
    using classes_of_buttons(2)[OF assms, of uid] by (simp add: list_all_iff to_row_def)
qed

text \<open>
  C25: every choice the card offers is accepted: storing it never answers "invalid", and the next
  card of that viewer has exactly this choice checked.
\<close>

theorem card_choice_roundtrip:
  assumes "app_ok s" "(uid, k) \<in> set (user_keys (app_db s))"
    and "Card uid p s = (Inr c, s1)" "x \<in> set (k_options c)"
    and "app_ok s1" "SetPreferredButton uid k (o_value x) s1 = Some (r, s2)"
  shows "case r of Inl e \<Rightarrow> e \<noteq> ErrInvalidButton
    | Inr u \<Rightarrow> \<exists>q. preference_is q uid (app_db s2)
        \<and> (\<forall>c2 s3. Card uid q s2 = (Inr c2, s3) \<longrightarrow> map o_value (filter o_checked (k_options c2)) = [o_value x])"
proof -
  note c = Card_cases[OF assms(1,3)]
  have same: "app_db s1 = app_db s" using c by simp
  from c assms(4) obtain l where l: "active_link_of (app_db s) uid = Some l" "classes_of (app_db s) uid \<noteq> []"
    "k_options c = card_options (map to_row (classes_of (app_db s) uid)) p"
    by (cases "active_link_of (app_db s) uid") (auto simp: empty_card_def split: if_splits)
  have inv: "db_inv (app_db s)" using assms(1) by (simp add: app_ok_def)
  from card_values[of x "map to_row (classes_of (app_db s) uid)" p] assms(4) l(3) rows_of_classes(2)[OF inv] obtain q where
    q: "choice_of (o_value x) = Some q" "o_value x = (case q of None \<Rightarrow> ''auto'' | Some n \<Rightarrow> itoa n)"
    "case q of None \<Rightarrow> True | Some n \<Rightarrow> n \<in> set (map row_button (map to_row (classes_of (app_db s) uid)))" by fastforce
  have q': "case q of None \<Rightarrow> True | Some n \<Rightarrow> n \<in> set (map dc_button (classes_of (app_db s) uid))"
    using q(3) unfolding rows_of_classes(3)[OF inv] .
  have keys1: "(uid, k) \<in> set (user_keys (app_db s1))" using assms(2) same by simp
  note cases = SetPreferredButton_cases[OF assms(5) keys1 assms(6)]
  show ?thesis
  proof (cases r)
    case (Inl e)
    with cases q(1) q' same show ?thesis by (cases q) auto
  next
    case (Inr u)
    with cases q(1) have pref: "preference_is q uid (app_db s2)"
      and frame: "db_links (app_db s2) = db_links (app_db s)" "db_classes (app_db s2) = db_classes (app_db s)"
      using same by auto
    have ok2: "app_ok s2" using SetPreferredButton_step[OF assms(5) keys1, of "o_value x"] assms(6) by (auto simp: op_step_def)
    have "map o_value (filter o_checked (k_options c2)) = [o_value x]" if "Card uid q s2 = (Inr c2, s3)" for c2 s3
    proof -
      have cl: "classes_of (app_db s2) uid = classes_of (app_db s) uid" using frame by (simp add: classes_of_def)
      from Card_cases[OF ok2 that] l(1,2) have "k_options c2 = card_options (map to_row (classes_of (app_db s) uid)) q"
        unfolding cl active_link_frame[OF frame(1)] by simp
      with checked_options[OF rows_of_classes(1,2)[OF inv] q(3)] q(2) show ?thesis by simp
    qed
    with pref Inr show ?thesis by auto
  qed
qed

lemma sample_rows: "active_link_of sample_db 1 = Some (hd (db_links sample_db))" "classes_of sample_db 1 = db_classes sample_db"
  by (simp_all add: active_link_of_def classes_of_def sample_db_def empty_db_def)

lemma card_offers: "r \<in> set rows \<Longrightarrow> itoa (row_button r) \<in> o_value ` set (card_options rows p)"
  by (simp add: card_options_def image_image)

lemma sample_card:
  "Card 1 p sample_app = (Inr \<lparr>k_linked = True, k_nickname = ''a/b'',
     k_options = card_options (map to_row (db_classes sample_db)) p\<rparr>, sample_app)"
proof -
  have f: "w_faults (snd sample_app) = []" by (simp add: sample_app_def new_app_def)
  have g: "read_op (GetActiveLink 1) sample_app = (Inr (hd (db_links sample_db)), sample_app)"
    using f by (rule read_op_quiet) (simp add: GetActiveLink_value sample_app_ok(3) sample_rows)
  have h: "read_op (ListDjClasses 1) sample_app = (Inr (db_classes sample_db), sample_app)"
    using f by (rule read_op_quiet) (simp add: ListDjClasses_value sample_app_ok(3) sample_rows)
  have "db_classes sample_db \<noteq> []" "l_nickname (hd (db_links sample_db)) = ''a/b''" by (simp_all add: sample_db_def)
  with g h show ?thesis by (simp add: Card_def)
qed

theorem card_choice_roundtrip_witness:
  "\<exists>c s1 x s2 q. Card 1 None sample_app = (Inr c, s1) \<and> x \<in> set (k_options c) \<and> o_value x = ''8''
     \<and> SetPreferredButton 1 ''c1'' (o_value x) s1 = Some (Inr (), s2) \<and> preference_is q 1 (app_db s2)"
proof -
  let ?c = "\<lparr>k_linked = True, k_nickname = ''a/b'', k_options = card_options (map to_row (db_classes sample_db)) None\<rparr>"
  note c = sample_card[of None]
  have i: "itoa 8 = ''8''" by code_simp
  have y: "to_row (db_classes sample_db ! 1) \<in> set (map to_row (db_classes sample_db))"
    "row_button (to_row (db_classes sample_db ! 1)) = 8" by (simp_all add: sample_db_def to_row_def)
  from card_offers[OF y(1), of None] have "''8'' \<in> o_value ` set (k_options ?c)"
    by (simp only: y(2) i card.select_convs)
  then obtain x where "''8'' = o_value x" and x: "x \<in> set (k_options ?c)" by (rule imageE)
  then have v: "o_value x = ''8''" by (simp only:)
  have "fst (the (SetPreferredButton 1 ''c1'' ''8'' sample_app)) = Inr ()" by code_simp
  moreover obtain r s2 where s2: "SetPreferredButton 1 ''c1'' (o_value x) sample_app = Some (r, s2)"
    using SetPreferredButton_step[OF sample_app_ok(1,2)] by blast
  ultimately have r: "r = Inr ()" by (simp only: v option.sel fst_conv)
  have "\<exists>q. preference_is q 1 (app_db s2)"
    using card_choice_roundtrip[OF sample_app_ok(1,2) c x sample_app_ok(1) s2] unfolding r sum.case
    by (elim exE conjE) (rule exI)
  then obtain q where q: "preference_is q 1 (app_db s2)" ..
  show ?thesis using s2 unfolding r by (intro exI conjI) (rule c, rule x, rule v, assumption, rule q)
qed

text \<open>
  C32: the card shows what the widget shows: for a viewer with classes, the badge of its first choice
  is the automatic badge of the chat, and the badge of the checked choice is the badge of the chat's viewer
  mode.
\<close>

theorem card_shows_widget_badges:
  assumes "app_ok s" "u \<in> set (db_users (app_db s))"
    and "Card (u_id u) (u_preferred u) s = (Inr c, s1)" "k_options c \<noteq> []"
  shows "\<exists>b. r_badge (badge_of (app_db s) (u_chzzk_id u)) = Some b \<and> o_badge (hd (k_options c)) = bs_auto b
    \<and> list_all (\<lambda>x. o_checked x \<longrightarrow> o_badge x = bs_viewer b) (k_options c)"
proof -
  let ?rows = "map to_row (classes_of (app_db s) (u_id u))" and ?p = "u_preferred u"
  have inv: "db_inv (app_db s)" using assms(1) by (simp add: app_ok_def)
  from Card_cases[OF assms(1,3)] assms(4) obtain l where l: "active_link_of (app_db s) (u_id u) = Some l"
    "?rows \<noteq> []" "k_options c = card_options ?rows ?p"
    by (cases "active_link_of (app_db s) (u_id u)") (auto simp: empty_card_def split: if_splits)
  have "find (\<lambda>x. u_chzzk_id x = u_chzzk_id u) (db_users (app_db s)) = Some u"
    using assms(2) inv by (intro find_unique) (auto simp: db_inv_def users_ok_def distinct_map inj_on_def)
  moreover have "list_ex (\<lambda>x. l_user x = u_id u \<and> l_active x) (db_links (app_db s))"
    using l(1) find_some_in by (fastforce simp: active_link_of_def list_ex_iff)
  ultimately have b: "badge_of (app_db s) (u_chzzk_id u) = rows_result ?rows ?p"
    by (simp add: badge_of_def classes_of_def)
  obtain auto where auto: "Resolve ?rows None Auto = Some auto" using l(2) Resolve_None_iff by fastforce
  let ?b = "\<lparr>bs_auto = BuildBadge auto, bs_viewer = BuildBadge (or_zero (Resolve ?rows ?p Viewer))\<rparr>"
  have r: "r_badge (badge_of (app_db s) (u_chzzk_id u)) = Some ?b" unfolding b by (simp add: rows_result_def auto)
  have hd: "o_badge (hd (k_options c)) = bs_auto ?b" by (simp add: l(3) card_options_def auto or_zero_def)
  have "o_badge x = bs_viewer ?b" if "x \<in> set (k_options c)" "o_checked x" for x
  proof (cases ?p)
    case None
    with that have "x = hd (k_options c)" by (auto simp: l(3) card_options_def)
    moreover have "Resolve ?rows ?p Viewer = Resolve ?rows None Auto" using None by (cases ?rows) (simp_all add: Resolve_def)
    ultimately show ?thesis using hd auto by (simp add: or_zero_def)
  next
    case (Some n)
    with that obtain y where y: "y \<in> set ?rows" "row_button y = n" "o_badge x = BuildBadge y"
      by (auto simp: l(3) card_options_def) blast
    have "find (\<lambda>r. row_button r = n) ?rows = Some y"
      using y rows_of_classes(1)[OF inv, of "u_id u"] by (intro find_unique) (auto simp: distinct_map inj_on_def)
    then have "Resolve ?rows ?p Viewer = Some y" using Some y(1) by (cases ?rows) (simp_all add: Resolve_def)
    with y(3) show ?thesis by (simp add: or_zero_def)
  qed
  with r hd show ?thesis by (auto simp: list_all_iff)
qed

theorem card_shows_widget_badges_witness:
  "\<exists>b. r_badge (badge_of sample_db ''c1'') = Some b
     \<and> o_badge (hd (card_options (map to_row (db_classes sample_db)) None)) = bs_auto b"
proof -
  let ?u = "hd (db_users sample_db)"
  have u: "?u \<in> set (db_users (app_db sample_app))" "u_id ?u = 1" "u_preferred ?u = None" "u_chzzk_id ?u = ''c1''"
    unfolding sample_app_ok(3) by (simp_all add: sample_db_def)
  have c: "Card (u_id ?u) (u_preferred ?u) sample_app = (Inr \<lparr>k_linked = True, k_nickname = ''a/b'',
     k_options = card_options (map to_row (db_classes sample_db)) None\<rparr>, sample_app)"
    unfolding u by (rule sample_card)
  have "k_options \<lparr>k_linked = True, k_nickname = ''a/b'', k_options = card_options (map to_row (db_classes sample_db)) None\<rparr> \<noteq> []"
    by (simp add: card_options_def)
  from card_shows_widget_badges[OF sample_app_ok(1) u(1) c this] show ?thesis
    unfolding u sample_app_ok(3) card.select_convs by blast
qed

end
