(* ===== verification/LinkSync.thy ===== *)
theory LinkSync
  imports Link
begin

text \<open>
  \<open>SyncAll\<close> of \<open>internal/link/link.go\<close>, the daily sync, under arbitrary faults of the database; without faults the
  result and the stored classes are determined by what V-ARCHIVE answers. The
  operation itself is in \<open>Link\<close>.
\<close>

section \<open>The daily sync of all links\<close>

text \<open>Without faults a statement sequence on an existing user succeeds.\<close>

definition quiet :: "world \<Rightarrow> bool" where
  "quiet w \<longleftrightarrow> w_faults w = []"

lemma run_stmt_quiet: "quiet w \<Longrightarrow> s (w_now w) (w_db w) = Inr (a, d) \<Longrightarrow> run_stmt s w = (Inr a, w\<lparr>w_db := d\<rparr>)"
  by (simp add: run_stmt_def quiet_def)

lemma upsert_class_succeeds:
  assumes "user_exists d uid" "valid_button b"
  shows "\<exists>d'. UpsertDjClass uid b cls ps mp cv t d = Inr ((), d') \<and> db_users d' = db_users d"
  using assms by (auto simp: UpsertDjClass_def split: option.split)

lemma upsert_classes_succeed:
  assumes "quiet w" "user_exists (w_db w) uid" "list_all (\<lambda>c. valid_button (vc_button c)) cs"
  shows "\<exists>w'. upsert_classes uid cs w = (Inr (), w') \<and> quiet w'"
  using assms
proof (induction cs arbitrary: w)
  case (Cons c cs)
  obtain d' where d': "UpsertDjClass uid (vc_button c) (vc_class c) (vc_power_sum c) (vc_max_power c) (vc_conversion c)
      (w_now w) (w_db w) = Inr ((), d')" "db_users d' = db_users (w_db w)"
    using upsert_class_succeeds[OF Cons.prems(2), of "vc_button c"] Cons.prems(3) by fastforce
  have "\<exists>w'. upsert_classes uid cs (w\<lparr>w_db := d'\<rparr>) = (Inr (), w') \<and> quiet w'"
    using Cons.prems d'(2) by (intro Cons.IH) (simp_all add: quiet_def user_exists_def)
  moreover have "run_stmt (UpsertDjClass uid (vc_button c) (vc_class c) (vc_power_sum c) (vc_max_power c) (vc_conversion c)) w
      = (Inr (), w\<lparr>w_db := d'\<rparr>)"
    by (rule run_stmt_quiet) (rule Cons.prems(1), rule d'(1))
  ultimately show ?case by (simp add: and_then_def)
qed (simp add: return_ok_def)

lemma WriteTx_quiet: "quiet w \<Longrightarrow> fn True w = (Inr a, w1) \<Longrightarrow> quiet w1 \<Longrightarrow> WriteTx False fn w = (Inr a, w1)"
  by (simp add: WriteTx_def quiet_def)

definition sync_body :: "int \<Rightarrow> va_class list \<Rightarrow> bool \<Rightarrow> unit act" where
  "sync_body uid cs h = and_then (run_stmt (DeleteDjClasses uid)) (\<lambda>u. upsert_classes uid cs)"

lemma sync_body_succeeds:
  assumes "quiet w" "user_exists (w_db w) uid" "list_all (\<lambda>c. valid_button (vc_button c)) cs"
  shows "\<exists>w'. sync_body uid cs h w = (Inr (), w') \<and> quiet w'"
proof -
  let ?d = "(w_db w)\<lparr>db_classes := filter (\<lambda>r. dc_user r \<noteq> uid) (db_classes (w_db w))\<rparr>"
  have "run_stmt (DeleteDjClasses uid) w = (Inr (), w\<lparr>w_db := ?d\<rparr>)"
    by (rule run_stmt_quiet[OF assms(1)]) (simp add: DeleteDjClasses_def)
  moreover have "\<exists>w'. upsert_classes uid cs (w\<lparr>w_db := ?d\<rparr>) = (Inr (), w') \<and> quiet w'"
    using assms by (intro upsert_classes_succeed) (simp_all add: quiet_def user_exists_def)
  ultimately show ?thesis by (simp add: sync_body_def and_then_def)
qed

lemma fetched_buttons: "list_all (\<lambda>c. valid_button (vc_button c)) (AllDjClasses http order nick)"
  using va.known_buttons by (fastforce simp: list_all_iff Buttons_def valid_button_def)

lemma syncUser_quiet:
  assumes "app_ok s" "(uid, k) \<in> set (user_keys (app_db s))" "quiet (snd s)"
  shows "\<exists>res s'. syncUser (AllDjClasses http order) uid k nick s = Some (Inr res, s') \<and> quiet (snd s')
     \<and> (sr_ok res \<longleftrightarrow> AllDjClasses http order nick \<noteq> [])"
proof (cases "AllDjClasses http order nick = []")
  case True
  have "read_op (ListDjClasses uid) s = (Inr (classes_of (app_db s) uid), s)"
    using assms(3) by (intro read_op_quiet) (simp_all add: quiet_def ListDjClasses_value)
  with True assms(3) show ?thesis by (simp add: syncUser_def empty_sync_def)
next
  case False
  let ?cs = "AllDjClasses http order nick"
  obtain c w where s: "s = (c, w)" by (cases s)
  have "user_exists (w_db w) uid" using assms(2) s by (auto simp: user_exists_def user_keys_def app_db_def)
  with assms(3) s fetched_buttons obtain w1 where w1: "sync_body uid ?cs True w = (Inr (), w1)" "quiet w1"
    using sync_body_succeeds by (metis snd_conv)
  have tx: "WriteTx False (sync_body uid ?cs) w = (Inr (), w1)"
    using assms(3) s w1 by (intro WriteTx_quiet) simp_all
  have wf: "keeps_act (sync_body uid ?cs h)" "only_act uid (sync_body uid ?cs h)" "steady (sync_body uid ?cs h)" for h
    unfolding sync_body_def by (auto intro: stmt_intros frame_intros)
  obtain r s' where r: "write_then_invalidate (sync_body uid ?cs) k s = Some (r, s')"
    using write_step[where body = "sync_body uid ?cs", OF assms(1,2) wf] by blast
  with tx s have "r = Inr () \<and> snd s' = w1" by (auto simp: write_then_invalidate_def InvalidateUser_def)
  moreover have "sync_body uid ?cs = (\<lambda>h. and_then (run_stmt (DeleteDjClasses uid)) (\<lambda>u. upsert_classes uid ?cs))"
    by (rule ext) (simp add: sync_body_def)
  ultimately show ?thesis using r w1(2) False by (simp add: syncUser_def Let_def)
qed

definition links_of :: "db \<Rightarrow> active_link list" where
  "links_of d = sort_key al_user
     (concat (map (\<lambda>l. map (\<lambda>u. \<lparr>al_user = l_user l, al_nickname = l_nickname l,
                                      al_chzzk_id = u_chzzk_id u, al_chzzk_nickname = u_nickname u\<rparr>)
                                (filter (\<lambda>u. u_id u = l_user l) (db_users d)))
                         (filter l_active (db_links d))))"

lemma ListActiveLinks_value: "ListActiveLinks t d = Inr (links_of d, d)"
  by (simp add: ListActiveLinks_def links_of_def)

lemma links_of_keys: "l \<in> set (links_of d) \<Longrightarrow> (al_user l, al_chzzk_id l) \<in> set (user_keys d)"
  by (auto simp: links_of_def user_keys_def intro: rev_image_eqI)

lemma filter_key_le1: "distinct (map k xs) \<Longrightarrow> length (filter (\<lambda>x. k x = a) xs) \<le> 1"
proof (induction xs)
  case (Cons x xs)
  show ?case
  proof (cases "k x = a")
    case True
    with Cons.prems have "filter (\<lambda>y. k y = a) xs = []" by (auto simp: filter_empty_conv image_iff)
    with True show ?thesis by simp
  qed (use Cons in simp)
qed simp

lemma links_of_distinct:
  assumes "db_inv d" shows "distinct (map al_user (links_of d))"
proof -
  let ?us = "\<lambda>l. filter (\<lambda>u. u_id u = l_user l) (db_users d)"
  let ?f = "\<lambda>l. map (\<lambda>u. \<lparr>al_user = l_user l, al_nickname = l_nickname l,
                             al_chzzk_id = u_chzzk_id u, al_chzzk_nickname = u_nickname u\<rparr>) (?us l)"
  have u: "distinct (map u_id (db_users d))" using assms by (simp add: db_inv_def users_ok_def)
  have "distinct (map al_user (concat (map ?f ls)))" if "distinct (map l_user ls)" for ls
    using that
  proof (induction ls)
    case (Cons l ls)
    have "length (?us l) \<le> 1" by (rule filter_key_le1[OF u])
    then have "distinct (map al_user (?f l))" by (cases "?us l") (auto simp: comp_def)
    moreover have "set (map al_user (?f l)) \<inter> set (map al_user (concat (map ?f ls))) = {}"
      using Cons.prems by auto
    ultimately show ?case using Cons by simp
  qed simp
  moreover have "distinct (map l_user (filter l_active (db_links d)))"
    using assms by (simp add: db_inv_def links_ok_def distinct_map_filter)
  ultimately have "distinct (map al_user (concat (map ?f (filter l_active (db_links d)))))" by blast
  then show ?thesis by (simp add: links_of_def distinct_map)
qed

text \<open>
  What the turn of one link leaves: a success has stored exactly what V-ARCHIVE has, a failure the classes there were.
\<close>

definition turn_done :: "db \<Rightarrow> db \<Rightarrow> va_class list \<Rightarrow> active_link \<Rightarrow> bool \<Rightarrow> bool" where
  "turn_done d d' fetched l ok \<longleftrightarrow>
     (if ok then fetched \<noteq> [] \<and> map class_payload (classes_of d' (al_user l)) = map va_payload fetched
      else classes_of d' (al_user l) = classes_of d (al_user l))"

lemma turn_done_frame:
  assumes "user_rows d2 (al_user l) = user_rows d1 (al_user l)"
  shows "turn_done d d1 f l ok \<Longrightarrow> turn_done d d2 f l ok" "turn_done d1 d' f l ok \<Longrightarrow> turn_done d2 d' f l ok"
  using assms by (simp_all add: turn_done_def classes_of_def user_rows_def split: if_splits)

lemma sync_turn:
  assumes "app_ok s" "(al_user l, al_chzzk_id l) \<in> set (user_keys (app_db s))"
  obtains r ok s1 where "syncUser (AllDjClasses http order) (al_user l) (al_chzzk_id l) (al_nickname l) s = Some (r, s1)"
    "ok \<longleftrightarrow> (case r of Inl e \<Rightarrow> False | Inr res \<Rightarrow> sr_ok res)" "op_step (al_user l) s s1"
    "db_users (app_db s1) = db_users (app_db s)" "db_links (app_db s1) = db_links (app_db s)"
    "turn_done (app_db s) (app_db s1) (AllDjClasses http order (al_nickname l)) l ok"
    "quiet (snd s) \<longrightarrow> quiet (snd s1) \<and> (ok \<longleftrightarrow> AllDjClasses http order (al_nickname l) \<noteq> [])"
proof -
  obtain r s1 where r: "syncUser (AllDjClasses http order) (al_user l) (al_chzzk_id l) (al_nickname l) s = Some (r, s1)"
    "op_step (al_user l) s s1" using syncUser_step[OF assms] by blast
  note c = syncUser_cases[OF assms r(1)]
  show ?thesis
  proof (rule that[OF r(1) refl r(2)])
    show "db_users (app_db s1) = db_users (app_db s)" "db_links (app_db s1) = db_links (app_db s)"
      using c by (auto split: sum.splits if_splits)
    show "turn_done (app_db s) (app_db s1) (AllDjClasses http order (al_nickname l)) l (case r of Inl e \<Rightarrow> False | Inr res \<Rightarrow> sr_ok res)"
      using c by (auto simp: turn_done_def empty_sync_def split: sum.splits if_splits)
    show "quiet (snd s) \<longrightarrow> quiet (snd s1)
        \<and> ((case r of Inl e \<Rightarrow> False | Inr res \<Rightarrow> sr_ok res) \<longleftrightarrow> AllDjClasses http order (al_nickname l) \<noteq> [])"
      using syncUser_quiet[OF assms, of http order "al_nickname l"] r(1) by auto
  qed
qed

text \<open>The loop over the links, whatever fails.\<close>

lemma sync_links_outcome:
  fixes http :: http and order :: "nat list"
  assumes "app_ok s" "distinct (map al_user ls)"
    and "\<And>l. l \<in> set ls \<Longrightarrow> (al_user l, al_chzzk_id l) \<in> set (user_keys (app_db s))"
  defines "F \<equiv> \<lambda>l. AllDjClasses http order (al_nickname l)"
  shows "\<exists>oks s'. sync_links (AllDjClasses http order) alive ls s = Some ((count_list oks True, count_list oks False), s')
      \<and> app_ok s' \<and> db_users (app_db s') = db_users (app_db s) \<and> db_links (app_db s') = db_links (app_db s)
      \<and> (\<forall>v. v \<notin> al_user ` set (take alive ls) \<longrightarrow> user_rows (app_db s') v = user_rows (app_db s) v)
      \<and> list_all2 (\<lambda>l ok. turn_done (app_db s) (app_db s') (F l) l ok) (take alive ls) oks
      \<and> (quiet (snd s) \<longrightarrow> oks = map (\<lambda>l. F l \<noteq> []) (take alive ls))"
  using assms(1-3)
proof (induction alive arbitrary: ls s)
  case 0
  then show ?case by (cases ls) simp_all
next
  case (Suc alive)
  show ?case
  proof (cases ls)
    case Nil
    with Suc.prems show ?thesis by simp
  next
    case (Cons l rest)
    have key: "(al_user l, al_chzzk_id l) \<in> set (user_keys (app_db s))" using Suc.prems(3) Cons by simp
    obtain r ok s1 where t: "syncUser (AllDjClasses http order) (al_user l) (al_chzzk_id l) (al_nickname l) s = Some (r, s1)"
      "ok \<longleftrightarrow> (case r of Inl e \<Rightarrow> False | Inr res \<Rightarrow> sr_ok res)" "op_step (al_user l) s s1"
      "db_users (app_db s1) = db_users (app_db s)" "db_links (app_db s1) = db_links (app_db s)"
      "turn_done (app_db s) (app_db s1) (F l) l ok" "quiet (snd s) \<longrightarrow> quiet (snd s1) \<and> (ok \<longleftrightarrow> F l \<noteq> [])"
      unfolding F_def by (rule sync_turn[OF Suc.prems(1) key, of http order])
    have ok1: "app_ok s1" and fr: "v \<noteq> al_user l \<Longrightarrow> user_rows (app_db s1) v = user_rows (app_db s) v" for v
      using t(3) by (simp_all add: op_step_def only_user_def)
    from Suc.IH[OF ok1, of rest] Suc.prems(2,3) Cons op_step_keys[OF t(3)] obtain oks s' where
      s': "sync_links (AllDjClasses http order) alive rest s1 = Some ((count_list oks True, count_list oks False), s')"
      "app_ok s'" "db_users (app_db s') = db_users (app_db s1)" "db_links (app_db s') = db_links (app_db s1)"
      "\<And>v. v \<notin> al_user ` set (take alive rest) \<Longrightarrow> user_rows (app_db s') v = user_rows (app_db s1) v"
      "list_all2 (\<lambda>l ok. turn_done (app_db s1) (app_db s') (F l) l ok) (take alive rest) oks"
      "quiet (snd s1) \<longrightarrow> oks = map (\<lambda>l. F l \<noteq> []) (take alive rest)" by auto
    have notin: "al_user l \<notin> al_user ` set (take alive rest)"
      using Suc.prems(2) Cons by (auto dest: in_set_takeD)
    have "turn_done (app_db s) (app_db s') (F l) l ok"
      using turn_done_frame(1)[OF s'(5)[OF notin]] t(6) by blast
    moreover have "list_all2 (\<lambda>l ok. turn_done (app_db s) (app_db s') (F l) l ok) (take alive rest) oks"
    proof (rule list.rel_mono_strong[OF s'(6)])
      fix x okx assume x: "x \<in> set (take alive rest)" "turn_done (app_db s1) (app_db s') (F x) x okx"
      then have "al_user x \<noteq> al_user l" using notin by (metis image_eqI)
      then show "turn_done (app_db s) (app_db s') (F x) x okx" using turn_done_frame(2)[OF fr[symmetric]] x(2) by blast
    qed
    moreover have "sync_links (AllDjClasses http order) (Suc alive) ls s = Some ((count_list (ok # oks) True, count_list (ok # oks) False), s')"
      using t(1,2) s'(1) Cons by (cases r) simp_all
    moreover have "user_rows (app_db s') v = user_rows (app_db s) v" if "v \<notin> al_user ` set (take (Suc alive) ls)" for v
      using that s'(5)[of v] fr[of v] Cons by simp
    moreover have "quiet (snd s) \<longrightarrow> ok # oks = map (\<lambda>l. F l \<noteq> []) (take (Suc alive) ls)"
      using t(7) s'(7) Cons by simp
    ultimately show ?thesis using s'(2-4) t(4,5) Cons by (intro exI[of _ "ok # oks"] exI[of _ s']) simp
  qed
qed

text \<open>
  C28: The daily sync. Whatever statements fail, it either could not list the links and changes nothing, or it
  gives every active link its turn, up to the one at which its context ends; no failure stops it, and the successes and
  failures it counts are exactly those turns. A success has replaced the viewer's classes by what V-ARCHIVE has, which is
  not nothing; a failure leaves the classes there were; users, links and everybody not visited stay as they are. If
  no statement fails, the listing works and the successes are exactly the links V-ARCHIVE has classes for.
\<close>

theorem SyncAll_outcome:
  assumes "app_ok s"
  shows "\<exists>n s'. SyncAll (AllDjClasses http order) alive s = Some (n, s') \<and> app_ok s'
    \<and> (n = (0, 0) \<and> app_db s' = app_db s \<and> \<not> quiet (snd s)
      \<or> (\<exists>oks. n = (count_list oks True, count_list oks False)
          \<and> list_all2 (\<lambda>l ok. turn_done (app_db s) (app_db s') (AllDjClasses http order (al_nickname l)) l ok)
              (take alive (links_of (app_db s))) oks
          \<and> db_users (app_db s') = db_users (app_db s) \<and> db_links (app_db s') = db_links (app_db s)
          \<and> (\<forall>v. v \<notin> al_user ` set (take alive (links_of (app_db s))) \<longrightarrow> user_rows (app_db s') v = user_rows (app_db s) v)
          \<and> (quiet (snd s) \<longrightarrow> oks = map (\<lambda>l. AllDjClasses http order (al_nickname l) \<noteq> []) (take alive (links_of (app_db s))))))"
proof -
  obtain q s1 where q: "read_op ListActiveLinks s = (q, s1)" "op_step 0 s s1" "app_db s1 = app_db s"
    "case q of Inl e \<Rightarrow> e = ErrIO \<or> ListActiveLinks (w_now (snd s)) (app_db s) = Inl e
             | Inr a \<Rightarrow> ListActiveLinks (w_now (snd s)) (app_db s) = Inr (a, app_db s)"
    by (rule read_op_step[OF assms read_queries(3), where uid = 0])
  have ok1: "app_ok s1" using q(2) by (simp add: op_step_def)
  have "quiet (snd s) \<Longrightarrow> read_op ListActiveLinks s = (Inr (links_of (app_db s)), s)"
    by (rule read_op_quiet) (simp_all add: quiet_def ListActiveLinks_value)
  then have quiet: "quiet (snd s) \<Longrightarrow> q = Inr (links_of (app_db s)) \<and> s1 = s" using q(1) by simp
  show ?thesis
  proof (cases q)
    case (Inl e)
    then have "\<not> quiet (snd s)" using quiet by auto
    then show ?thesis using Inl q ok1 by (simp add: SyncAll_def)
  next
    case (Inr ls)
    then have ls: "ls = links_of (app_db s)" using q(4) by (simp add: ListActiveLinks_value)
    have "distinct (map al_user ls)" unfolding ls using assms by (intro links_of_distinct) (simp add: app_ok_def)
    from sync_links_outcome[OF ok1 this, of http order alive] obtain oks s' where
      "sync_links (AllDjClasses http order) alive ls s1 = Some ((count_list oks True, count_list oks False), s')"
      "app_ok s'" "db_users (app_db s') = db_users (app_db s)" "db_links (app_db s') = db_links (app_db s)"
      "\<forall>v. v \<notin> al_user ` set (take alive ls) \<longrightarrow> user_rows (app_db s') v = user_rows (app_db s) v"
      "list_all2 (\<lambda>l ok. turn_done (app_db s) (app_db s') (AllDjClasses http order (al_nickname l)) l ok) (take alive ls) oks"
      "quiet (snd s1) \<longrightarrow> oks = map (\<lambda>l. AllDjClasses http order (al_nickname l) \<noteq> []) (take alive ls)"
      using links_of_keys unfolding q(3) ls by auto
    moreover have "SyncAll (AllDjClasses http order) alive s = sync_links (AllDjClasses http order) alive ls s1"
      by (simp add: SyncAll_def q(1) Inr)
    ultimately show ?thesis using quiet unfolding ls by auto
  qed
qed

theorem SyncAll_outcome_witness:
  "\<exists>s'. SyncAll (AllDjClasses no_http [0, 1, 2, 3]) 5 sample_app = Some ((0, 1), s') \<and> app_ok s'
     \<and> map class_payload (classes_of (app_db s') 1) = map class_payload (classes_of (app_db sample_app) 1)"
proof -
  have none: "AllDjClasses no_http [0, 1, 2, 3] ''a/b'' = []" by code_simp
  have l: "map (\<lambda>l. (al_nickname l, al_user l)) (links_of (app_db sample_app)) = [(''a/b'', 1)]"
    unfolding sample_app_ok(3) by (simp add: links_of_def sample_db_def empty_db_def)
  then obtain x where x: "links_of (app_db sample_app) = [x]" "al_nickname x = ''a/b''" "al_user x = 1" by auto
  have q: "quiet (snd sample_app)" by (simp add: quiet_def sample_app_def new_app_def)
  from SyncAll_outcome[OF sample_app_ok(1), of no_http "[0, 1, 2, 3]" 5] x none q show ?thesis
    by (auto simp: turn_done_def)
qed

end
