(* ===== verification/Hub.thy ===== *)
theory Hub
  imports Resolver "HOL-Library.Multiset"
begin

text \<open>
  \<open>internal/realtime/hub.go\<close>: subscriptions of widgets to channels, the teardown of idle channels,
  the flush that resolves badges and fans batches out, and the shutdown.

  The hub is a state machine. Channel objects, subscriptions and timers are created once and
  never freed, so each lives in a list and a pointer is an index. One event is one critical
  section of \<open>Hub.mu\<close>, one receive or send on a Go channel, or one step of a goroutine between
  them, so every interleaving of the goroutines is a list of events. A stopped timer never
  runs; a timer that has fired has a callback waiting for the mutex, which \<open>Stop\<close> does not
  undo. \<open>hb_panic\<close> records a send on a closed Go channel or a second \<open>close\<close> of one.
\<close>

section \<open>State\<close>

record chat_message =
  cm_channel :: string
  cm_sender :: string
  cm_nickname :: string
  cm_content :: string
  cm_time :: int
  cm_emojis :: "(string \<times> string) list option"

record batch_message =
  bm_id :: int
  bm_text :: string
  bm_emojis :: "(string \<times> string) list"
  bm_status :: status
  bm_badge :: "badges option"
  bm_nickname :: string

text \<open>Where the flush goroutine of a channel is.\<close>

datatype flush =
    FIdle
  | FDrained "chat_message list"
  | FBuilding "nat list" "chat_message list" "(string \<times> result) list" "batch_message list"
  | FSending "nat list" "batch_message list"
  | FExited

record channel =
  hc_id :: string
  hc_subs :: "nat list"
  hc_teardown :: "nat option"
  hc_buffer :: "chat_message list"
  hc_cancelled :: bool
  hc_ingest_done :: bool
  hc_flush :: flush

record subscription =
  sb_ch :: nat
  sb_queue :: "batch_message list list"
  sb_got :: "batch_message list list"
  sb_closed :: bool

datatype timer_state = Armed | Fired | Over

record timer =
  tm_ch :: nat
  tm_state :: timer_state

record hub =
  hb_max_channel :: int
  hb_max_total :: int
  hb_closed :: bool
  hb_channels :: "(string \<times> nat) list"
  hb_total :: int
  hb_heap :: "channel list"
  hb_subs :: "subscription list"
  hb_timers :: "timer list"
  hb_next_id :: int
  hb_cancelled :: bool
  hb_closing :: "nat list option"
  hb_panic :: bool

definition maxBatch :: nat where "maxBatch = 200"
definition subscriberBuffer :: nat where "subscriberBuffer = 64"
definition defaultMaxPerChannel :: int where "defaultMaxPerChannel = 10"
definition defaultMaxTotal :: int where "defaultMaxTotal = 1000"

definition hub_new :: "int \<Rightarrow> int \<Rightarrow> hub" where
  "hub_new maxPerChannel maxTotal =
     \<lparr>hb_max_channel = (if maxPerChannel = 0 then defaultMaxPerChannel else maxPerChannel),
      hb_max_total = (if maxTotal = 0 then defaultMaxTotal else maxTotal),
      hb_closed = False, hb_channels = [], hb_total = 0, hb_heap = [], hb_subs = [], hb_timers = [],
      hb_next_id = 0, hb_cancelled = False, hb_closing = None, hb_panic = False\<rparr>"

definition modify_at :: "nat \<Rightarrow> ('a \<Rightarrow> 'a) \<Rightarrow> 'a list \<Rightarrow> 'a list" where
  "modify_at i f xs = xs[i := f (xs ! i)]"

definition modify_each :: "nat list \<Rightarrow> ('a \<Rightarrow> 'a) \<Rightarrow> 'a list \<Rightarrow> 'a list" where
  "modify_each idx f xs = fold (\<lambda>i. modify_at i f) idx xs"

abbreviation chan_at :: "hub \<Rightarrow> nat \<Rightarrow> channel" where
  "chan_at h i \<equiv> hb_heap h ! i"

section \<open>Subscribing\<close>

datatype hub_error = ErrClosed | ErrTooManySubscribers

definition fresh_channel :: "string \<Rightarrow> channel" where
  "fresh_channel cid = \<lparr>hc_id = cid, hc_subs = [], hc_teardown = None, hc_buffer = [],
     hc_cancelled = False, hc_ingest_done = False, hc_flush = FIdle\<rparr>"

definition startChannel :: "string \<Rightarrow> hub \<Rightarrow> nat \<times> hub" where
  "startChannel cid h =
     (length (hb_heap h), h\<lparr>hb_heap := hb_heap h @ [fresh_channel cid]\<rparr>)"

text \<open>\<open>Timer.Stop\<close>.\<close>

definition stop_timer :: "timer \<Rightarrow> timer" where
  "stop_timer t = (if tm_state t = Armed then t\<lparr>tm_state := Over\<rparr> else t)"

definition stop_teardown :: "nat \<Rightarrow> hub \<Rightarrow> hub" where
  "stop_teardown i h =
     (case hc_teardown (chan_at h i) of None \<Rightarrow> h
      | Some t \<Rightarrow> h\<lparr>hb_timers := modify_at t stop_timer (hb_timers h),
                    hb_heap := modify_at i (\<lambda>c. c\<lparr>hc_teardown := None\<rparr>) (hb_heap h)\<rparr>)"

definition add_sub :: "nat \<Rightarrow> hub \<Rightarrow> nat \<times> hub" where
  "add_sub i h =
     (let s = length (hb_subs h) in
      (s, h\<lparr>hb_subs := hb_subs h @ [\<lparr>sb_ch = i, sb_queue = [], sb_got = [], sb_closed = False\<rparr>],
            hb_heap := modify_at i (\<lambda>c. c\<lparr>hc_subs := s # hc_subs c\<rparr>) (hb_heap h),
            hb_total := hb_total h + 1\<rparr>))"

definition Subscribe :: "string \<Rightarrow> hub \<Rightarrow> (hub_error + nat) \<times> hub" where
  "Subscribe channelID h =
     (if hb_closed h then (Inl ErrClosed, h)
      else let found = map_of (hb_channels h) channelID in
        if hb_max_total h \<le> hb_total h
           \<or> (case found of None \<Rightarrow> False | Some i \<Rightarrow> hb_max_channel h \<le> int (length (hc_subs (chan_at h i))))
        then (Inl ErrTooManySubscribers, h)
        else
          (let (i, h1) = (case found of
                 Some i \<Rightarrow> (i, h)
               | None \<Rightarrow> (let (i, h1) = startChannel channelID h in
                          (i, h1\<lparr>hb_channels := AList.update channelID i (hb_channels h1)\<rparr>)));
               (s, h3) = add_sub i (stop_teardown i h1)
           in (Inr s, h3)))"

section \<open>Unsubscribing and teardown\<close>

definition Unsubscribe :: "nat \<Rightarrow> hub \<Rightarrow> hub" where
  "Unsubscribe s h =
     (let i = sb_ch (hb_subs h ! s) in
      if s \<notin> set (hc_subs (chan_at h i)) then h
      else
        (let h1 = h\<lparr>hb_heap := modify_at i (\<lambda>c. c\<lparr>hc_subs := remove1 s (hc_subs c)\<rparr>) (hb_heap h),
                    hb_total := hb_total h - 1\<rparr> in
         if hc_subs (chan_at h1 i) \<noteq> [] \<or> hb_closed h1 then h1
         else h1\<lparr>hb_heap := modify_at i (\<lambda>c. c\<lparr>hc_teardown := Some (length (hb_timers h1))\<rparr>) (hb_heap h1),
                 hb_timers := hb_timers h1 @ [\<lparr>tm_ch = i, tm_state = Armed\<rparr>]\<rparr>))"

definition timer_fires :: "nat \<Rightarrow> hub \<Rightarrow> hub" where
  "timer_fires t h = h\<lparr>hb_timers := modify_at t (\<lambda>x. x\<lparr>tm_state := Fired\<rparr>) (hb_timers h)\<rparr>"

text \<open>The callback of the teardown timer.\<close>

definition teardown_callback :: "nat \<Rightarrow> hub \<Rightarrow> hub" where
  "teardown_callback t h =
     (let i = tm_ch (hb_timers h ! t);
          h1 = h\<lparr>hb_timers := modify_at t (\<lambda>x. x\<lparr>tm_state := Over\<rparr>) (hb_timers h)\<rparr> in
      if hc_subs (chan_at h1 i) = [] \<and> map_of (hb_channels h1) (hc_id (chan_at h1 i)) = Some i
      then h1\<lparr>hb_channels := AList.delete (hc_id (chan_at h1 i)) (hb_channels h1),
              hb_heap := modify_at i (\<lambda>c. c\<lparr>hc_cancelled := True\<rparr>) (hb_heap h1)\<rparr>
      else h1)"

section \<open>Messages and flushing\<close>

definition push :: "nat \<Rightarrow> chat_message \<Rightarrow> hub \<Rightarrow> hub" where
  "push i m h = h\<lparr>hb_heap := modify_at i (\<lambda>c. c\<lparr>hc_buffer := hc_buffer c @ [m]\<rparr>) (hb_heap h)\<rparr>"

definition Inject :: "string \<Rightarrow> chat_message \<Rightarrow> hub \<Rightarrow> bool \<times> hub" where
  "Inject channelID m h =
     (case map_of (hb_channels h) channelID of None \<Rightarrow> (False, h) | Some i \<Rightarrow> (True, push i m h))"

definition set_flush :: "nat \<Rightarrow> flush \<Rightarrow> hub \<Rightarrow> hub" where
  "set_flush i f h = h\<lparr>hb_heap := modify_at i (\<lambda>c. c\<lparr>hc_flush := f\<rparr>) (hb_heap h)\<rparr>"

definition drain :: "nat \<Rightarrow> hub \<Rightarrow> hub" where
  "drain i h =
     (let raw = hc_buffer (chan_at h i);
          h1 = h\<lparr>hb_heap := modify_at i (\<lambda>c. c\<lparr>hc_buffer := []\<rparr>) (hb_heap h)\<rparr> in
      if raw = [] then h1 else set_flush i (FDrained raw) h1)"

text \<open>
  The list of subscribers is made by ranging over a Go map: \<open>subs\<close> is the order the runtime chose,
  some arrangement of the channel's set of subscribers (checked in \<open>hub_step\<close>).
\<close>

definition snapshot_subs :: "nat \<Rightarrow> nat list \<Rightarrow> chat_message list \<Rightarrow> hub \<Rightarrow> hub" where
  "snapshot_subs i subs raw h =
     (if subs = [] then set_flush i FIdle h
      else set_flush i (FBuilding subs (take maxBatch raw) [] []) h)"

text \<open>
  One turn of the loop of \<open>buildBatch\<close>: \<open>answer\<close> is what the resolver returns for the sender (None for
  an error), read only when the sender was not seen before in this batch.
\<close>

definition unlinked_sender :: result where
  "unlinked_sender = \<lparr>r_status = Unlinked, r_badge = None\<rparr>"

definition sender_result ::
  "(string \<times> result) list \<Rightarrow> string \<Rightarrow> result option \<Rightarrow> result \<times> (string \<times> result) list" where
  "sender_result seen sender answer =
     (case map_of seen sender of
        Some res \<Rightarrow> (res, seen)
      | None \<Rightarrow>
          (let res = (case answer of None \<Rightarrow> unlinked_sender | Some r \<Rightarrow> r) in
           (res, AList.update sender res seen)))"

definition batch_line :: "int \<Rightarrow> chat_message \<Rightarrow> result \<Rightarrow> batch_message" where
  "batch_line i m res =
     \<lparr>bm_id = i, bm_text = cm_content m,
      bm_emojis = (case cm_emojis m of None \<Rightarrow> [] | Some e \<Rightarrow> e),
      bm_status = r_status res, bm_badge = r_badge res, bm_nickname = cm_nickname m\<rparr>"

definition build_one ::
  "nat \<Rightarrow> nat list \<Rightarrow> chat_message \<Rightarrow> chat_message list \<Rightarrow> (string \<times> result) list \<Rightarrow> batch_message list \<Rightarrow> result option \<Rightarrow> hub \<Rightarrow> hub" where
  "build_one i subs m ms seen msgs answer h =
     (let (res, seen') = sender_result seen (cm_sender m) answer;
          n = hb_next_id h + 1
      in set_flush i (FBuilding subs ms seen' (msgs @ [batch_line n m res])) (h\<lparr>hb_next_id := n\<rparr>))"

text \<open>The non-blocking send to one subscriber.\<close>

definition send_one :: "nat \<Rightarrow> nat \<Rightarrow> nat list \<Rightarrow> batch_message list \<Rightarrow> hub \<Rightarrow> hub" where
  "send_one i s ss data h =
     (if sb_closed (hb_subs h ! s) then h\<lparr>hb_panic := True\<rparr>
      else set_flush i (FSending ss data)
        (if length (sb_queue (hb_subs h ! s)) < subscriberBuffer
         then h\<lparr>hb_subs := modify_at s (\<lambda>b. b\<lparr>sb_queue := sb_queue b @ [data]\<rparr>) (hb_subs h)\<rparr>
         else h))"

definition receive :: "nat \<Rightarrow> hub \<Rightarrow> hub" where
  "receive s h = h\<lparr>hb_subs := modify_at s
     (\<lambda>b. b\<lparr>sb_queue := tl (sb_queue b), sb_got := sb_got b @ [hd (sb_queue b)]\<rparr>) (hb_subs h)\<rparr>"

section \<open>Closing\<close>

definition all_subs :: "hub \<Rightarrow> nat list" where
  "all_subs h = concat (map (\<lambda>i. hc_subs (chan_at h i)) (map snd (hb_channels h)))"

text \<open>\<open>subs\<close> is again in the order the runtime chose.\<close>

definition close_lock :: "nat list \<Rightarrow> hub \<Rightarrow> hub" where
  "close_lock subs h =
     (if hb_closed h then h
      else
        (let refs = map snd (hb_channels h);
             timers = concat (map (\<lambda>i. case hc_teardown (chan_at h i) of None \<Rightarrow> [] | Some t \<Rightarrow> [t]) refs)
         in h\<lparr>hb_closed := True,
              hb_timers := modify_each timers stop_timer (hb_timers h),
              hb_heap := modify_each refs (\<lambda>c. c\<lparr>hc_subs := []\<rparr>) (hb_heap h),
              hb_channels := [], hb_total := 0, hb_closing := Some subs\<rparr>))"

definition exited :: "channel \<Rightarrow> bool" where
  "exited c \<longleftrightarrow> hc_flush c = FExited \<and> hc_ingest_done c"

definition all_exited :: "hub \<Rightarrow> bool" where
  "all_exited h \<longleftrightarrow> list_all exited (hb_heap h)"

definition close_one :: "nat \<Rightarrow> nat list \<Rightarrow> hub \<Rightarrow> hub" where
  "close_one s ss h =
     (if sb_closed (hb_subs h ! s) then h\<lparr>hb_panic := True\<rparr>
      else h\<lparr>hb_subs := modify_at s (\<lambda>b. b\<lparr>sb_closed := True\<rparr>) (hb_subs h), hb_closing := Some ss\<rparr>)"

section \<open>The machine\<close>

datatype hub_event =
    EvSubscribe string | EvUnsubscribe nat
  | EvTimer nat | EvTeardown nat
  | EvInject string chat_message | EvPush nat chat_message
  | EvTick nat | EvSnapshot nat "nat list" | EvBuild nat "result option" | EvSend nat
  | EvReceive nat
  | EvFlushExit nat | EvIngestExit nat
  | EvClose "nat list" | EvCancel | EvCloseSub

text \<open>The context of a channel's goroutines derives from the hub's.\<close>

definition ctx_done :: "nat \<Rightarrow> hub \<Rightarrow> bool" where
  "ctx_done i h \<longleftrightarrow> hc_cancelled (chan_at h i) \<or> hb_cancelled h"

text \<open>A step: None when the event cannot happen in the state.\<close>

fun hub_step :: "hub_event \<Rightarrow> hub \<Rightarrow> hub option" where
  "hub_step (EvSubscribe cid) h = Some (snd (Subscribe cid h))"
| "hub_step (EvUnsubscribe s) h = (if s < length (hb_subs h) then Some (Unsubscribe s h) else None)"
| "hub_step (EvTimer t) h =
     (if t < length (hb_timers h) \<and> tm_state (hb_timers h ! t) = Armed then Some (timer_fires t h) else None)"
| "hub_step (EvTeardown t) h =
     (if t < length (hb_timers h) \<and> tm_state (hb_timers h ! t) = Fired then Some (teardown_callback t h) else None)"
| "hub_step (EvInject cid m) h = Some (snd (Inject cid m h))"
| "hub_step (EvPush i m) h = (if i < length (hb_heap h) then Some (push i m h) else None)"
| "hub_step (EvTick i) h =
     (if i < length (hb_heap h) \<and> hc_flush (chan_at h i) = FIdle then Some (drain i h) else None)"
| "hub_step (EvSnapshot i subs) h =
     (if i < length (hb_heap h) \<and> mset subs = mset (hc_subs (chan_at h i)) then
        (case hc_flush (chan_at h i) of FDrained raw \<Rightarrow> Some (snapshot_subs i subs raw h) | _ \<Rightarrow> None) else None)"
| "hub_step (EvBuild i answer) h =
     (if i < length (hb_heap h) then
        (case hc_flush (chan_at h i) of
           FBuilding subs (m # ms) seen msgs \<Rightarrow> Some (build_one i subs m ms seen msgs answer h)
         | FBuilding subs [] seen msgs \<Rightarrow> Some (set_flush i (FSending subs msgs) h)
         | _ \<Rightarrow> None) else None)"
| "hub_step (EvSend i) h =
     (if i < length (hb_heap h) then
        (case hc_flush (chan_at h i) of
           FSending (s # ss) data \<Rightarrow> Some (send_one i s ss data h)
         | FSending [] data \<Rightarrow> Some (set_flush i FIdle h)
         | _ \<Rightarrow> None) else None)"
| "hub_step (EvReceive s) h =
     (if s < length (hb_subs h) \<and> sb_queue (hb_subs h ! s) \<noteq> [] then Some (receive s h) else None)"
| "hub_step (EvFlushExit i) h =
     (if i < length (hb_heap h) \<and> hc_flush (chan_at h i) = FIdle \<and> ctx_done i h
      then Some (set_flush i FExited h) else None)"
| "hub_step (EvIngestExit i) h =
     (if i < length (hb_heap h) \<and> ctx_done i h
      then Some (h\<lparr>hb_heap := modify_at i (\<lambda>c. c\<lparr>hc_ingest_done := True\<rparr>) (hb_heap h)\<rparr>) else None)"
| "hub_step (EvClose subs) h =
     (if hb_closed h \<or> mset subs = mset (all_subs h) then Some (close_lock subs h) else None)"
| "hub_step EvCancel h = (if hb_closed h then Some (h\<lparr>hb_cancelled := True\<rparr>) else None)"
| "hub_step EvCloseSub h =
     (case hb_closing h of
        Some (s # ss) \<Rightarrow> if hb_cancelled h \<and> all_exited h then Some (close_one s ss h) else None
      | _ \<Rightarrow> None)"

inductive reachable :: "int \<Rightarrow> int \<Rightarrow> hub \<Rightarrow> bool" for mc mt where
  start: "reachable mc mt (hub_new mc mt)"
| step: "reachable mc mt h \<Longrightarrow> hub_step e h = Some h' \<Longrightarrow> reachable mc mt h'"

fun hub_run :: "hub_event list \<Rightarrow> hub \<Rightarrow> hub option" where
  "hub_run [] h = Some h"
| "hub_run (e # es) h = (case hub_step e h of None \<Rightarrow> None | Some h' \<Rightarrow> hub_run es h')"

lemma run_reachable: "reachable mc mt h \<Longrightarrow> hub_run es h = Some h' \<Longrightarrow> reachable mc mt h'"
  by (induction es arbitrary: h) (auto intro: reachable.step split: option.splits)

end
