(* ===== verification/HubInv.thy ===== *)
theory HubInv
  imports Hub
begin

text \<open>
  The registry of the hub (channels, subscriptions, teardown timers, the total) and the
  invariant every step keeps: who is registered where, the caps, the pending teardowns.
\<close>

named_theorems hub_defs \<open>the operations of the hub that change the registry\<close>
named_theorems reg_parts \<open>the parts of the registry invariant\<close>

section \<open>Updates by index\<close>

lemma length_modify_at [simp]: "length (modify_at i f xs) = length xs"
  by (simp add: modify_at_def)

lemma nth_modify_at [simp]:
  "j < length xs \<Longrightarrow> modify_at i f xs ! j = (if i = j then f (xs ! j) else xs ! j)"
  by (simp add: modify_at_def nth_list_update)

lemma map_modify_at: "(\<And>x. g (f x) = g x) \<Longrightarrow> map g (modify_at i f xs) = map g xs"
  by (cases "i < length xs") (simp_all add: modify_at_def map_update list_update_same_conv list_update_beyond)

lemma length_modify_each [simp]: "length (modify_each idx f xs) = length xs"
  unfolding modify_each_def by (induction idx arbitrary: xs) simp_all

lemma modify_each_inv:
  "j < length xs \<Longrightarrow> (\<And>x. P x \<Longrightarrow> P (f x)) \<Longrightarrow> P (xs ! j) \<Longrightarrow> P (modify_each idx f xs ! j)"
  unfolding modify_each_def by (induction idx arbitrary: xs) simp_all

lemma map_modify_each: "(\<And>x. g (f x) = g x) \<Longrightarrow> map g (modify_each idx f xs) = map g xs"
  unfolding modify_each_def by (induction idx arbitrary: xs) (simp_all add: map_modify_at)

lemma nth_modify_each:
  "j < length xs \<Longrightarrow> (\<And>x. f (f x) = f x) \<Longrightarrow>
   modify_each idx f xs ! j = (if j \<in> set idx then f (xs ! j) else xs ! j)"
  unfolding modify_each_def by (induction idx arbitrary: xs) auto

lemma sum_modify_at:
  fixes g :: "'a \<Rightarrow> int"
  shows "i < length xs \<Longrightarrow>
    sum_list (map g (modify_at i f xs)) = sum_list (map g xs) - g (xs ! i) + g (f (xs ! i))"
proof (induction xs arbitrary: i)
  case (Cons x xs)
  then show ?case by (cases i) (simp_all add: modify_at_def)
qed simp

section \<open>The invariant\<close>

definition subs_count :: "hub \<Rightarrow> int" where
  "subs_count h = sum_list (map (\<lambda>c. int (length (hc_subs c))) (hb_heap h))"

definition heap_ok :: "hub \<Rightarrow> bool" where
  "heap_ok h \<longleftrightarrow> (\<forall>i<length (hb_heap h).
     distinct (hc_subs (chan_at h i))
     \<and> (\<forall>s\<in>set (hc_subs (chan_at h i)). s < length (hb_subs h) \<and> sb_ch (hb_subs h ! s) = i)
     \<and> (\<forall>t. hc_teardown (chan_at h i) = Some t \<longrightarrow> t < length (hb_timers h) \<and> tm_ch (hb_timers h ! t) = i))"

definition refs_ok :: "hub \<Rightarrow> bool" where
  "refs_ok h \<longleftrightarrow> (\<forall>t<length (hb_timers h). tm_ch (hb_timers h ! t) < length (hb_heap h))
     \<and> (\<forall>s<length (hb_subs h). sb_ch (hb_subs h ! s) < length (hb_heap h))"

definition map_ok :: "hub \<Rightarrow> bool" where
  "map_ok h \<longleftrightarrow> gomap_ok (hb_channels h) \<and> (\<forall>cid i. map_of (hb_channels h) cid = Some i \<longrightarrow>
     i < length (hb_heap h) \<and> hc_id (chan_at h i) = cid \<and> \<not> hc_cancelled (chan_at h i))"

text \<open>A channel that is not registered has no subscriber and, until shutdown, a cancelled context.\<close>

definition live_ok :: "hub \<Rightarrow> bool" where
  "live_ok h \<longleftrightarrow> (\<forall>i<length (hb_heap h). map_of (hb_channels h) (hc_id (chan_at h i)) \<noteq> Some i \<longrightarrow>
     hc_subs (chan_at h i) = [] \<and> (hb_closed h \<or> hc_cancelled (chan_at h i)))"

definition caps_ok :: "hub \<Rightarrow> bool" where
  "caps_ok h \<longleftrightarrow> hb_total h = subs_count h \<and> hb_total h \<le> max 0 (hb_max_total h)
     \<and> (\<forall>i<length (hb_heap h). int (length (hc_subs (chan_at h i))) \<le> max 1 (hb_max_channel h))"

text \<open>A registered channel without subscribers has a teardown pending.\<close>

definition idle_ok :: "hub \<Rightarrow> bool" where
  "idle_ok h \<longleftrightarrow> (\<forall>cid i. map_of (hb_channels h) cid = Some i \<longrightarrow> hc_subs (chan_at h i) = [] \<longrightarrow>
     (\<exists>t<length (hb_timers h). tm_ch (hb_timers h ! t) = i \<and> tm_state (hb_timers h ! t) \<noteq> Over))"

definition closed_ok :: "hub \<Rightarrow> bool" where
  "closed_ok h \<longleftrightarrow> (hb_closed h \<longleftrightarrow> hb_closing h \<noteq> None) \<and> (hb_closed h \<longrightarrow> hb_channels h = [])
     \<and> (hb_cancelled h \<longrightarrow> hb_closed h)"

definition registry_ok :: "hub \<Rightarrow> bool" where
  "registry_ok h \<longleftrightarrow> heap_ok h \<and> refs_ok h \<and> map_ok h \<and> live_ok h \<and> caps_ok h \<and> idle_ok h \<and> closed_ok h"

lemmas registry_parts = heap_ok_def refs_ok_def map_ok_def live_ok_def caps_ok_def idle_ok_def closed_ok_def

lemma registry_okI:
  "\<lbrakk>heap_ok h; refs_ok h; map_ok h; live_ok h; caps_ok h; idle_ok h; closed_ok h\<rbrakk> \<Longrightarrow> registry_ok h"
  by (simp add: registry_ok_def)

lemma registry_okE:
  assumes "registry_ok h"
  obtains "heap_ok h" "refs_ok h" "map_ok h" "live_ok h" "caps_ok h" "idle_ok h" "closed_ok h"
  using assms by (simp add: registry_ok_def)

section \<open>Steps that leave the registry alone\<close>

definition same_registry :: "hub \<Rightarrow> hub \<Rightarrow> bool" where
  "same_registry h h' \<longleftrightarrow>
     hb_max_channel h' = hb_max_channel h \<and> hb_max_total h' = hb_max_total h \<and>
     hb_closed h' = hb_closed h \<and> hb_channels h' = hb_channels h \<and> hb_total h' = hb_total h \<and>
     map (\<lambda>c. (hc_id c, hc_subs c, hc_teardown c, hc_cancelled c)) (hb_heap h') =
       map (\<lambda>c. (hc_id c, hc_subs c, hc_teardown c, hc_cancelled c)) (hb_heap h) \<and>
     map sb_ch (hb_subs h') = map sb_ch (hb_subs h) \<and> hb_timers h' = hb_timers h \<and>
     (hb_closing h' = None \<longleftrightarrow> hb_closing h = None) \<and> (hb_cancelled h' \<longrightarrow> hb_closed h' \<or> hb_cancelled h)"

lemma same_registry_heap:
  assumes "same_registry h h'"
  shows "length (hb_heap h') = length (hb_heap h)"
    and "i < length (hb_heap h) \<Longrightarrow> hc_id (chan_at h' i) = hc_id (chan_at h i)"
    and "i < length (hb_heap h) \<Longrightarrow> hc_subs (chan_at h' i) = hc_subs (chan_at h i)"
    and "i < length (hb_heap h) \<Longrightarrow> hc_teardown (chan_at h' i) = hc_teardown (chan_at h i)"
    and "i < length (hb_heap h) \<Longrightarrow> hc_cancelled (chan_at h' i) = hc_cancelled (chan_at h i)"
    and "subs_count h' = subs_count h"
proof -
  let ?k = "\<lambda>c. (hc_id c, hc_subs c, hc_teardown c, hc_cancelled c)"
  have m: "map ?k (hb_heap h') = map ?k (hb_heap h)" using assms by (simp add: same_registry_def)
  then show l: "length (hb_heap h') = length (hb_heap h)" by (rule map_eq_imp_length_eq)
  show "subs_count h' = subs_count h"
    using arg_cong[OF m, of "\<lambda>xs. sum_list (map (\<lambda>(a, b, c, d). int (length b)) xs)"]
    by (simp add: subs_count_def o_def)
  have k: "?k (chan_at h' i) = ?k (chan_at h i)" if "i < length (hb_heap h)" for i
    using arg_cong[OF m, of "\<lambda>xs. xs ! i"] that l by simp
  show "hc_id (chan_at h' i) = hc_id (chan_at h i)" if "i < length (hb_heap h)" using k[OF that] by simp
  show "hc_subs (chan_at h' i) = hc_subs (chan_at h i)" if "i < length (hb_heap h)" using k[OF that] by simp
  show "hc_teardown (chan_at h' i) = hc_teardown (chan_at h i)" if "i < length (hb_heap h)" using k[OF that] by simp
  show "hc_cancelled (chan_at h' i) = hc_cancelled (chan_at h i)" if "i < length (hb_heap h)" using k[OF that] by simp
qed

lemma same_registry_subs:
  assumes "same_registry h h'"
  shows "length (hb_subs h') = length (hb_subs h)"
    and "s < length (hb_subs h) \<Longrightarrow> sb_ch (hb_subs h' ! s) = sb_ch (hb_subs h ! s)"
proof -
  have m: "map sb_ch (hb_subs h') = map sb_ch (hb_subs h)" using assms by (simp add: same_registry_def)
  then show l: "length (hb_subs h') = length (hb_subs h)" by (rule map_eq_imp_length_eq)
  show "sb_ch (hb_subs h' ! s) = sb_ch (hb_subs h ! s)" if "s < length (hb_subs h)"
    using arg_cong[OF m, of "\<lambda>xs. xs ! s"] that l by simp
qed

lemma same_registry_rest:
  assumes "same_registry h h'"
  shows "hb_max_channel h' = hb_max_channel h" "hb_max_total h' = hb_max_total h"
    "hb_closed h' = hb_closed h" "hb_channels h' = hb_channels h" "hb_total h' = hb_total h"
    "hb_timers h' = hb_timers h" "hb_closing h' = None \<longleftrightarrow> hb_closing h = None"
    "hb_cancelled h' \<Longrightarrow> hb_closed h \<or> hb_cancelled h"
  using assms by (auto simp: same_registry_def)

lemma registry_frame:
  assumes same: "same_registry h h'" and ok: "registry_ok h"
  shows "registry_ok h'"
proof -
  note s = same_registry_heap[OF same] same_registry_subs[OF same] same_registry_rest[OF same]
  from ok show ?thesis
  proof (rule registry_okE)
    assume p: "heap_ok h" "refs_ok h" "map_ok h" "live_ok h" "caps_ok h" "idle_ok h" "closed_ok h"
    have v: "i < length (hb_heap h)" if "map_of (hb_channels h) cid = Some i" for cid i
      using p(3) that by (auto simp: map_ok_def)
    show ?thesis
    proof (rule registry_okI)
      show "heap_ok h'" using p(1) by (simp add: heap_ok_def s)
      show "refs_ok h'" using p(2) by (simp add: refs_ok_def s)
      show "map_ok h'" using p(3) v by (simp add: map_ok_def s)
      show "live_ok h'" using p(4) by (simp add: live_ok_def s)
      show "caps_ok h'" using p(5) by (simp add: caps_ok_def s)
      show "idle_ok h'" using p(6) v by (simp add: idle_ok_def s)
      show "closed_ok h'" using p(7) s by (auto simp: closed_ok_def)
    qed
  qed
qed

section \<open>Subscribe\<close>

text \<open>Inside \<open>Subscribe\<close> the channel being joined may be registered and idle with no teardown pending.\<close>

definition idle_but :: "nat \<Rightarrow> hub \<Rightarrow> bool" where
  "idle_but i h \<longleftrightarrow> (\<forall>cid j. map_of (hb_channels h) cid = Some j \<longrightarrow> j \<noteq> i \<longrightarrow> hc_subs (chan_at h j) = [] \<longrightarrow>
     (\<exists>t<length (hb_timers h). tm_ch (hb_timers h ! t) = j \<and> tm_state (hb_timers h ! t) \<noteq> Over))"

definition joining :: "nat \<Rightarrow> hub \<Rightarrow> bool" where
  "joining i h \<longleftrightarrow> heap_ok h \<and> refs_ok h \<and> map_ok h \<and> live_ok h \<and> caps_ok h \<and> idle_but i h \<and> closed_ok h
     \<and> i < length (hb_heap h) \<and> map_of (hb_channels h) (hc_id (chan_at h i)) = Some i"

lemma joining_known:
  assumes "registry_ok h" "map_of (hb_channels h) cid = Some i"
  shows "joining i h"
proof -
  from assms have "i < length (hb_heap h)" "hc_id (chan_at h i) = cid"
    by (auto simp: registry_ok_def map_ok_def)
  with assms show ?thesis by (auto simp: registry_ok_def joining_def idle_ok_def idle_but_def)
qed

lemma nth_snoc: "i < Suc (length xs) \<Longrightarrow> (xs @ [x]) ! i = (if i < length xs then xs ! i else x)"
  by (simp add: nth_append)

lemma joining_new:
  assumes ok: "registry_ok h" and new: "map_of (hb_channels h) cid = None" and up: "\<not> hb_closed h"
  shows "joining (length (hb_heap h))
    (h\<lparr>hb_heap := hb_heap h @ [fresh_channel cid],
       hb_channels := AList.update cid (length (hb_heap h)) (hb_channels h)\<rparr>)"
    (is "joining ?n ?h")
proof (rule registry_okE[OF ok])
  assume p: "heap_ok h" "refs_ok h" "map_ok h" "live_ok h" "caps_ok h" "idle_ok h" "closed_ok h"
  have ne: "map_of (hb_channels h) c \<noteq> Some ?n" for c
    using p(3) by (fastforce simp: map_ok_def)
  have "heap_ok ?h" using p(1) by (auto simp: heap_ok_def nth_snoc fresh_channel_def)
  moreover have "refs_ok ?h" using p(2) by (auto simp: refs_ok_def less_SucI)
  moreover have "map_ok ?h" using p(3)
    by (auto simp: map_ok_def gomap_simps nth_snoc fresh_channel_def less_SucI)
  moreover have "live_ok ?h" using p(4) new
    by (auto simp: live_ok_def gomap_simps nth_snoc fresh_channel_def)
  moreover have "caps_ok ?h" using p(5)
    by (auto simp: caps_ok_def subs_count_def nth_snoc fresh_channel_def)
  moreover have "idle_but ?n ?h"
    unfolding idle_but_def
  proof (intro allI impI)
    fix c j assume j: "map_of (hb_channels ?h) c = Some j" "j \<noteq> ?n" "hc_subs (chan_at ?h j) = []"
    then have m: "map_of (hb_channels h) c = Some j" by (simp add: gomap_simps split: if_splits)
    then have "j < ?n" using p(3) by (auto simp: map_ok_def)
    with j m p(6) show "\<exists>t<length (hb_timers ?h). tm_ch (hb_timers ?h ! t) = j \<and> tm_state (hb_timers ?h ! t) \<noteq> Over"
      by (simp add: idle_ok_def nth_append)
  qed
  moreover have "closed_ok ?h" using p(7) up by (simp add: closed_ok_def)
  moreover have "map_of (hb_channels ?h) (hc_id (chan_at ?h ?n)) = Some ?n"
    by (simp add: gomap_simps fresh_channel_def)
  ultimately show ?thesis by (simp add: joining_def)
qed

lemma joining_stop:
  assumes "joining i h"
  shows "joining i (stop_teardown i h)"
proof (cases "hc_teardown (chan_at h i)")
  case None
  with assms show ?thesis by (simp add: stop_teardown_def)
next
  case (Some t)
  let ?h = "h\<lparr>hb_timers := modify_at t stop_timer (hb_timers h),
              hb_heap := modify_at i (\<lambda>c. c\<lparr>hc_teardown := None\<rparr>) (hb_heap h)\<rparr>"
  from assms have p: "heap_ok h" "refs_ok h" "map_ok h" "live_ok h" "caps_ok h" "idle_but i h" "closed_ok h"
    and i: "i < length (hb_heap h)" "map_of (hb_channels h) (hc_id (chan_at h i)) = Some i"
    by (simp_all add: joining_def)
  from p(1) i(1) Some have t: "t < length (hb_timers h)" "tm_ch (hb_timers h ! t) = i"
    by (auto simp: heap_ok_def)
  have "heap_ok ?h" using p(1) by (auto simp: heap_ok_def stop_timer_def)
  moreover have "refs_ok ?h" using p(2) by (auto simp: refs_ok_def stop_timer_def)
  moreover have "map_ok ?h" using p(3) by (fastforce simp: map_ok_def)
  moreover have "live_ok ?h" using p(4) by (auto simp: live_ok_def)
  moreover have "caps_ok ?h" using p(5) by (auto simp: caps_ok_def subs_count_def map_modify_at)
  moreover have "idle_but i ?h"
    unfolding idle_but_def
  proof (intro allI impI)
    fix cid j assume j: "map_of (hb_channels ?h) cid = Some j" "j \<noteq> i" "hc_subs (chan_at ?h j) = []"
    then have "j < length (hb_heap h)" using p(3) by (auto simp: map_ok_def)
    with j have "hc_subs (chan_at h j) = []" by (simp split: if_splits)
    with j p(6) obtain u where u: "u < length (hb_timers h)" "tm_ch (hb_timers h ! u) = j"
      "tm_state (hb_timers h ! u) \<noteq> Over" by (auto simp: idle_but_def)
    with j t show "\<exists>u<length (hb_timers ?h). tm_ch (hb_timers ?h ! u) = j \<and> tm_state (hb_timers ?h ! u) \<noteq> Over"
      by (intro exI[of _ u]) auto
  qed
  moreover have "closed_ok ?h" using p(7) by (auto simp: closed_ok_def)
  moreover have "i < length (hb_heap ?h)" "map_of (hb_channels ?h) (hc_id (chan_at ?h i)) = Some i"
    using i by simp_all
  ultimately have "joining i ?h" by (simp add: joining_def)
  then show ?thesis by (simp add: stop_teardown_def Some)
qed

lemma joined:
  assumes "joining i h" and "hb_total h < hb_max_total h"
    and cap: "hc_subs (chan_at h i) = [] \<or> int (length (hc_subs (chan_at h i))) < hb_max_channel h"
    and up: "\<not> hb_closed h"
  shows "registry_ok (snd (add_sub i h))"
proof -
  let ?s = "length (hb_subs h)"
  let ?h = "h\<lparr>hb_subs := hb_subs h @ [\<lparr>sb_ch = i, sb_queue = [], sb_got = [], sb_closed = False\<rparr>],
      hb_heap := modify_at i (\<lambda>c. c\<lparr>hc_subs := ?s # hc_subs c\<rparr>) (hb_heap h), hb_total := hb_total h + 1\<rparr>"
  from assms have p: "heap_ok h" "refs_ok h" "map_ok h" "live_ok h" "caps_ok h" "idle_but i h" "closed_ok h"
    and i: "i < length (hb_heap h)" "map_of (hb_channels h) (hc_id (chan_at h i)) = Some i"
    by (simp_all add: joining_def)
  have "registry_ok ?h"
  proof (rule registry_okI)
    show "heap_ok ?h" using p(1) i(1) by (fastforce simp: heap_ok_def nth_snoc)
    show "refs_ok ?h" using p(2) i(1) by (auto simp: refs_ok_def nth_snoc)
    show "map_ok ?h" using p(3) by (fastforce simp: map_ok_def)
    show "live_ok ?h" using p(4) i by (auto simp: live_ok_def)
    show "caps_ok ?h" using p(5) assms(2) cap i(1)
      by (auto simp: caps_ok_def subs_count_def sum_modify_at)
    show "idle_ok ?h"
      unfolding idle_ok_def
    proof (intro allI impI)
      fix cid j assume j: "map_of (hb_channels ?h) cid = Some j" "hc_subs (chan_at ?h j) = []"
      then have "j < length (hb_heap h)" using p(3) by (auto simp: map_ok_def)
      with j p(6) show "\<exists>u<length (hb_timers ?h). tm_ch (hb_timers ?h ! u) = j \<and> tm_state (hb_timers ?h ! u) \<noteq> Over"
        by (auto simp: idle_but_def split: if_splits)
    qed
    show "closed_ok ?h" using p(7) by (auto simp: closed_ok_def)
  qed
  then show ?thesis by (simp add: add_sub_def Let_def)
qed

lemma stop_teardown_keeps:
  "hb_total (stop_teardown i h) = hb_total h"
  "hb_max_total (stop_teardown i h) = hb_max_total h"
  "hb_max_channel (stop_teardown i h) = hb_max_channel h"
  "hb_closed (stop_teardown i h) = hb_closed h"
  "hb_channels (stop_teardown i h) = hb_channels h"
  "length (hb_heap (stop_teardown i h)) = length (hb_heap h)"
  "hb_subs (stop_teardown i h) = hb_subs h"
  by (simp_all add: stop_teardown_def split: option.splits)

lemma stop_teardown_subs:
  "j < length (hb_heap h) \<Longrightarrow> hc_subs (chan_at (stop_teardown i h) j) = hc_subs (chan_at h j)"
  by (simp add: stop_teardown_def split: option.splits)

text \<open>What \<open>Subscribe\<close> does, by cases.\<close>

definition joined_hub :: "nat \<Rightarrow> hub \<Rightarrow> hub" where
  "joined_hub i h = snd (add_sub i (stop_teardown i h))"

definition with_channel :: "string \<Rightarrow> hub \<Rightarrow> hub" where
  "with_channel cid h = h\<lparr>hb_heap := hb_heap h @ [fresh_channel cid],
     hb_channels := AList.update cid (length (hb_heap h)) (hb_channels h)\<rparr>"

lemma Subscribe_closed: "hb_closed h \<Longrightarrow> Subscribe cid h = (Inl ErrClosed, h)"
  by (simp add: Subscribe_def)

lemma Subscribe_full:
  "\<lbrakk>\<not> hb_closed h; hb_max_total h \<le> hb_total h \<or>
     (\<exists>i. map_of (hb_channels h) cid = Some i \<and> hb_max_channel h \<le> int (length (hc_subs (chan_at h i))))\<rbrakk>
   \<Longrightarrow> Subscribe cid h = (Inl ErrTooManySubscribers, h)"
  by (auto simp: Subscribe_def Let_def)

lemma Subscribe_known:
  "\<lbrakk>\<not> hb_closed h; hb_total h < hb_max_total h; map_of (hb_channels h) cid = Some i;
     int (length (hc_subs (chan_at h i))) < hb_max_channel h\<rbrakk>
   \<Longrightarrow> Subscribe cid h = (Inr (length (hb_subs h)), joined_hub i h)"
  by (simp add: Subscribe_def Let_def joined_hub_def add_sub_def stop_teardown_keeps)

lemma Subscribe_new:
  "\<lbrakk>\<not> hb_closed h; hb_total h < hb_max_total h; map_of (hb_channels h) cid = None\<rbrakk>
   \<Longrightarrow> Subscribe cid h = (Inr (length (hb_subs h)), joined_hub (length (hb_heap h)) (with_channel cid h))"
  by (simp add: Subscribe_def Let_def joined_hub_def add_sub_def stop_teardown_keeps startChannel_def
      with_channel_def)

lemma Subscribe_cases:
  obtains (closed) "hb_closed h" "Subscribe cid h = (Inl ErrClosed, h)"
  | (full) "\<not> hb_closed h" "hb_max_total h \<le> hb_total h \<or>
      (\<exists>i. map_of (hb_channels h) cid = Some i \<and> hb_max_channel h \<le> int (length (hc_subs (chan_at h i))))"
      "Subscribe cid h = (Inl ErrTooManySubscribers, h)"
  | (known) i where "\<not> hb_closed h" "hb_total h < hb_max_total h" "map_of (hb_channels h) cid = Some i"
      "int (length (hc_subs (chan_at h i))) < hb_max_channel h"
      "Subscribe cid h = (Inr (length (hb_subs h)), joined_hub i h)"
  | (new) "\<not> hb_closed h" "hb_total h < hb_max_total h" "map_of (hb_channels h) cid = None"
      "Subscribe cid h = (Inr (length (hb_subs h)), joined_hub (length (hb_heap h)) (with_channel cid h))"
proof (cases "hb_closed h")
  case True
  then show ?thesis using closed Subscribe_closed by blast
next
  case False
  show ?thesis
  proof (cases "hb_max_total h \<le> hb_total h \<or>
      (\<exists>i. map_of (hb_channels h) cid = Some i \<and> hb_max_channel h \<le> int (length (hc_subs (chan_at h i))))")
    case True
    then show ?thesis using full[OF False True Subscribe_full[OF False True]] by blast
  next
    case not_full: False
    then have t: "hb_total h < hb_max_total h" by simp
    show ?thesis
    proof (cases "map_of (hb_channels h) cid")
      case None
      then show ?thesis using new[OF False t None Subscribe_new[OF False t None]] by blast
    next
      case (Some i)
      with not_full have c: "int (length (hc_subs (chan_at h i))) < hb_max_channel h" by auto
      show ?thesis using known[OF False t Some c Subscribe_known[OF False t Some c]] by blast
    qed
  qed
qed

lemma registry_Subscribe:
  assumes ok: "registry_ok h"
  shows "registry_ok (snd (Subscribe cid h))"
proof (cases cid h rule: Subscribe_cases)
  case (known i)
  have j: "joining i h" using ok known(3) by (rule joining_known)
  then have "i < length (hb_heap h)" by (simp add: joining_def)
  with known joined[OF joining_stop[OF j]] show ?thesis
    by (simp add: joined_hub_def stop_teardown_keeps stop_teardown_subs)
next
  case new
  let ?n = "length (hb_heap h)"
  have j: "joining ?n (with_channel cid h)"
    using joining_new[OF ok new(3) new(1)] by (simp add: with_channel_def)
  have "hc_subs (chan_at (stop_teardown ?n (with_channel cid h)) ?n) = []"
    by (subst stop_teardown_subs) (simp_all add: with_channel_def fresh_channel_def)
  with new joined[OF joining_stop[OF j]] show ?thesis
    by (simp add: joined_hub_def stop_teardown_keeps) (simp add: with_channel_def)
qed (simp_all add: ok)

section \<open>Unsubscribe and teardown\<close>

lemma map_ok_frame:
  assumes "map_ok h" "hb_channels h' = hb_channels h" "length (hb_heap h') = length (hb_heap h)"
    and "\<And>j. j < length (hb_heap h) \<Longrightarrow> hc_id (chan_at h' j) = hc_id (chan_at h j)"
    and "\<And>j. j < length (hb_heap h) \<Longrightarrow> hc_cancelled (chan_at h' j) = hc_cancelled (chan_at h j)"
  shows "map_ok h'"
  using assms by (fastforce simp: map_ok_def)

lemma subs_count_remove:
  assumes "i < length (hb_heap h)" "s \<in> set (hc_subs (chan_at h i))"
  shows "subs_count (h\<lparr>hb_heap := modify_at i (\<lambda>c. c\<lparr>hc_subs := remove1 s (hc_subs c)\<rparr>) (hb_heap h)\<rparr>)
    = subs_count h - 1"
proof -
  have "length (hc_subs (chan_at h i)) = Suc (length (remove1 s (hc_subs (chan_at h i))))"
    using length_pos_if_in_set[OF assms(2)] assms(2) by (simp add: length_remove1)
  with assms show ?thesis by (simp add: subs_count_def sum_modify_at)
qed

lemma registry_Unsubscribe:
  assumes ok: "registry_ok h" and s: "s < length (hb_subs h)"
  shows "registry_ok (Unsubscribe s h)"
proof (rule registry_okE[OF ok])
  assume p: "heap_ok h" "refs_ok h" "map_ok h" "live_ok h" "caps_ok h" "idle_ok h" "closed_ok h"
  define i where "i = sb_ch (hb_subs h ! s)"
  have i: "i < length (hb_heap h)" using p(2) s by (simp add: refs_ok_def i_def)
  let ?rm = "\<lambda>c. c\<lparr>hc_subs := remove1 s (hc_subs c)\<rparr>"
  let ?h1 = "h\<lparr>hb_heap := modify_at i ?rm (hb_heap h), hb_total := hb_total h - 1\<rparr>"
  let ?n = "length (hb_timers h)"
  let ?h2 = "?h1\<lparr>hb_heap := modify_at i (\<lambda>c. c\<lparr>hc_teardown := Some ?n\<rparr>) (hb_heap ?h1),
                 hb_timers := hb_timers h @ [\<lparr>tm_ch = i, tm_state = Armed\<rparr>]\<rparr>"
  show ?thesis
  proof (cases "s \<in> set (hc_subs (chan_at h i))")
    case False
    then show ?thesis by (simp add: Unsubscribe_def Let_def i_def[symmetric] ok)
  next
    case True
    have cnt: "subs_count (h\<lparr>hb_heap := modify_at i ?rm (hb_heap h), hb_total := v\<rparr>) = subs_count h - 1" for v
      using subs_count_remove[OF i True] by (simp add: subs_count_def)
    have le: "length (remove1 s xs) \<le> length xs" for xs by (simp add: length_remove1)
    have h1: "heap_ok ?h1" using p(1) by (auto simp: heap_ok_def dest: notin_set_remove1 [THEN contrapos_pp])
    have r1: "refs_ok ?h1" using p(2) by (simp add: refs_ok_def)
    have m1: "map_ok ?h1" using p(3) by (fastforce simp: map_ok_def)
    have l1: "live_ok ?h1" using p(4) by (fastforce simp: live_ok_def)
    have k1: "caps_ok ?h1"
    proof -
      have "hb_total ?h1 = subs_count ?h1" using p(5) cnt by (simp add: caps_ok_def)
      moreover have "int (length (hc_subs (chan_at ?h1 j))) \<le> max 1 (hb_max_channel h)" if "j < length (hb_heap h)" for j
      proof -
        have "int (length (hc_subs (chan_at ?h1 j))) \<le> int (length (hc_subs (chan_at h j)))"
          using that le by simp
        also have "\<dots> \<le> max 1 (hb_max_channel h)" using p(5) that by (simp add: caps_ok_def)
        finally show ?thesis .
      qed
      ultimately show ?thesis using p(5) by (simp add: caps_ok_def)
    qed
    have c1: "closed_ok ?h1" using p(7) by (auto simp: closed_ok_def)
    show ?thesis
    proof (cases "hc_subs (chan_at ?h1 i) \<noteq> [] \<or> hb_closed h")
      case stay: True
      have "idle_ok ?h1"
        unfolding idle_ok_def
      proof (intro allI impI)
        fix cid j assume j: "map_of (hb_channels ?h1) cid = Some j" "hc_subs (chan_at ?h1 j) = []"
        then have "j < length (hb_heap h)" using p(3) by (auto simp: map_ok_def)
        moreover from j stay p(7) have "j \<noteq> i" by (auto simp: closed_ok_def)
        ultimately show "\<exists>t<length (hb_timers ?h1). tm_ch (hb_timers ?h1 ! t) = j \<and> tm_state (hb_timers ?h1 ! t) \<noteq> Over"
          using j p(6) by (simp add: idle_ok_def)
      qed
      with h1 r1 m1 l1 k1 c1 have "registry_ok ?h1" by (simp add: registry_ok_def)
      with stay True show ?thesis by (simp add: Unsubscribe_def Let_def i_def[symmetric])
    next
      case arm: False
      have "registry_ok ?h2"
      proof (rule registry_okI)
        show "heap_ok ?h2" using h1 by (auto simp: heap_ok_def nth_snoc)
        show "refs_ok ?h2" using r1 i by (auto simp: refs_ok_def nth_snoc)
        show "map_ok ?h2" by (rule map_ok_frame[OF m1]) simp_all
        show "live_ok ?h2" using l1 by (auto simp: live_ok_def)
        show "caps_ok ?h2" using k1 by (auto simp: caps_ok_def subs_count_def map_modify_at)
        show "closed_ok ?h2" using c1 by (auto simp: closed_ok_def)
        show "idle_ok ?h2"
          unfolding idle_ok_def
        proof (intro allI impI)
          fix cid j assume j: "map_of (hb_channels ?h2) cid = Some j" "hc_subs (chan_at ?h2 j) = []"
          then have jl: "j < length (hb_heap h)" using p(3) by (auto simp: map_ok_def)
          show "\<exists>t<length (hb_timers ?h2). tm_ch (hb_timers ?h2 ! t) = j \<and> tm_state (hb_timers ?h2 ! t) \<noteq> Over"
          proof (cases "j = i")
            case True
            then show ?thesis by (intro exI[of _ ?n]) simp
          next
            case False
            with j jl p(6) obtain u where "u < ?n" "tm_ch (hb_timers h ! u) = j" "tm_state (hb_timers h ! u) \<noteq> Over"
              by (auto simp: idle_ok_def)
            then show ?thesis by (intro exI[of _ u]) (simp add: nth_append)
          qed
        qed
      qed
      with arm True show ?thesis by (simp add: Unsubscribe_def Let_def i_def[symmetric])
    qed
  qed
qed

lemma registry_timer_fires:
  assumes ok: "registry_ok h" and t: "t < length (hb_timers h)"
  shows "registry_ok (timer_fires t h)"
proof -
  let ?h = "h\<lparr>hb_timers := modify_at t (\<lambda>x. x\<lparr>tm_state := Fired\<rparr>) (hb_timers h)\<rparr>"
  have "idle_ok ?h"
    unfolding idle_ok_def
  proof (intro allI impI)
    fix cid j assume "map_of (hb_channels ?h) cid = Some j" "hc_subs (chan_at ?h j) = []"
    with ok obtain u where "u < length (hb_timers h)" "tm_ch (hb_timers h ! u) = j" "tm_state (hb_timers h ! u) \<noteq> Over"
      by (auto simp: registry_ok_def idle_ok_def)
    then show "\<exists>u<length (hb_timers ?h). tm_ch (hb_timers ?h ! u) = j \<and> tm_state (hb_timers ?h ! u) \<noteq> Over"
      by (intro exI[of _ u]) simp
  qed
  moreover have "heap_ok ?h" "refs_ok ?h" "map_ok ?h" "live_ok ?h" "caps_ok ?h" "closed_ok ?h"
    using ok by (auto simp: registry_ok_def heap_ok_def refs_ok_def map_ok_def live_ok_def caps_ok_def
        subs_count_def closed_ok_def)
  ultimately show ?thesis by (simp add: registry_ok_def timer_fires_def)
qed

lemma registry_teardown:
  assumes ok: "registry_ok h" and t: "t < length (hb_timers h)"
  shows "registry_ok (teardown_callback t h)"
proof (rule registry_okE[OF ok])
  assume p: "heap_ok h" "refs_ok h" "map_ok h" "live_ok h" "caps_ok h" "idle_ok h" "closed_ok h"
  define i where "i = tm_ch (hb_timers h ! t)"
  have i: "i < length (hb_heap h)" using p(2) t by (simp add: refs_ok_def i_def)
  let ?h1 = "h\<lparr>hb_timers := modify_at t (\<lambda>x. x\<lparr>tm_state := Over\<rparr>) (hb_timers h)\<rparr>"
  let ?cid = "hc_id (chan_at h i)"
  let ?h2 = "?h1\<lparr>hb_channels := AList.delete ?cid (hb_channels h),
                 hb_heap := modify_at i (\<lambda>c. c\<lparr>hc_cancelled := True\<rparr>) (hb_heap h)\<rparr>"
  have rest: "heap_ok ?h1" "refs_ok ?h1" "map_ok ?h1" "live_ok ?h1" "caps_ok ?h1" "closed_ok ?h1"
    using p by (auto simp: heap_ok_def refs_ok_def map_ok_def live_ok_def caps_ok_def subs_count_def closed_ok_def)
  have other: "\<exists>u<length (hb_timers ?h1). tm_ch (hb_timers ?h1 ! u) = j \<and> tm_state (hb_timers ?h1 ! u) \<noteq> Over"
    if "map_of (hb_channels h) cid = Some j" "hc_subs (chan_at h j) = []" "j \<noteq> i" for cid j
  proof -
    from that p(6) obtain u where "u < length (hb_timers h)" "tm_ch (hb_timers h ! u) = j"
      "tm_state (hb_timers h ! u) \<noteq> Over" by (auto simp: idle_ok_def)
    with that(3) show ?thesis by (intro exI[of _ u]) (auto simp: i_def)
  qed
  show ?thesis
  proof (cases "hc_subs (chan_at h i) = [] \<and> map_of (hb_channels h) ?cid = Some i")
    case False
    have "idle_ok ?h1"
      unfolding idle_ok_def
    proof (intro allI impI)
      fix cid j assume j: "map_of (hb_channels ?h1) cid = Some j" "hc_subs (chan_at ?h1 j) = []"
      with p(3) False have "j \<noteq> i" by (auto simp: map_ok_def)
      with j show "\<exists>u<length (hb_timers ?h1). tm_ch (hb_timers ?h1 ! u) = j \<and> tm_state (hb_timers ?h1 ! u) \<noteq> Over"
        by (intro other) simp_all
    qed
    with rest have "registry_ok ?h1" by (simp add: registry_ok_def)
    with False show ?thesis by (auto simp: teardown_callback_def Let_def i_def[symmetric])
  next
    case True
    have "registry_ok ?h2"
    proof (rule registry_okI)
      show "heap_ok ?h2" using rest(1) by (auto simp: heap_ok_def)
      show "refs_ok ?h2" using rest(2) by (auto simp: refs_ok_def)
      show "map_ok ?h2" using p(3) by (fastforce simp: map_ok_def gomap_simps)
      show "live_ok ?h2" using p(4) True by (auto simp: live_ok_def gomap_simps)
      show "caps_ok ?h2" using p(5) by (auto simp: caps_ok_def subs_count_def map_modify_at)
      show "closed_ok ?h2" using p(7) by (auto simp: closed_ok_def)
      show "idle_ok ?h2"
        unfolding idle_ok_def
      proof (intro allI impI)
        fix cid j assume j: "map_of (hb_channels ?h2) cid = Some j" "hc_subs (chan_at ?h2 j) = []"
        then have m: "map_of (hb_channels h) cid = Some j" "cid \<noteq> ?cid"
          by (auto simp: gomap_simps split: if_splits)
        with p(3) have "j \<noteq> i" "j < length (hb_heap h)" by (auto simp: map_ok_def)
        with j m(1) show "\<exists>u<length (hb_timers ?h2). tm_ch (hb_timers ?h2 ! u) = j \<and> tm_state (hb_timers ?h2 ! u) \<noteq> Over"
          using other[of cid j] by simp
      qed
    qed
    with True show ?thesis by (simp add: teardown_callback_def Let_def i_def[symmetric])
  qed
qed

section \<open>Shutdown\<close>

lemma registered_subs:
  assumes "registry_ok h" "i < length (hb_heap h)" "hc_subs (chan_at h i) \<noteq> []"
  shows "i \<in> set (map snd (hb_channels h))"
proof -
  from assms have "map_of (hb_channels h) (hc_id (chan_at h i)) = Some i"
    by (auto simp: registry_ok_def live_ok_def)
  then show ?thesis by (auto dest!: map_of_SomeD intro: rev_image_eqI)
qed

lemma close_lock_subs_empty:
  assumes ok: "registry_ok h" and up: "\<not> hb_closed h" and i: "i < length (hb_heap h)"
  shows "hc_subs (chan_at (close_lock subs h) i) = []"
proof (cases "hc_subs (chan_at h i) = []")
  case False
  with registered_subs[OF ok i] up i show ?thesis
    by (simp add: close_lock_def Let_def nth_modify_each)
next
  case True
  with up i show ?thesis by (simp add: close_lock_def Let_def nth_modify_each)
qed

lemma registry_close_lock:
  assumes ok: "registry_ok h"
  shows "registry_ok (close_lock subs h)"
proof (cases "hb_closed h")
  case True
  then show ?thesis by (simp add: close_lock_def ok)
next
  case up: False
  let ?h = "close_lock subs h"
  have sh [simp]: "length (hb_heap ?h) = length (hb_heap h)" "length (hb_timers ?h) = length (hb_timers h)"
    "hb_subs ?h = hb_subs h" "hb_channels ?h = []" "hb_closed ?h" "hb_closing ?h = Some subs" "hb_total ?h = 0"
    "hb_max_channel ?h = hb_max_channel h" "hb_max_total ?h = hb_max_total h" "hb_cancelled ?h = hb_cancelled h"
    using up by (simp_all add: close_lock_def Let_def)
  have hp: "hc_teardown (chan_at ?h i) = hc_teardown (chan_at h i)" if "i < length (hb_heap h)" for i
    using that up by (simp add: close_lock_def Let_def nth_modify_each)
  have tm: "tm_ch (hb_timers ?h ! t) = tm_ch (hb_timers h ! t)" if "t < length (hb_timers h)" for t
  proof -
    have "map tm_ch (hb_timers ?h) = map tm_ch (hb_timers h)"
      using up by (simp add: close_lock_def Let_def map_modify_each stop_timer_def)
    from arg_cong[OF this, of "\<lambda>xs. xs ! t"] that show ?thesis by simp
  qed
  note empty = close_lock_subs_empty[OF ok up, of _ subs]
  have "subs_count ?h = 0"
  proof -
    have "map (\<lambda>c. int (length (hc_subs c))) (hb_heap ?h) = map (\<lambda>_. 0) (hb_heap ?h)"
      by (rule nth_equalityI) (simp_all add: empty)
    then show ?thesis by (simp only: subs_count_def) simp
  qed
  with ok show ?thesis
    by (auto simp: registry_ok_def heap_ok_def refs_ok_def map_ok_def live_ok_def caps_ok_def idle_ok_def
        closed_ok_def empty hp tm)
qed

section \<open>Every step\<close>

lemma same_registry_heap_step:
  assumes "\<And>c. hc_id (f c) = hc_id c" "\<And>c. hc_subs (f c) = hc_subs c"
    "\<And>c. hc_teardown (f c) = hc_teardown c" "\<And>c. hc_cancelled (f c) = hc_cancelled c"
  shows "same_registry h (h\<lparr>hb_heap := modify_at i f (hb_heap h)\<rparr>)"
  using assms by (simp add: same_registry_def map_modify_at)

lemma same_registry_subs_step:
  assumes "\<And>b. sb_ch (f b) = sb_ch b"
  shows "same_registry h (h\<lparr>hb_subs := modify_at s f (hb_subs h)\<rparr>)"
  using assms by (simp add: same_registry_def map_modify_at)

lemma same_registry_refl [simp]: "same_registry h h"
  by (simp add: same_registry_def)

lemma same_registry_trans: "same_registry h h1 \<Longrightarrow> same_registry h1 h2 \<Longrightarrow> same_registry h h2"
  by (auto simp: same_registry_def)

lemma same_registry_flush [simp]: "same_registry h (set_flush i f h)"
  unfolding set_flush_def by (rule same_registry_heap_step) simp_all

lemma same_registry_push [simp]: "same_registry h (push i m h)"
  unfolding push_def by (rule same_registry_heap_step) simp_all

lemma same_registry_drain [simp]: "same_registry h (drain i h)"
proof -
  have "same_registry h (h\<lparr>hb_heap := modify_at i (\<lambda>c. c\<lparr>hc_buffer := []\<rparr>) (hb_heap h)\<rparr>)"
    by (rule same_registry_heap_step) simp_all
  then show ?thesis by (auto simp: drain_def Let_def intro: same_registry_trans)
qed

lemma same_registry_snapshot [simp]: "same_registry h (snapshot_subs i subs raw h)"
  by (simp add: snapshot_subs_def)

lemma same_registry_build [simp]: "same_registry h (build_one i subs m ms seen msgs answer h)"
proof -
  have "same_registry h (h\<lparr>hb_next_id := n\<rparr>)" for n by (simp add: same_registry_def)
  then show ?thesis
    by (auto simp: build_one_def Let_def split: prod.splits intro: same_registry_trans[OF _ same_registry_flush])
qed

lemma same_registry_panic [simp]: "same_registry h (h\<lparr>hb_panic := b\<rparr>)"
  by (simp add: same_registry_def)

lemma same_registry_send [simp]: "same_registry h (send_one i s ss data h)"
proof -
  have "same_registry h (h\<lparr>hb_subs := modify_at s (\<lambda>b. b\<lparr>sb_queue := sb_queue b @ [data]\<rparr>) (hb_subs h)\<rparr>)"
    by (rule same_registry_subs_step) simp
  then show ?thesis by (auto simp: send_one_def intro: same_registry_trans)
qed

lemma same_registry_receive [simp]: "same_registry h (receive s h)"
  unfolding receive_def by (rule same_registry_subs_step) simp

lemma same_registry_close_one: "hb_closing h = Some (s # ss) \<Longrightarrow> same_registry h (close_one s ss h)"
  by (auto simp: close_one_def same_registry_def map_modify_at)

lemma same_registry_ingest [simp]:
  "same_registry h (h\<lparr>hb_heap := modify_at i (\<lambda>c. c\<lparr>hc_ingest_done := True\<rparr>) (hb_heap h)\<rparr>)"
  by (rule same_registry_heap_step) simp_all

lemma registry_step:
  assumes "hub_step e h = Some h'" "registry_ok h"
  shows "registry_ok h'"
proof (cases e)
  case (EvSubscribe cid)
  with assms show ?thesis by (auto intro: registry_Subscribe)
next
  case (EvUnsubscribe s)
  with assms show ?thesis by (auto intro: registry_Unsubscribe split: if_splits)
next
  case (EvTimer t)
  with assms show ?thesis by (auto intro: registry_timer_fires split: if_splits)
next
  case (EvTeardown t)
  with assms show ?thesis by (auto intro: registry_teardown split: if_splits)
next
  case (EvClose subs)
  with assms show ?thesis by (auto intro: registry_close_lock split: if_splits)
next
  case (EvInject cid m)
  with assms have "same_registry h h'" by (auto simp: Inject_def split: option.splits)
  with assms show ?thesis by (blast intro: registry_frame)
next
  case EvCancel
  with assms have "same_registry h h'" by (auto simp: same_registry_def split: if_splits)
  with assms show ?thesis by (blast intro: registry_frame)
next
  case EvCloseSub
  with assms have "same_registry h h'"
    by (auto intro: same_registry_close_one split: if_splits option.splits list.splits)
  with assms show ?thesis by (blast intro: registry_frame)
qed (use assms in \<open>auto intro!: registry_frame[where h = h] split: if_splits flush.splits list.splits\<close>)

lemma registry_start: "registry_ok (hub_new mc mt)"
  by (auto simp: hub_new_def registry_ok_def registry_parts subs_count_def)

theorem registry_reachable: "reachable mc mt h \<Longrightarrow> registry_ok h"
  by (induction rule: reachable.induct) (auto intro: registry_start registry_step)

lemma limits_step: "hub_step e h = Some h' \<Longrightarrow>
  hb_max_channel h' = hb_max_channel h \<and> hb_max_total h' = hb_max_total h"
proof (cases e)
  case (EvSubscribe cid)
  have "hb_max_channel (snd (Subscribe cid h)) = hb_max_channel h \<and> hb_max_total (snd (Subscribe cid h)) = hb_max_total h"
    by (cases cid h rule: Subscribe_cases)
      (simp_all add: joined_hub_def add_sub_def Let_def stop_teardown_keeps with_channel_def)
  then show "hub_step e h = Some h' \<Longrightarrow> ?thesis" using EvSubscribe by auto
qed (auto simp: Unsubscribe_def timer_fires_def teardown_callback_def Inject_def push_def drain_def snapshot_subs_def
    build_one_def send_one_def receive_def close_lock_def close_one_def set_flush_def Let_def
    split: if_splits option.splits flush.splits list.splits prod.splits)

lemma limits_reachable:
  "reachable mc mt h \<Longrightarrow> hb_max_channel h = (if mc = 0 then 10 else mc) \<and> hb_max_total h = (if mt = 0 then 1000 else mt)"
proof (induction rule: reachable.induct)
  case (step h e h')
  with limits_step[OF step.hyps(2)] show ?case by simp
qed (simp add: hub_new_def defaultMaxPerChannel_def defaultMaxTotal_def)

end
