(* ===== verification/HubFlow.thy ===== *)
theory HubFlow
  imports HubInv
begin

text \<open>
  What flows through the hub: the batches a channel builds and sends, the queues of its widgets
  and the closing of their channels at shutdown.
\<close>

section \<open>Batches and queues\<close>

definition ids_of :: "subscription \<Rightarrow> int list" where
  "ids_of b = map bm_id (concat (sb_got b @ sb_queue b))"

text \<open>The messages a widget was sent have increasing ids, and its queue is within the buffer.\<close>

definition sub_flow :: "int \<Rightarrow> subscription \<Rightarrow> bool" where
  "sub_flow n b \<longleftrightarrow> sorted_wrt (<) (ids_of b) \<and> (\<forall>x\<in>set (ids_of b). x \<le> n)
     \<and> length (sb_queue b) \<le> subscriberBuffer"

definition batch_flow :: "int \<Rightarrow> batch_message list \<Rightarrow> bool" where
  "batch_flow n data \<longleftrightarrow> sorted_wrt (<) (map bm_id data) \<and> (\<forall>y\<in>set data. bm_id y \<le> n)"

text \<open>The widgets a batch is for, and that its ids come after all they were sent.\<close>

definition targets :: "subscription list \<Rightarrow> nat \<Rightarrow> nat list \<Rightarrow> batch_message list \<Rightarrow> bool" where
  "targets subs i ss data \<longleftrightarrow> distinct ss \<and> (\<forall>s\<in>set ss. s < length subs \<and> sb_ch (subs ! s) = i
     \<and> (\<forall>x\<in>set (ids_of (subs ! s)). \<forall>y\<in>set data. x < bm_id y))"

definition flush_flow :: "int \<Rightarrow> subscription list \<Rightarrow> nat \<Rightarrow> flush \<Rightarrow> bool" where
  "flush_flow n subs i f = (case f of
     FBuilding ss todo seen data \<Rightarrow>
       length todo + length data \<le> maxBatch \<and> targets subs i ss data \<and> batch_flow n data
   | FSending ss data \<Rightarrow> length data \<le> maxBatch \<and> targets subs i ss data \<and> batch_flow n data
   | _ \<Rightarrow> True)"

definition flow_ok :: "hub \<Rightarrow> bool" where
  "flow_ok h \<longleftrightarrow> (\<forall>s<length (hb_subs h). sub_flow (hb_next_id h) (hb_subs h ! s))
     \<and> (\<forall>i<length (hb_heap h). flush_flow (hb_next_id h) (hb_subs h) i (hc_flush (chan_at h i)))"

lemma sub_flow_mono: "sub_flow n b \<Longrightarrow> n \<le> n' \<Longrightarrow> sub_flow n' b"
  by (fastforce simp: sub_flow_def)

lemma batch_flow_mono: "batch_flow n d \<Longrightarrow> n \<le> n' \<Longrightarrow> batch_flow n' d"
  by (fastforce simp: batch_flow_def)

lemma targets_frame:
  assumes "targets subs i ss data" "length subs \<le> length subs'"
    and "\<And>s. s < length subs \<Longrightarrow> sb_ch (subs ! s) = i \<Longrightarrow>
      sb_ch (subs' ! s) = i \<and> ids_of (subs' ! s) = ids_of (subs ! s)"
  shows "targets subs' i ss data"
  using assms unfolding targets_def by fastforce

lemma flush_flow_frame:
  assumes "flush_flow n subs i f" "length subs \<le> length subs'" "n \<le> n'"
    and "\<And>s. s < length subs \<Longrightarrow> sb_ch (subs ! s) = i \<Longrightarrow>
      sb_ch (subs' ! s) = i \<and> ids_of (subs' ! s) = ids_of (subs ! s)"
  shows "flush_flow n' subs' i f"
  using assms by (auto simp: flush_flow_def intro: targets_frame batch_flow_mono split: flush.splits)

text \<open>Steps that touch no flush and no queue.\<close>

definition same_flow :: "hub \<Rightarrow> hub \<Rightarrow> bool" where
  "same_flow h h' \<longleftrightarrow> hb_next_id h' = hb_next_id h
     \<and> length (hb_subs h) \<le> length (hb_subs h') \<and> length (hb_heap h) \<le> length (hb_heap h')
     \<and> (\<forall>s<length (hb_subs h'). if s < length (hb_subs h)
          then sb_ch (hb_subs h' ! s) = sb_ch (hb_subs h ! s) \<and> sb_queue (hb_subs h' ! s) = sb_queue (hb_subs h ! s)
               \<and> sb_got (hb_subs h' ! s) = sb_got (hb_subs h ! s)
          else sb_queue (hb_subs h' ! s) = [] \<and> sb_got (hb_subs h' ! s) = [])
     \<and> (\<forall>i<length (hb_heap h'). hc_flush (chan_at h' i) =
          (if i < length (hb_heap h) then hc_flush (chan_at h i) else FIdle))"

lemma flow_frame:
  assumes same: "same_flow h h'" and ok: "flow_ok h"
  shows "flow_ok h'"
  unfolding flow_ok_def
proof (intro conjI allI impI)
  fix s assume "s < length (hb_subs h')"
  with same ok show "sub_flow (hb_next_id h') (hb_subs h' ! s)"
    by (cases "s < length (hb_subs h)") (auto simp: same_flow_def flow_ok_def sub_flow_def ids_of_def)
next
  fix i assume i: "i < length (hb_heap h')"
  show "flush_flow (hb_next_id h') (hb_subs h') i (hc_flush (chan_at h' i))"
  proof (cases "i < length (hb_heap h)")
    case True
    with same i have f: "hc_flush (chan_at h' i) = hc_flush (chan_at h i)" by (simp add: same_flow_def)
    from True ok have "flush_flow (hb_next_id h) (hb_subs h) i (hc_flush (chan_at h i))" by (simp add: flow_ok_def)
    then show ?thesis
      unfolding f by (rule flush_flow_frame) (use same in \<open>auto simp: same_flow_def ids_of_def\<close>)
  next
    case False
    with same i have "hc_flush (chan_at h' i) = FIdle" by (simp add: same_flow_def)
    then show ?thesis by (simp add: flush_flow_def)
  qed
qed

lemma same_flow_refl [simp]: "same_flow h h"
  by (simp add: same_flow_def)

lemma same_flow_trans:
  assumes "same_flow h h1" "same_flow h1 h2"
  shows "same_flow h h2"
  unfolding same_flow_def
proof (intro conjI allI impI)
  fix s assume "s < length (hb_subs h2)"
  with assms show "if s < length (hb_subs h)
          then sb_ch (hb_subs h2 ! s) = sb_ch (hb_subs h ! s) \<and> sb_queue (hb_subs h2 ! s) = sb_queue (hb_subs h ! s)
               \<and> sb_got (hb_subs h2 ! s) = sb_got (hb_subs h ! s)
          else sb_queue (hb_subs h2 ! s) = [] \<and> sb_got (hb_subs h2 ! s) = []"
    unfolding same_flow_def by (cases "s < length (hb_subs h1)"; cases "s < length (hb_subs h)") auto
next
  fix i assume "i < length (hb_heap h2)"
  with assms show "hc_flush (chan_at h2 i) = (if i < length (hb_heap h) then hc_flush (chan_at h i) else FIdle)"
    unfolding same_flow_def by (cases "i < length (hb_heap h1)") auto
qed (use assms in \<open>auto simp: same_flow_def\<close>)

lemma same_flow_stop [simp]: "same_flow h (stop_teardown i h)"
  by (auto simp: stop_teardown_def same_flow_def split: option.splits)

lemma same_flow_add [simp]: "same_flow h (snd (add_sub i h))"
  by (auto simp: add_sub_def same_flow_def Let_def nth_append)

lemma same_flow_with_channel [simp]: "same_flow h (with_channel cid h)"
  by (auto simp: with_channel_def same_flow_def nth_append fresh_channel_def)

lemma same_flow_joined [simp]: "same_flow h (joined_hub i h)"
  unfolding joined_hub_def by (rule same_flow_trans[OF same_flow_stop same_flow_add])

lemma same_flow_Subscribe [simp]: "same_flow h (snd (Subscribe cid h))"
proof (cases cid h rule: Subscribe_cases)
  case new
  then show ?thesis using same_flow_trans[OF same_flow_with_channel same_flow_joined] by simp
qed simp_all

lemma same_flow_Unsubscribe [simp]: "same_flow h (Unsubscribe s h)"
  by (auto simp: Unsubscribe_def Let_def same_flow_def)

lemma same_flow_timer [simp]: "same_flow h (timer_fires t h)"
  by (auto simp: timer_fires_def same_flow_def)

lemma same_flow_teardown [simp]: "same_flow h (teardown_callback t h)"
  by (auto simp: teardown_callback_def same_flow_def Let_def)

lemma same_flow_push [simp]: "same_flow h (push i m h)"
  by (auto simp: push_def same_flow_def)

lemma same_flow_Inject [simp]: "same_flow h (snd (Inject cid m h))"
  by (simp add: Inject_def split: option.splits)

lemma same_flow_close_lock [simp]: "same_flow h (close_lock subs h)"
  by (simp add: close_lock_def same_flow_def Let_def nth_modify_each)

lemma same_flow_close_one [simp]: "same_flow h (close_one s ss h)"
  by (auto simp: close_one_def same_flow_def)

text \<open>Steps of a flush.\<close>

lemma flow_set_flush:
  assumes "flow_ok h" "flush_flow (hb_next_id h) (hb_subs h) i f"
  shows "flow_ok (set_flush i f h)"
  using assms by (auto simp: flow_ok_def set_flush_def)

lemma flow_drain: "flow_ok h \<Longrightarrow> flow_ok (drain i h)"
proof -
  assume ok: "flow_ok h"
  have "same_flow h (h\<lparr>hb_heap := modify_at i (\<lambda>c. c\<lparr>hc_buffer := []\<rparr>) (hb_heap h)\<rparr>)"
    by (auto simp: same_flow_def)
  then have "flow_ok (h\<lparr>hb_heap := modify_at i (\<lambda>c. c\<lparr>hc_buffer := []\<rparr>) (hb_heap h)\<rparr>)"
    using ok by (rule flow_frame)
  then show ?thesis
    by (auto simp: drain_def Let_def flush_flow_def intro: flow_set_flush)
qed

lemma flow_snapshot:
  assumes ok: "flow_ok h" "registry_ok h" and i: "i < length (hb_heap h)"
    and subs: "mset subs = mset (hc_subs (chan_at h i))"
  shows "flow_ok (snapshot_subs i subs raw h)"
proof -
  from ok(2) i have "distinct (hc_subs (chan_at h i))"
    "\<forall>s\<in>set (hc_subs (chan_at h i)). s < length (hb_subs h) \<and> sb_ch (hb_subs h ! s) = i"
    by (simp_all add: registry_ok_def heap_ok_def)
  moreover have "set subs = set (hc_subs (chan_at h i))" using subs by (metis set_mset_mset)
  moreover have "distinct subs \<longleftrightarrow> distinct (hc_subs (chan_at h i))" using subs by (rule mset_eq_imp_distinct_iff)
  ultimately have "targets (hb_subs h) i subs []" by (simp add: targets_def)
  then show ?thesis using ok(1)
    by (auto simp: snapshot_subs_def flush_flow_def batch_flow_def intro!: flow_set_flush)
qed

lemma flow_build:
  assumes ok: "flow_ok h" and i: "i < length (hb_heap h)"
    and f: "hc_flush (chan_at h i) = FBuilding subs (m # ms) seen msgs"
  shows "flow_ok (build_one i subs m ms seen msgs answer h)"
proof -
  let ?n = "hb_next_id h"
  obtain res seen' where r: "sender_result seen (cm_sender m) answer = (res, seen')" by fastforce
  from ok i have ff: "flush_flow ?n (hb_subs h) i (FBuilding subs (m # ms) seen msgs)"
    unfolding f[symmetric] by (simp add: flow_ok_def)
  have le: "\<forall>x\<in>set (ids_of (hb_subs h ! s)). x \<le> ?n" if "s < length (hb_subs h)" for s
    using ok that by (auto simp: flow_ok_def sub_flow_def)
  have "flow_ok (h\<lparr>hb_next_id := ?n + 1\<rparr>)"
    using ok by (auto simp: flow_ok_def intro: sub_flow_mono flush_flow_frame)
  moreover have "flush_flow (?n + 1) (hb_subs h) i (FBuilding subs ms seen' (msgs @ [batch_line (?n + 1) m res]))"
    using ff le by (fastforce simp: flush_flow_def targets_def batch_flow_def batch_line_def sorted_wrt_append)
  ultimately show ?thesis by (simp add: build_one_def r flow_set_flush Let_def)
qed

lemma flow_built:
  assumes "flow_ok h" "i < length (hb_heap h)" "hc_flush (chan_at h i) = FBuilding subs [] seen msgs"
  shows "flow_ok (set_flush i (FSending subs msgs) h)"
proof -
  from assms have "flush_flow (hb_next_id h) (hb_subs h) i (FBuilding subs [] seen msgs)"
    by (metis flow_ok_def)
  then show ?thesis using assms(1) by (intro flow_set_flush) (simp_all add: flush_flow_def)
qed

lemma ids_of_snoc: "ids_of (b\<lparr>sb_queue := sb_queue b @ [data]\<rparr>) = ids_of b @ map bm_id data"
  by (simp add: ids_of_def)

lemma flow_subs:
  assumes "flow_ok h" "s < length (hb_subs h)" "sub_flow (hb_next_id h) (f (hb_subs h ! s))"
    and "\<And>j. j < length (hb_heap h) \<Longrightarrow>
      flush_flow (hb_next_id h) (modify_at s f (hb_subs h)) j (hc_flush (chan_at h j))"
  shows "flow_ok (h\<lparr>hb_subs := modify_at s f (hb_subs h)\<rparr>)"
  unfolding flow_ok_def
proof (intro conjI allI impI)
  fix u assume "u < length (hb_subs (h\<lparr>hb_subs := modify_at s f (hb_subs h)\<rparr>))"
  with assms(1,3) show "sub_flow (hb_next_id (h\<lparr>hb_subs := modify_at s f (hb_subs h)\<rparr>))
      (hb_subs (h\<lparr>hb_subs := modify_at s f (hb_subs h)\<rparr>) ! u)"
    by (auto simp: flow_ok_def)
next
  fix j assume "j < length (hb_heap (h\<lparr>hb_subs := modify_at s f (hb_subs h)\<rparr>))"
  with assms(4) show "flush_flow (hb_next_id (h\<lparr>hb_subs := modify_at s f (hb_subs h)\<rparr>))
      (hb_subs (h\<lparr>hb_subs := modify_at s f (hb_subs h)\<rparr>)) j
      (hc_flush (chan_at (h\<lparr>hb_subs := modify_at s f (hb_subs h)\<rparr>) j))" by simp
qed

lemma flow_sent:
  assumes ok: "flow_ok h" and i: "i < length (hb_heap h)"
    and f: "hc_flush (chan_at h i) = FSending (s # ss) data"
  shows "flow_ok (set_flush i (FSending ss data) h)"
proof (rule flow_set_flush[OF ok])
  from ok i have "flush_flow (hb_next_id h) (hb_subs h) i (FSending (s # ss) data)"
    unfolding f[symmetric] by (simp add: flow_ok_def)
  then show "flush_flow (hb_next_id h) (hb_subs h) i (FSending ss data)"
    by (simp add: flush_flow_def targets_def)
qed

lemma flow_enqueue:
  assumes ok: "flow_ok h" and i: "i < length (hb_heap h)"
    and t: "targets (hb_subs h) i (s # ss) data" "batch_flow (hb_next_id h) data"
    and f: "hc_flush (chan_at h i) = FSending ss data"
    and room: "length (sb_queue (hb_subs h ! s)) < subscriberBuffer"
  shows "flow_ok (h\<lparr>hb_subs := modify_at s (\<lambda>b. b\<lparr>sb_queue := sb_queue b @ [data]\<rparr>) (hb_subs h)\<rparr>)"
proof (rule flow_subs[OF ok])
  let ?b = "hb_subs h ! s"
  let ?subs = "modify_at s (\<lambda>b. b\<lparr>sb_queue := sb_queue b @ [data]\<rparr>) (hb_subs h)"
  from t(1) show s: "s < length (hb_subs h)" by (simp add: targets_def)
  have b: "\<forall>x\<in>set (ids_of ?b). \<forall>y\<in>set data. x < bm_id y" "s \<notin> set ss" "sb_ch ?b = i"
    using t(1) by (auto simp: targets_def)
  have sf: "sub_flow (hb_next_id h) ?b" using ok s by (simp add: flow_ok_def)
  show "sub_flow (hb_next_id h) (?b\<lparr>sb_queue := sb_queue ?b @ [data]\<rparr>)"
    unfolding sub_flow_def ids_of_snoc
    using sf b t(2) room by (auto simp: sub_flow_def sorted_wrt_append batch_flow_def)
  fix j assume j: "j < length (hb_heap h)"
  have fj: "flush_flow (hb_next_id h) (hb_subs h) j (hc_flush (chan_at h j))"
    using ok j by (simp add: flow_ok_def)
  show "flush_flow (hb_next_id h) ?subs j (hc_flush (chan_at h j))"
  proof (cases "j = i")
    case True
    have "targets ?subs i ss data"
      unfolding targets_def
    proof (intro conjI ballI)
      fix u assume u: "u \<in> set ss"
      with b(2) have "u \<noteq> s" by auto
      moreover from u t(1) have "u < length (hb_subs h)" "sb_ch (hb_subs h ! u) = i"
        "\<forall>x\<in>set (ids_of (hb_subs h ! u)). \<forall>y\<in>set data. x < bm_id y" by (simp_all add: targets_def)
      ultimately show "u < length ?subs" "sb_ch (?subs ! u) = i"
        "\<And>x y. x \<in> set (ids_of (?subs ! u)) \<Longrightarrow> y \<in> set data \<Longrightarrow> x < bm_id y" by simp_all
    qed (use t(1) in \<open>simp add: targets_def\<close>)
    with fj True f show ?thesis by (simp add: flush_flow_def)
  next
    case False
    show ?thesis
      by (rule flush_flow_frame[OF fj]) (use s b(3) False in auto)
  qed
qed

lemma flow_send:
  assumes ok: "flow_ok h" and i: "i < length (hb_heap h)"
    and f: "hc_flush (chan_at h i) = FSending (s # ss) data"
  shows "flow_ok (send_one i s ss data h)"
proof -
  let ?b = "hb_subs h ! s"
  let ?h = "set_flush i (FSending ss data) h"
  let ?g = "\<lambda>b. b\<lparr>sb_queue := sb_queue b @ [data]\<rparr>"
  from ok i have ff: "flush_flow (hb_next_id h) (hb_subs h) i (FSending (s # ss) data)"
    unfolding f[symmetric] by (simp add: flow_ok_def)
  have s: "flow_ok ?h" using flow_sent[OF ok i f] .
  show ?thesis
  proof (cases "sb_closed ?b \<or> \<not> length (sb_queue ?b) < subscriberBuffer")
    case True
    have "flow_ok (h\<lparr>hb_panic := True\<rparr>)" using ok by (simp add: flow_ok_def)
    with True s show ?thesis by (auto simp: send_one_def)
  next
    case False
    have "flow_ok (?h\<lparr>hb_subs := modify_at s ?g (hb_subs ?h)\<rparr>)"
      by (rule flow_enqueue[OF s, of i _ ss]) (use False ff i in \<open>simp_all add: set_flush_def flush_flow_def\<close>)
    moreover have "?h\<lparr>hb_subs := modify_at s ?g (hb_subs ?h)\<rparr>
        = set_flush i (FSending ss data) (h\<lparr>hb_subs := modify_at s ?g (hb_subs h)\<rparr>)"
      by (simp add: set_flush_def)
    ultimately show ?thesis using False by (simp add: send_one_def)
  qed
qed

lemma flow_receive:
  assumes ok: "flow_ok h" and s: "s < length (hb_subs h)" and q: "sb_queue (hb_subs h ! s) \<noteq> []"
  shows "flow_ok (receive s h)"
  unfolding receive_def
proof (rule flow_subs[OF ok s])
  let ?f = "\<lambda>b. b\<lparr>sb_queue := tl (sb_queue b), sb_got := sb_got b @ [hd (sb_queue b)]\<rparr>"
  have ids: "ids_of (?f (hb_subs h ! s)) = ids_of (hb_subs h ! s)"
    using q by (cases "sb_queue (hb_subs h ! s)") (simp_all add: ids_of_def)
  show "sub_flow (hb_next_id h) (?f (hb_subs h ! s))"
    unfolding sub_flow_def ids
    using ok s by (auto simp: flow_ok_def sub_flow_def)
  fix j assume "j < length (hb_heap h)"
  then have "flush_flow (hb_next_id h) (hb_subs h) j (hc_flush (chan_at h j))"
    using ok by (simp add: flow_ok_def)
  then show "flush_flow (hb_next_id h) (modify_at s ?f (hb_subs h)) j (hc_flush (chan_at h j))"
    by (rule flush_flow_frame) (use ids in auto)
qed

lemma flow_step:
  assumes "hub_step e h = Some h'" "flow_ok h" "registry_ok h"
  shows "flow_ok h'"
proof (cases e)
  case (EvTick i)
  with assms show ?thesis by (auto intro: flow_drain split: if_splits)
next
  case (EvSnapshot i subs)
  with assms show ?thesis by (auto intro: flow_snapshot split: if_splits flush.splits)
next
  case (EvBuild i answer)
  with assms show ?thesis by (auto intro: flow_build flow_built split: if_splits flush.splits list.splits)
next
  case (EvSend i)
  with assms show ?thesis
    by (auto intro: flow_send flow_set_flush split: if_splits flush.splits list.splits simp: flush_flow_def)
next
  case (EvReceive s)
  with assms show ?thesis by (auto intro: flow_receive split: if_splits)
next
  case (EvFlushExit i)
  with assms show ?thesis by (auto intro: flow_set_flush split: if_splits simp: flush_flow_def)
next
  case (EvIngestExit i)
  with assms have "same_flow h h'" by (auto simp: same_flow_def split: if_splits)
  with assms show ?thesis by (blast intro: flow_frame)
next
  case EvCancel
  with assms have "same_flow h h'" by (auto simp: same_flow_def split: if_splits)
  with assms show ?thesis by (blast intro: flow_frame)
next
  case EvCloseSub
  with assms have "same_flow h h'" by (auto split: if_splits option.splits list.splits)
  with assms show ?thesis by (blast intro: flow_frame)
qed (use assms in \<open>auto intro!: flow_frame[where h = h] split: if_splits\<close>)

lemma flow_start: "flow_ok (hub_new mc mt)"
  by (simp add: flow_ok_def hub_new_def)

lemma flow_reachable: "reachable mc mt h \<Longrightarrow> flow_ok h"
proof (induction rule: reachable.induct)
  case (step h e h')
  then show ?case by (blast intro: flow_step registry_reachable)
qed (rule flow_start)

section \<open>Shutdown\<close>

text \<open>A widget's channel is closed only when no goroutine is left to send on it.\<close>

definition closing_ok :: "hub \<Rightarrow> bool" where
  "closing_ok h \<longleftrightarrow> \<not> hb_panic h
     \<and> (\<forall>ss. hb_closing h = Some ss \<longrightarrow>
          distinct ss \<and> (\<forall>s\<in>set ss. s < length (hb_subs h) \<and> \<not> sb_closed (hb_subs h ! s)))
     \<and> (\<forall>s<length (hb_subs h). sb_closed (hb_subs h ! s) \<longrightarrow> hb_cancelled h \<and> all_exited h)"

lemma all_exited_iff: "all_exited h \<longleftrightarrow> (\<forall>i<length (hb_heap h). exited (chan_at h i))"
  by (simp add: all_exited_def list_all_length)

lemma all_exited_frame:
  assumes "all_exited h" "length (hb_heap h') = length (hb_heap h)"
    and "\<And>i. i < length (hb_heap h) \<Longrightarrow> exited (chan_at h i) \<Longrightarrow> exited (chan_at h' i)"
  shows "all_exited h'"
  using assms by (simp add: all_exited_iff)

lemma exited_step:
  assumes "hub_step e h = Some h'" "all_exited h" "hb_closed h"
  shows "all_exited h'"
proof -
  have x: "i < length (hb_heap h) \<Longrightarrow> hc_flush (chan_at h i) = FExited" for i
    using assms(2) by (simp add: all_exited_iff exited_def)
  show ?thesis
  proof (cases e)
    case (EvSubscribe cid)
    with assms show ?thesis by (simp add: Subscribe_closed)
  next
    case (EvInject cid m)
    with assms show ?thesis
      by (auto simp: Inject_def push_def exited_def intro: all_exited_frame[OF assms(2)] split: option.splits)
  next
    case EvCloseSub
    with assms show ?thesis
      by (auto simp: close_one_def all_exited_def split: if_splits option.splits list.splits)
  qed (use assms x in \<open>auto simp: Unsubscribe_def timer_fires_def teardown_callback_def push_def receive_def
      close_lock_def Let_def exited_def intro!: all_exited_frame[OF assms(2)] split: if_splits\<close>)
qed

lemma distinct_concat_by:
  "\<lbrakk>distinct xs; \<And>x. x \<in> set xs \<Longrightarrow> distinct (f x) \<and> (\<forall>y\<in>set (f x). g y = x)\<rbrakk>
   \<Longrightarrow> distinct (concat (map f xs))"
proof (induction xs)
  case (Cons a xs)
  have "distinct (concat (map f xs))" using Cons.prems by (intro Cons.IH) auto
  moreover have "y \<notin> set (f x)" if "y \<in> set (f a)" "x \<in> set xs" for x y
  proof
    assume "y \<in> set (f x)"
    with that Cons.prems(2)[of a] Cons.prems(2)[of x] have "a = x" by auto
    with that Cons.prems(1) show False by simp
  qed
  ultimately show ?case using Cons.prems(2)[of a] by auto
qed simp

lemma distinct_refs:
  assumes "registry_ok h"
  shows "distinct (map snd (hb_channels h))"
proof -
  from assms have d: "distinct (map fst (hb_channels h))"
    and k: "\<And>cid i. map_of (hb_channels h) cid = Some i \<Longrightarrow> hc_id (chan_at h i) = cid"
    by (auto simp: registry_ok_def map_ok_def gomap_ok_def)
  have "hc_id (chan_at h (snd p)) = fst p" if "p \<in> set (hb_channels h)" for p
    using k map_of_is_SomeI[OF d, of "fst p" "snd p"] that by simp
  then have "inj_on snd (set (hb_channels h))" by (metis inj_onI prod.expand)
  moreover have "distinct (hb_channels h)" using d by (simp add: distinct_map)
  ultimately show ?thesis by (simp add: distinct_map)
qed

lemma channel_refs:
  assumes "registry_ok h" "i \<in> set (map snd (hb_channels h))"
  shows "i < length (hb_heap h)"
proof -
  from assms(2) obtain p where p: "p \<in> set (hb_channels h)" "snd p = i" by auto
  from assms(1) have d: "distinct (map fst (hb_channels h))" by (simp add: registry_ok_def map_ok_def gomap_ok_def)
  from map_of_is_SomeI[OF d, of "fst p" "snd p"] p assms(1) show ?thesis
    by (auto simp: registry_ok_def map_ok_def)
qed

lemma distinct_all_subs: "registry_ok h \<Longrightarrow> distinct (all_subs h)"
  unfolding all_subs_def
proof (rule distinct_concat_by[OF distinct_refs, where g = "\<lambda>s. sb_ch (hb_subs h ! s)"])
  fix i assume "registry_ok h" "i \<in> set (map snd (hb_channels h))"
  then show "distinct (hc_subs (chan_at h i)) \<and> (\<forall>s\<in>set (hc_subs (chan_at h i)). sb_ch (hb_subs h ! s) = i)"
    using channel_refs[of h i] by (simp add: registry_ok_def heap_ok_def)
qed

lemma all_subs_valid:
  assumes ok: "registry_ok h" and s: "s \<in> set (all_subs h)"
  shows "s < length (hb_subs h)"
proof -
  from s obtain i where i: "i \<in> set (map snd (hb_channels h))" "s \<in> set (hc_subs (chan_at h i))"
    by (auto simp: all_subs_def)
  with channel_refs[OF ok i(1)] ok show ?thesis by (auto simp: registry_ok_def heap_ok_def)
qed

text \<open>Steps that neither close a widget's channel nor begin to.\<close>

definition same_closing :: "hub \<Rightarrow> hub \<Rightarrow> bool" where
  "same_closing h h' \<longleftrightarrow> hb_panic h' = hb_panic h \<and> hb_closing h' = hb_closing h
     \<and> (hb_cancelled h \<longrightarrow> hb_cancelled h') \<and> length (hb_subs h) \<le> length (hb_subs h')
     \<and> (\<forall>s<length (hb_subs h'). sb_closed (hb_subs h' ! s)
          = (s < length (hb_subs h) \<and> sb_closed (hb_subs h ! s)))"

lemma same_closing_refl [simp]: "same_closing h h"
  by (simp add: same_closing_def)

lemma closing_frame:
  assumes "same_closing h h'" "closing_ok h" "hb_cancelled h \<Longrightarrow> all_exited h \<Longrightarrow> all_exited h'"
  shows "closing_ok h'"
proof -
  from assms(1) have eq: "hb_panic h' = hb_panic h" "hb_closing h' = hb_closing h"
    "hb_cancelled h \<Longrightarrow> hb_cancelled h'" "length (hb_subs h) \<le> length (hb_subs h')"
    "\<And>s. s < length (hb_subs h') \<Longrightarrow> sb_closed (hb_subs h' ! s)
       = (s < length (hb_subs h) \<and> sb_closed (hb_subs h ! s))"
    by (simp_all add: same_closing_def)
  show ?thesis
    unfolding closing_ok_def
  proof (intro conjI allI impI ballI)
    show "\<not> hb_panic h'" using assms(2) eq(1) by (simp add: closing_ok_def)
  next
    fix ss assume c: "hb_closing h' = Some ss"
    with eq(2) have "hb_closing h = Some ss" by simp
    with assms(2) have ss: "distinct ss" "\<And>s. s \<in> set ss \<Longrightarrow> s < length (hb_subs h) \<and> \<not> sb_closed (hb_subs h ! s)"
      by (simp_all add: closing_ok_def)
    show "distinct ss" by (rule ss)
    fix s assume "s \<in> set ss"
    with ss(2) eq(4) show "s < length (hb_subs h')" by (meson less_le_trans)
    with ss(2) eq(5) \<open>s \<in> set ss\<close> show "\<not> sb_closed (hb_subs h' ! s)" by blast
  next
    fix s assume "s < length (hb_subs h')" "sb_closed (hb_subs h' ! s)"
    with eq(5) have "s < length (hb_subs h)" "sb_closed (hb_subs h ! s)" by blast+
    with assms(2) have "hb_cancelled h" "all_exited h" by (simp_all add: closing_ok_def)
    with eq(3) assms(3) show "hb_cancelled h'" "all_exited h'" by blast+
  qed
qed

lemma same_closing_Subscribe [simp]: "same_closing h (snd (Subscribe cid h))"
proof -
  have st: "hb_panic (stop_teardown i g) = hb_panic g" "hb_closing (stop_teardown i g) = hb_closing g"
    "hb_cancelled (stop_teardown i g) = hb_cancelled g" for i g
    by (simp_all add: stop_teardown_def split: option.splits)
  have j: "same_closing h (joined_hub i g)"
    if "hb_panic g = hb_panic h" "hb_closing g = hb_closing h" "hb_cancelled g = hb_cancelled h"
      "hb_subs g = hb_subs h" for i g
    using that by (simp add: same_closing_def joined_hub_def add_sub_def Let_def st stop_teardown_keeps nth_append)
  show ?thesis
    by (cases cid h rule: Subscribe_cases) (simp_all add: j with_channel_def)
qed

lemma same_closing_step:
  assumes "hub_step e h = Some h'" "\<not> (\<exists>subs. e = EvClose subs)" "e \<noteq> EvCloseSub" "closing_ok h" "flow_ok h"
  shows "same_closing h h'"
proof (cases e)
  case (EvSubscribe cid)
  with assms show ?thesis by auto
next
  case (EvSend i)
  show ?thesis
  proof (cases "hc_flush (chan_at h i)")
    case (FSending ss data)
    have "\<not> sb_closed (hb_subs h ! s)" if "i < length (hb_heap h)" "s \<in> set ss" for s
    proof -
      from assms(5) that(1) have "flush_flow (hb_next_id h) (hb_subs h) i (FSending ss data)"
        unfolding FSending[symmetric] by (simp add: flow_ok_def)
      with that(2) have "s < length (hb_subs h)" by (simp add: flush_flow_def targets_def)
      with assms(4) FSending that(1) show ?thesis by (auto simp: closing_ok_def all_exited_iff exited_def)
    qed
    with EvSend assms(1) FSending show ?thesis
      by (auto simp: send_one_def set_flush_def same_closing_def split: if_splits list.splits)
  qed (use EvSend assms in \<open>auto split: if_splits\<close>)
next
  case (EvUnsubscribe s)
  with assms show ?thesis by (auto simp: same_closing_def Unsubscribe_def Let_def split: if_splits)
next
  case (EvTimer t)
  with assms show ?thesis by (auto simp: same_closing_def timer_fires_def split: if_splits)
next
  case (EvTeardown t)
  with assms show ?thesis by (auto simp: same_closing_def teardown_callback_def Let_def split: if_splits)
next
  case (EvInject cid m)
  with assms show ?thesis by (auto simp: same_closing_def Inject_def push_def split: option.splits)
next
  case (EvPush i m)
  with assms show ?thesis by (auto simp: same_closing_def push_def split: if_splits)
next
  case (EvTick i)
  with assms show ?thesis by (auto simp: same_closing_def drain_def set_flush_def Let_def split: if_splits)
next
  case (EvSnapshot i subs)
  with assms show ?thesis
    by (auto simp: same_closing_def snapshot_subs_def set_flush_def split: if_splits flush.splits)
next
  case (EvBuild i answer)
  with assms show ?thesis
    by (auto simp: same_closing_def build_one_def set_flush_def Let_def
        split: if_splits flush.splits list.splits prod.splits)
next
  case (EvReceive s)
  with assms show ?thesis by (auto simp: same_closing_def receive_def split: if_splits)
qed (use assms in \<open>auto simp: same_closing_def set_flush_def split: if_splits\<close>)

lemma closing_step:
  assumes step: "hub_step e h = Some h'" and ok: "closing_ok h" "registry_ok h" "flow_ok h"
  shows "closing_ok h'"
proof -
  have up: "hb_closed h" if "hb_cancelled h" using that ok(2) unfolding registry_ok_def closed_ok_def by blast
  show ?thesis
  proof (cases "(\<exists>subs. e = EvClose subs) \<or> e = EvCloseSub")
    case False
    then have "same_closing h h'" using step ok by (intro same_closing_step) blast+
    then show ?thesis using ok(1) by (rule closing_frame) (rule exited_step[OF step _ up])
  next
    case True
    then show ?thesis
    proof (elim disjE exE)
      fix subs assume e: "e = EvClose subs"
      show ?thesis
      proof (cases "hb_closed h")
        case True
        with e step ok show ?thesis by (simp add: close_lock_def)
      next
        case False
        with e step have m: "mset subs = mset (all_subs h)" and h': "h' = close_lock subs h"
          by (simp_all split: if_splits)
        have d: "distinct subs" using distinct_all_subs[OF ok(2)] mset_eq_imp_distinct_iff[OF m] by simp
        have v: "s < length (hb_subs h)" if "s \<in> set subs" for s
          using all_subs_valid[OF ok(2)] that m by (metis set_mset_mset)
        have c: "\<not> hb_cancelled h" using False up by blast
        with ok(1) have "\<not> sb_closed (hb_subs h ! s)" if "s < length (hb_subs h)" for s
          using that by (auto simp: closing_ok_def)
        with d v False ok(1) h' show ?thesis by (auto simp: closing_ok_def close_lock_def Let_def)
      qed
    next
      assume e: "e = EvCloseSub"
      with step obtain s ss where c: "hb_closing h = Some (s # ss)" "hb_cancelled h" "all_exited h"
        "h' = close_one s ss h" by (auto split: option.splits list.splits if_splits)
      with ok(1) have s: "s < length (hb_subs h)" "\<not> sb_closed (hb_subs h ! s)" "distinct (s # ss)"
        "\<forall>u\<in>set ss. u < length (hb_subs h) \<and> \<not> sb_closed (hb_subs h ! u)" "\<not> hb_panic h"
        by (auto simp: closing_ok_def)
      with c have h': "h' = h\<lparr>hb_subs := modify_at s (\<lambda>b. b\<lparr>sb_closed := True\<rparr>) (hb_subs h), hb_closing := Some ss\<rparr>"
        by (simp add: close_one_def)
      show ?thesis using s c(2,3) unfolding h' closing_ok_def by (auto simp: all_exited_def)
    qed
  qed
qed

lemma closing_reachable: "reachable mc mt h \<Longrightarrow> closing_ok h"
proof (induction rule: reachable.induct)
  case (step h e h')
  then show ?case by (blast intro: closing_step registry_reachable flow_reachable)
qed (simp add: closing_ok_def hub_new_def)

end
