(* ===== verification/HubProps.thy ===== *)
theory HubProps
  imports HubFlow
begin

text \<open>The properties of the hub, over every reachable state and every interleaving.\<close>

section \<open>Flushing one channel\<close>

text \<open>
  What a batch should be: the messages in order, numbered after the last id given out, each
  with the answer the resolver gave when its sender was first met in the batch.
\<close>

definition or_unlinked :: "result option \<Rightarrow> result" where
  "or_unlinked a = (case a of None \<Rightarrow> unlinked_sender | Some r \<Rightarrow> r)"

definition sender_answer :: "(chat_message \<times> result option) list \<Rightarrow> string \<Rightarrow> result" where
  "sender_answer ps s = (case find (\<lambda>p. cm_sender (fst p) = s) ps of
     None \<Rightarrow> unlinked_sender | Some p \<Rightarrow> or_unlinked (snd p))"

definition batch_spec :: "int \<Rightarrow> (chat_message \<times> result option) list \<Rightarrow> batch_message list" where
  "batch_spec n ps = map (\<lambda>(k, p). batch_line (n + 1 + int k) (fst p) (sender_answer ps (cm_sender (fst p))))
     (enumerate 0 ps)"

lemma find_sender: "find (\<lambda>p. cm_sender (fst p) = s) ps = None \<longleftrightarrow> s \<notin> (cm_sender \<circ> fst) ` set ps"
  by (induction ps) auto

lemma sender_answer_append:
  assumes "s \<in> (cm_sender \<circ> fst) ` set ps"
  shows "sender_answer (ps @ qs) s = sender_answer ps s"
proof -
  from assms find_sender[of s ps] have "find (\<lambda>p. cm_sender (fst p) = s) ps \<noteq> None" by simp
  then show ?thesis by (auto simp: sender_answer_def find_append)
qed

lemma sender_answer_new:
  assumes "s \<notin> (cm_sender \<circ> fst) ` set ps"
  shows "sender_answer (ps @ [p]) s = (if cm_sender (fst p) = s then or_unlinked (snd p) else unlinked_sender)"
  using find_sender[THEN iffD2, OF assms] by (simp add: sender_answer_def find_append)

lemma batch_spec_snoc:
  "batch_spec n (ps @ [p]) = batch_spec n ps @
     [batch_line (n + 1 + int (length ps)) (fst p) (sender_answer (ps @ [p]) (cm_sender (fst p)))]"
proof -
  have "sender_answer (ps @ [p]) (cm_sender (fst q)) = sender_answer ps (cm_sender (fst q))" if "q \<in> set ps" for q
    using that by (intro sender_answer_append) auto
  then show ?thesis
    by (auto simp: batch_spec_def enumerate_append_eq dest!: in_set_enumerate_eq[THEN iffD1])
      (metis fst_conv nth_mem)
qed

lemma length_batch_spec [simp]: "length (batch_spec n ps) = length ps"
  by (simp add: batch_spec_def)

definition seen_ok :: "(chat_message \<times> result option) list \<Rightarrow> (string \<times> result) list \<Rightarrow> bool" where
  "seen_ok ps seen \<longleftrightarrow> (\<forall>s. map_of seen s =
     (if s \<in> (cm_sender \<circ> fst) ` set ps then Some (sender_answer ps s) else None))"

lemma sender_result_spec:
  assumes "seen_ok ps seen" "sender_result seen (cm_sender m) a = (res, seen')"
  shows "res = sender_answer (ps @ [(m, a)]) (cm_sender m)" "seen_ok (ps @ [(m, a)]) seen'"
proof -
  have both: "res = sender_answer (ps @ [(m, a)]) (cm_sender m) \<and> seen_ok (ps @ [(m, a)]) seen'"
  proof (cases "cm_sender m \<in> (cm_sender \<circ> fst) ` set ps")
    case True
    with assms have r: "res = sender_answer ps (cm_sender m)" "seen' = seen"
      by (simp_all add: sender_result_def seen_ok_def)
    have "map_of seen s = (if s \<in> (cm_sender \<circ> fst) ` set (ps @ [(m, a)]) then Some (sender_answer (ps @ [(m, a)]) s) else None)" for s
    proof (cases "s \<in> (cm_sender \<circ> fst) ` set ps")
      case in_ps: True
      then show ?thesis using assms(1) by (simp add: seen_ok_def sender_answer_append[OF in_ps] del: set_append) auto
    next
      case False
      with True have "s \<noteq> cm_sender m" by auto
      with False assms(1) show ?thesis by (auto simp: seen_ok_def)
    qed
    with r True show ?thesis by (simp add: seen_ok_def sender_answer_append)
  next
    case False
    note new = False
    have "map_of seen (cm_sender m) = None" using assms(1) False unfolding seen_ok_def by presburger
    with assms(2) have r: "res = or_unlinked a" "seen' = AList.update (cm_sender m) res seen"
      by (auto simp: sender_result_def or_unlinked_def Let_def)
    have "map_of seen' s = (if s \<in> (cm_sender \<circ> fst) ` set (ps @ [(m, a)]) then Some (sender_answer (ps @ [(m, a)]) s) else None)" for s
    proof (cases "s \<in> (cm_sender \<circ> fst) ` set ps")
      case in_ps: True
      with False have ne: "s \<noteq> cm_sender m" by metis
      have "map_of seen s = Some (sender_answer ps s)" using assms(1) in_ps unfolding seen_ok_def by presburger
      moreover have "s \<in> (cm_sender \<circ> fst) ` set (ps @ [(m, a)])" using in_ps by simp
      ultimately show ?thesis using r(2) ne by (simp add: gomap_simps sender_answer_append[OF in_ps])
    next
      case out: False
      from out assms(1) have n: "map_of seen s = None" unfolding seen_ok_def by presburger
      show ?thesis
      proof (cases "s = cm_sender m")
        case True
        then show ?thesis using r by (simp add: gomap_simps sender_answer_new[OF new])
      next
        case ne: False
        then have "s \<notin> (cm_sender \<circ> fst) ` set (ps @ [(m, a)])" using out by simp
        then show ?thesis using r n ne by (simp add: gomap_simps)
      qed
    qed
    with r False show ?thesis by (simp add: seen_ok_def sender_answer_new)
  qed
  then show "res = sender_answer (ps @ [(m, a)]) (cm_sender m)" "seen_ok (ps @ [(m, a)]) seen'" by simp_all
qed

lemma hub_run_append:
  "hub_run (es @ fs) h = (case hub_run es h of None \<Rightarrow> None | Some h1 \<Rightarrow> hub_run fs h1)"
  by (induction es arbitrary: h) (simp_all split: option.splits)

text \<open>What the steps of a batch leave alone.\<close>

definition building :: "nat \<Rightarrow> hub \<Rightarrow> hub \<Rightarrow> bool" where
  "building i h h' \<longleftrightarrow> hb_subs h' = hb_subs h \<and> length (hb_heap h') = length (hb_heap h) \<and>
     hc_buffer (chan_at h' i) = hc_buffer (chan_at h i)"

lemma build_run:
  assumes "length ms = length answers" "i < length (hb_heap h)"
    and "hc_flush (chan_at h i) = FBuilding subs ms seen (batch_spec n ps)"
    and "seen_ok ps seen" "hb_next_id h = n + int (length ps)"
  shows "\<exists>h' seen'. hub_run (map (EvBuild i) answers) h = Some h' \<and> building i h h' \<and>
    hc_flush (chan_at h' i) = FBuilding subs [] seen' (batch_spec n (ps @ zip ms answers))"
  using assms
proof (induction ms answers arbitrary: h seen ps rule: list_induct2)
  case Nil
  then show ?case by (simp add: building_def)
next
  case (Cons m ms a as)
  obtain res seen' where r: "sender_result seen (cm_sender m) a = (res, seen')" by fastforce
  note spec = sender_result_spec[OF Cons.prems(3) r]
  define h1 where "h1 = build_one i subs m ms seen (batch_spec n ps) a h"
  have step: "hub_step (EvBuild i a) h = Some h1" using Cons.prems by (simp add: h1_def)
  have b1: "building i h h1" using Cons.prems(1)
    by (simp add: h1_def build_one_def r Let_def building_def set_flush_def)
  have f1: "hc_flush (chan_at h1 i) = FBuilding subs ms seen' (batch_spec n (ps @ [(m, a)]))"
    using Cons.prems spec(1)
    by (simp add: h1_def build_one_def r Let_def set_flush_def batch_spec_snoc algebra_simps)
  have n1: "hb_next_id h1 = n + int (length (ps @ [(m, a)]))"
    using Cons.prems by (simp add: h1_def build_one_def r Let_def set_flush_def)
  have i1: "i < length (hb_heap h1)" using b1 Cons.prems(1) by (simp add: building_def)
  from Cons.IH[OF i1 f1 spec(2) n1] obtain h' seen'' where
    "hub_run (map (EvBuild i) as) h1 = Some h'" "building i h1 h'"
    "hc_flush (chan_at h' i) = FBuilding subs [] seen'' (batch_spec n ((ps @ [(m, a)]) @ zip ms as))"
    by blast
  with step b1 show ?case by (auto simp: building_def)
qed

text \<open>The sends of a batch: every widget with room in its queue gets it, a full one is passed over.\<close>

definition offer :: "batch_message list \<Rightarrow> subscription \<Rightarrow> subscription" where
  "offer data b = (if length (sb_queue b) < subscriberBuffer then b\<lparr>sb_queue := sb_queue b @ [data]\<rparr> else b)"

lemma send_run:
  assumes "i < length (hb_heap h)" "hc_flush (chan_at h i) = FSending ss data" "distinct ss"
    and "\<forall>s\<in>set ss. s < length (hb_subs h) \<and> \<not> sb_closed (hb_subs h ! s)"
  shows "\<exists>h'. hub_run (replicate (Suc (length ss)) (EvSend i)) h = Some h' \<and>
    hc_flush (chan_at h' i) = FIdle \<and> hc_buffer (chan_at h' i) = hc_buffer (chan_at h i) \<and>
    length (hb_subs h') = length (hb_subs h) \<and>
    (\<forall>s<length (hb_subs h). hb_subs h' ! s = (if s \<in> set ss then offer data (hb_subs h ! s) else hb_subs h ! s))"
  using assms
proof (induction ss arbitrary: h)
  case Nil
  then show ?case by (simp add: set_flush_def)
next
  case (Cons s ss)
  define h1 where "h1 = send_one i s ss data h"
  have step: "hub_step (EvSend i) h = Some h1" using Cons.prems by (simp add: h1_def)
  have h1: "length (hb_heap h1) = length (hb_heap h)" "hc_flush (chan_at h1 i) = FSending ss data"
    "hc_buffer (chan_at h1 i) = hc_buffer (chan_at h i)" "length (hb_subs h1) = length (hb_subs h)"
    "\<And>u. u < length (hb_subs h) \<Longrightarrow> hb_subs h1 ! u = (if u = s then offer data (hb_subs h ! u) else hb_subs h ! u)"
    using Cons.prems by (auto simp: h1_def send_one_def set_flush_def offer_def)
  have "\<forall>u\<in>set ss. u < length (hb_subs h1) \<and> \<not> sb_closed (hb_subs h1 ! u)"
    using Cons.prems(3,4) h1 by auto
  with Cons.IH[of h1] Cons.prems h1 obtain h' where h':
    "hub_run (replicate (Suc (length ss)) (EvSend i)) h1 = Some h'"
    "hc_flush (chan_at h' i) = FIdle" "hc_buffer (chan_at h' i) = hc_buffer (chan_at h1 i)"
    "length (hb_subs h') = length (hb_subs h1)"
    "\<forall>u<length (hb_subs h1). hb_subs h' ! u = (if u \<in> set ss then offer data (hb_subs h1 ! u) else hb_subs h1 ! u)"
    by auto
  have "hub_run (replicate (Suc (length (s # ss))) (EvSend i)) h = Some h'"
    using step h'(1) by simp
  moreover have "hb_subs h' ! u = (if u \<in> set (s # ss) then offer data (hb_subs h ! u) else hb_subs h ! u)"
    if "u < length (hb_subs h)" for u
    using h'(5) h1(4,5) that Cons.prems(3) by auto
  ultimately show ?case using h' h1 by (intro exI[of _ h']) simp
qed

lemma running_open:
  assumes "closing_ok h" "i < length (hb_heap h)" "\<not> exited (chan_at h i)" "s < length (hb_subs h)"
  shows "\<not> sb_closed (hb_subs h ! s)"
  using assms unfolding closing_ok_def all_exited_iff by blast

text \<open>The events of one turn of the flush loop that finds messages and subscribers.\<close>

definition flush_events :: "nat \<Rightarrow> nat list \<Rightarrow> result option list \<Rightarrow> hub_event list" where
  "flush_events i subs answers =
     EvTick i # EvSnapshot i subs # map (EvBuild i) answers @ EvBuild i None # replicate (Suc (length subs)) (EvSend i)"

lemma flush_run:
  assumes reach: "reachable mc mt h" and i: "i < length (hb_heap h)"
    and idle: "hc_flush (chan_at h i) = FIdle" and raw: "hc_buffer (chan_at h i) \<noteq> []"
    and subs: "mset subs = mset (hc_subs (chan_at h i))" "subs \<noteq> []"
    and answers: "length answers = min maxBatch (length (hc_buffer (chan_at h i)))"
  shows "\<exists>h'. hub_run (flush_events i subs answers) h = Some h' \<and>
    hc_flush (chan_at h' i) = FIdle \<and> hc_buffer (chan_at h' i) = [] \<and>
    length (hb_subs h') = length (hb_subs h) \<and>
    (\<forall>s<length (hb_subs h). hb_subs h' ! s =
       (if s \<in> set (hc_subs (chan_at h i))
        then offer (batch_spec (hb_next_id h) (zip (take maxBatch (hc_buffer (chan_at h i))) answers)) (hb_subs h ! s)
        else hb_subs h ! s))"
proof -
  define ms where "ms = take maxBatch (hc_buffer (chan_at h i))"
  define n where "n = hb_next_id h"
  define h1 where "h1 = drain i h"
  define h2 where "h2 = snapshot_subs i subs (hc_buffer (chan_at h i)) h1"
  have h1: "length (hb_heap h1) = length (hb_heap h)" "hb_subs h1 = hb_subs h" "hb_next_id h1 = n"
    "hc_flush (chan_at h1 i) = FDrained (hc_buffer (chan_at h i))" "hc_subs (chan_at h1 i) = hc_subs (chan_at h i)"
    "hc_buffer (chan_at h1 i) = []"
    using i raw by (simp_all add: h1_def drain_def Let_def set_flush_def n_def)
  have h2: "i < length (hb_heap h2)" "hb_subs h2 = hb_subs h" "hb_next_id h2 = n + int (length ([] :: (chat_message \<times> result option) list))"
    "hc_flush (chan_at h2 i) = FBuilding subs ms [] (batch_spec n [])" "hc_buffer (chan_at h2 i) = []"
    using i h1 subs(2) by (simp_all add: h2_def snapshot_subs_def set_flush_def ms_def batch_spec_def)
  have len: "length ms = length answers" using answers by (simp add: ms_def)
  have so: "seen_ok [] []" by (simp add: seen_ok_def)
  obtain h3 seen where h3: "hub_run (map (EvBuild i) answers) h2 = Some h3" "building i h2 h3"
    "hc_flush (chan_at h3 i) = FBuilding subs [] seen (batch_spec n (zip ms answers))"
    using build_run[OF len h2(1,4) so h2(3)] by auto
  define data where "data = batch_spec n (zip ms answers)"
  define h4 where "h4 = set_flush i (FSending subs data) h3"
  have i3: "i < length (hb_heap h3)" using h2(1) h3(2) by (simp add: building_def)
  have step4: "hub_step (EvBuild i None) h3 = Some h4" using i3 h3(3) by (simp add: h4_def data_def)
  have h4: "i < length (hb_heap h4)" "hb_subs h4 = hb_subs h" "hc_flush (chan_at h4 i) = FSending subs data"
    "hc_buffer (chan_at h4 i) = []"
    using i3 h3(2) h2 by (simp_all add: h4_def set_flush_def building_def)
  have reg: "registry_ok h" and cl: "closing_ok h" using reach by (rule registry_reachable closing_reachable)+
  from subs(1) have set_eq: "set subs = set (hc_subs (chan_at h i))" by (metis set_mset_mset)
  have d: "distinct subs" using reg i mset_eq_imp_distinct_iff[OF subs(1)] by (simp add: registry_ok_def heap_ok_def)
  have valid: "\<forall>s\<in>set subs. s < length (hb_subs h)"
    using reg i unfolding set_eq by (simp add: registry_ok_def heap_ok_def)
  have "\<not> exited (chan_at h i)" using idle by (simp add: exited_def)
  with running_open[OF cl i] valid
  have up: "\<forall>s\<in>set subs. s < length (hb_subs h4) \<and> \<not> sb_closed (hb_subs h4 ! s)"
    by (simp add: h4(2))
  obtain h5 where h5: "hub_run (replicate (Suc (length subs)) (EvSend i)) h4 = Some h5"
    "hc_flush (chan_at h5 i) = FIdle" "hc_buffer (chan_at h5 i) = []" "length (hb_subs h5) = length (hb_subs h)"
    "\<forall>s<length (hb_subs h). hb_subs h5 ! s = (if s \<in> set subs then offer data (hb_subs h ! s) else hb_subs h ! s)"
    using send_run[OF h4(1,3) d up] unfolding h4(2,4) by blast
  have "hub_step (EvTick i) h = Some h1" using i idle by (simp add: h1_def)
  moreover have "hub_step (EvSnapshot i subs) h1 = Some h2" using h1 i subs(1) by (simp add: h2_def)
  ultimately have "hub_run (flush_events i subs answers) h = Some h5"
    using h3(1) step4 h5(1) by (simp add: flush_events_def hub_run_append del: replicate_Suc)
  with h5 set_eq show ?thesis by (intro exI[of _ h5]) (simp add: data_def ms_def n_def)
qed

section \<open>A terminating shutdown\<close>

text \<open>How far a goroutine of the channel is from returning once its context is cancelled.\<close>

fun flush_rank :: "flush \<Rightarrow> nat" where
  "flush_rank FExited = 0"
| "flush_rank FIdle = 1"
| "flush_rank (FDrained raw) = 2"
| "flush_rank (FSending ss data) = 2 + length ss"
| "flush_rank (FBuilding ss todo seen data) = 3 + length ss + length todo"

definition chan_rank :: "channel \<Rightarrow> nat" where
  "chan_rank c = flush_rank (hc_flush c) + (if hc_ingest_done c then 0 else 1)"

definition shutdown_rank :: "hub \<Rightarrow> nat" where
  "shutdown_rank h = sum_list (map chan_rank (hb_heap h)) + (if hb_cancelled h then 0 else 1)
     + (case hb_closing h of None \<Rightarrow> 0 | Some ss \<Rightarrow> length ss)"

lemma sum_modify_less:
  fixes g :: "'a \<Rightarrow> nat"
  shows "i < length xs \<Longrightarrow> g (f (xs ! i)) < g (xs ! i) \<Longrightarrow>
    sum_list (map g (modify_at i f xs)) < sum_list (map g xs)"
proof (induction xs arbitrary: i)
  case (Cons x xs)
  then show ?case by (cases i) (simp_all add: modify_at_def)
qed simp

lemma rank_flush:
  assumes "i < length (hb_heap h)" "flush_rank f < flush_rank (hc_flush (chan_at h i))"
  shows "shutdown_rank (set_flush i f h) < shutdown_rank h"
  using assms by (simp add: shutdown_rank_def set_flush_def chan_rank_def sum_modify_less)

text \<open>While the shutdown is not over, some goroutine can take a step that brings its end nearer.\<close>

lemma shutdown_progress:
  assumes reg: "registry_ok h" and cl: "closing_ok h" and flow: "flow_ok h" and closed: "hb_closed h"
    and more: "hb_closing h \<noteq> Some []"
  shows "\<exists>e h'. hub_step e h = Some h' \<and> shutdown_rank h' < shutdown_rank h \<and> hb_closed h'"
proof (cases "hb_cancelled h")
  case False
  with closed show ?thesis
    by (intro exI[of _ EvCancel] exI[of _ "h\<lparr>hb_cancelled := True\<rparr>"]) (simp add: shutdown_rank_def)
next
  case canc: True
  show ?thesis
  proof (cases "all_exited h")
    case True
    from reg closed have "hb_closing h \<noteq> None" unfolding registry_ok_def closed_ok_def by blast
    with more obtain s ss where c: "hb_closing h = Some (s # ss)" by (cases "hb_closing h"; cases "the (hb_closing h)") auto
    with cl have "\<not> sb_closed (hb_subs h ! s)" by (auto simp: closing_ok_def)
    with c canc closed True show ?thesis
      by (intro exI[of _ EvCloseSub] exI[of _ "close_one s ss h"]) (simp add: close_one_def shutdown_rank_def)
  next
    case False
    then obtain i where i: "i < length (hb_heap h)" "\<not> exited (chan_at h i)" by (auto simp: all_exited_iff)
    show ?thesis
    proof (cases "hc_flush (chan_at h i)")
      case FExited
      with i have n: "\<not> hc_ingest_done (chan_at h i)" by (simp add: exited_def)
      let ?h = "h\<lparr>hb_heap := modify_at i (\<lambda>c. c\<lparr>hc_ingest_done := True\<rparr>) (hb_heap h)\<rparr>"
      have "shutdown_rank ?h < shutdown_rank h"
        using i(1) n by (simp add: shutdown_rank_def sum_modify_less chan_rank_def)
      with i(1) canc closed show ?thesis
        by (intro exI[of _ "EvIngestExit i"] exI[of _ ?h]) (simp add: ctx_done_def)
    next
      case FIdle
      with i(1) canc closed show ?thesis
        by (intro exI[of _ "EvFlushExit i"] exI[of _ "set_flush i FExited h"])
          (simp add: ctx_done_def rank_flush, simp add: set_flush_def)
    next
      case (FDrained raw)
      from reg closed have "hb_channels h = []" unfolding registry_ok_def closed_ok_def by blast
      with reg i(1) have "hc_subs (chan_at h i) = []" by (simp add: registry_ok_def live_ok_def)
      with FDrained i(1) closed show ?thesis
        by (intro exI[of _ "EvSnapshot i []"] exI[of _ "set_flush i FIdle h"])
          (simp add: snapshot_subs_def rank_flush, simp add: set_flush_def)
    next
      case (FSending ss data)
      show ?thesis
      proof (cases ss)
        case Nil
        with FSending i(1) closed show ?thesis
          by (intro exI[of _ "EvSend i"] exI[of _ "set_flush i FIdle h"])
            (simp add: rank_flush, simp add: set_flush_def)
      next
        case (Cons s ss')
        from flow i(1) have "flush_flow (hb_next_id h) (hb_subs h) i (FSending ss data)"
          unfolding FSending[symmetric] by (simp add: flow_ok_def)
        with Cons have "s < length (hb_subs h)" by (simp add: flush_flow_def targets_def)
        then have up: "\<not> sb_closed (hb_subs h ! s)" by (rule running_open[OF cl i])
        have "shutdown_rank (send_one i s ss' data h) = shutdown_rank (set_flush i (FSending ss' data) h)"
          using up by (simp add: send_one_def set_flush_def shutdown_rank_def)
        with FSending Cons i(1) closed up show ?thesis
          by (intro exI[of _ "EvSend i"] exI[of _ "send_one i s ss' data h"])
            (simp add: rank_flush, simp add: send_one_def set_flush_def)
      qed
    next
      case (FBuilding ss todo seen data)
      show ?thesis
      proof (cases todo)
        case Nil
        with FBuilding i(1) closed show ?thesis
          by (intro exI[of _ "EvBuild i None"] exI[of _ "set_flush i (FSending ss data) h"])
            (simp add: rank_flush, simp add: set_flush_def)
      next
        case (Cons m ms)
        obtain res seen' where r: "sender_result seen (cm_sender m) None = (res, seen')" by fastforce
        define h' where "h' = build_one i ss m ms seen data None h"
        have "shutdown_rank h' = shutdown_rank (set_flush i (FBuilding ss ms seen' []) h)"
          by (cases "i < length (hb_heap h)")
            (simp_all add: h'_def build_one_def r Let_def set_flush_def shutdown_rank_def i(1) sum_list_update
              modify_at_def map_update chan_rank_def)
        moreover have "hb_closed h'" using closed by (simp add: h'_def build_one_def r Let_def set_flush_def)
        ultimately show ?thesis using FBuilding Cons i(1)
          by (intro exI[of _ "EvBuild i None"] exI[of _ h']) (simp add: rank_flush h'_def)
      qed
    qed
  qed
qed

lemma shutdown_completes:
  assumes "reachable mc mt h" "hb_closed h"
  shows "\<exists>es h'. hub_run es h = Some h' \<and> hb_closing h' = Some []"
  using assms
proof (induction "shutdown_rank h" arbitrary: h rule: less_induct)
  case less
  show ?case
  proof (cases "hb_closing h = Some []")
    case True
    then show ?thesis by (intro exI[of _ "[]"]) simp
  next
    case False
    note inv = registry_reachable[OF less.prems(1)] closing_reachable[OF less.prems(1)] flow_reachable[OF less.prems(1)]
    from shutdown_progress[OF inv less.prems(2) False] obtain e h1 where
      e: "hub_step e h = Some h1" "shutdown_rank h1 < shutdown_rank h" "hb_closed h1" by blast
    from less.hyps[OF e(2) reachable.step[OF less.prems(1) e(1)] e(3)] obtain es h' where
      "hub_run es h1 = Some h'" "hb_closing h' = Some []" by blast
    with e(1) show ?thesis by (intro exI[of _ "e # es"] exI[of _ h']) simp
  qed
qed

text \<open>A widget the shutdown has to close is closed or still to be closed.\<close>

definition owed :: "nat list \<Rightarrow> hub \<Rightarrow> bool" where
  "owed subs h \<longleftrightarrow> (\<exists>ss. hb_closing h = Some ss \<and>
     (\<forall>s\<in>set subs. s < length (hb_subs h) \<and> (s \<in> set ss \<or> sb_closed (hb_subs h ! s))))"

lemma owed_step:
  assumes "hub_step e h = Some h'" "reachable mc mt h" "owed subs h"
  shows "owed subs h'"
proof -
  note inv = registry_reachable[OF assms(2)] closing_reachable[OF assms(2)] flow_reachable[OF assms(2)]
  from assms(3) obtain ss where ss: "hb_closing h = Some ss"
    "\<forall>s\<in>set subs. s < length (hb_subs h) \<and> (s \<in> set ss \<or> sb_closed (hb_subs h ! s))" by (auto simp: owed_def)
  from inv(1) ss(1) have closed: "hb_closed h" unfolding registry_ok_def closed_ok_def by blast
  show ?thesis
  proof (cases "(\<exists>order. e = EvClose order) \<or> e = EvCloseSub")
    case False
    then have "same_closing h h'" using assms(1) inv(2,3) by (intro same_closing_step) blast+
    then show ?thesis using ss unfolding owed_def same_closing_def by (intro exI[of _ ss]) auto
  next
    case True
    then show ?thesis
    proof (elim disjE exE)
      fix order assume "e = EvClose order"
      with assms(1,3) closed show ?thesis by (simp add: close_lock_def)
    next
      assume "e = EvCloseSub"
      with assms(1) ss(1) obtain s ss' where c: "ss = s # ss'" "h' = close_one s ss' h"
        by (auto split: list.splits if_splits)
      with inv(2) ss(1) have "\<not> sb_closed (hb_subs h ! s)" by (auto simp: closing_ok_def)
      with c ss show ?thesis unfolding owed_def by (intro exI[of _ ss']) (auto simp: close_one_def)
    qed
  qed
qed

lemma owed_run: "hub_run es h = Some h' \<Longrightarrow> reachable mc mt h \<Longrightarrow> owed subs h \<Longrightarrow> owed subs h'"
proof (induction es arbitrary: h)
  case (Cons e es)
  then show ?case by (auto split: option.splits intro: owed_step reachable.step)
qed simp

lemma Close_closes:
  assumes reach: "reachable mc mt h" and up: "\<not> hb_closed h" and m: "mset subs = mset (all_subs h)"
    and run: "hub_run (EvClose subs # es) h = Some h'" and fin: "hb_closing h' = Some []"
    and s: "s \<in> set (all_subs h)"
  shows "sb_closed (hb_subs h' ! s)"
proof -
  have set_eq: "set subs = set (all_subs h)" using m by (metis set_mset_mset)
  have v: "\<forall>s\<in>set subs. s < length (hb_subs h)"
    using all_subs_valid[OF registry_reachable[OF reach]] set_eq by blast
  have step: "hub_step (EvClose subs) h = Some (close_lock subs h)" using m by simp
  have "owed subs (close_lock subs h)" using up v by (simp add: owed_def close_lock_def Let_def)
  with run step have "owed subs h'" by (auto intro: owed_run reachable.step[OF reach step])
  with fin s set_eq show ?thesis by (auto simp: owed_def)
qed

section \<open>A concrete run\<close>

definition sample_message :: "string \<Rightarrow> string \<Rightarrow> chat_message" where
  "sample_message sender content = \<lparr>cm_channel = ''c1'', cm_sender = sender, cm_nickname = ''nick'',
     cm_content = content, cm_time = 0, cm_emojis = None\<rparr>"

text \<open>Two widgets on one channel and one on another, which leaves; two messages wait to be flushed.\<close>

definition sample_events :: "hub_event list" where
  "sample_events =
     [EvSubscribe ''c1'', EvSubscribe ''c1'', EvSubscribe ''c2'', EvUnsubscribe 2,
      EvInject ''c1'' (sample_message ''u1'' ''hello''), EvInject ''c1'' (sample_message ''u1'' ''again'')]"

definition sample_hub :: hub where
  "sample_hub = the (hub_run sample_events (hub_new 0 0))"

lemma sample_hub_run: "hub_run sample_events (hub_new 0 0) = Some sample_hub"
proof -
  have "hub_run sample_events (hub_new 0 0) \<noteq> None" by code_simp
  then show ?thesis by (auto simp: sample_hub_def)
qed

lemma sample_hub_reachable: "reachable 0 0 sample_hub"
  using reachable.start sample_hub_run by (rule run_reachable)

lemma sample_hub_eval:
  "hb_closed sample_hub = False" "map_of (hb_channels sample_hub) ''c2'' = Some 1"
  "hc_subs (chan_at sample_hub 1) = []" "hc_subs (chan_at sample_hub 0) = [1, 0]"
  "length (hb_heap sample_hub) = 2" "length (hb_subs sample_hub) = 3"
  "hc_flush (chan_at sample_hub 0) = FIdle" "length (hc_buffer (chan_at sample_hub 0)) = 2"
  "all_subs sample_hub = [1, 0]"
  by code_simp+

section \<open>Properties\<close>

text \<open>C3: No interleaving of subscribing, flushing, teardown and shutdown makes the hub send on a
  closed Go channel or close one twice: no run of the hub panics.\<close>

theorem hub_never_panics:
  "reachable mc mt h \<Longrightarrow> \<not> hb_panic h"
  using closing_reachable by (simp add: closing_ok_def)

theorem hub_never_panics_witness: "\<not> hb_panic sample_hub"
  by (rule hub_never_panics[OF sample_hub_reachable])

text \<open>The caps on widget connections hold in every reachable state: the total is the number of
  registered widgets and never above the total cap, and no channel has more than its cap; a cap given
  as 0 means the default of 10 per channel and 1000 in total. (A cap below 1 per channel still lets one
  widget in, because the cap is not checked for the widget that starts the channel.)\<close>

theorem hub_caps:
  assumes "reachable mc mt h"
  shows "hb_total h = (\<Sum>c\<leftarrow>hb_heap h. int (length (hc_subs c)))
    \<and> hb_total h \<le> max 0 (if mt = 0 then 1000 else mt)
    \<and> list_all (\<lambda>c. int (length (hc_subs c)) \<le> max 1 (if mc = 0 then 10 else mc)) (hb_heap h)"
  using registry_reachable[OF assms] limits_reachable[OF assms]
  by (simp add: registry_ok_def caps_ok_def subs_count_def list_all_length)

theorem hub_caps_witness:
  "hb_total sample_hub = (\<Sum>c\<leftarrow>hb_heap sample_hub. int (length (hc_subs c))) \<and> hb_total sample_hub \<le> 1000
    \<and> list_all (\<lambda>c. int (length (hc_subs c)) \<le> 10) (hb_heap sample_hub)"
  using hub_caps[OF sample_hub_reachable] by simp

lemma Subscribe_answer:
  assumes "reachable mc mt h"
  shows "case Subscribe cid h of
      (Inl ErrClosed, h') \<Rightarrow> h' = h \<and> hb_closed h
    | (Inl ErrTooManySubscribers, h') \<Rightarrow> h' = h \<and> \<not> hb_closed h \<and> (hb_max_total h \<le> hb_total h \<or>
        (case map_of (hb_channels h) cid of None \<Rightarrow> False
         | Some i \<Rightarrow> hb_max_channel h \<le> int (length (hc_subs (chan_at h i)))))
    | (Inr s, h') \<Rightarrow> \<not> hb_closed h \<and> hb_total h' = hb_total h + 1 \<and>
        (case map_of (hb_channels h') cid of None \<Rightarrow> False
         | Some i \<Rightarrow> hc_subs (chan_at h' i) = s # (case map_of (hb_channels h) cid of None \<Rightarrow> [] | Some j \<Rightarrow> hc_subs (chan_at h j))
             \<and> \<not> hc_cancelled (chan_at h' i) \<and> hc_teardown (chan_at h' i) = None)"
proof -
  note reg = registry_reachable[OF assms]
  have td: "hc_teardown (chan_at (stop_teardown i g) i) = None" if "i < length (hb_heap g)" for i g
    using that by (simp add: stop_teardown_def split: option.splits)
  have cc: "hc_cancelled (chan_at (stop_teardown i g) i) = hc_cancelled (chan_at g i)" if "i < length (hb_heap g)" for i g
    using that by (simp add: stop_teardown_def split: option.splits)
  show ?thesis
  proof (cases cid h rule: Subscribe_cases)
    case (known i)
    from reg known(3) have "i < length (hb_heap h)" "\<not> hc_cancelled (chan_at h i)"
      by (auto simp: registry_ok_def map_ok_def)
    with known show ?thesis
      by (simp add: joined_hub_def add_sub_def Let_def stop_teardown_keeps stop_teardown_subs td cc)
  next
    case new
    let ?n = "length (hb_heap h)"
    have l: "?n < length (hb_heap (with_channel cid h))" by (simp add: with_channel_def)
    have "chan_at (with_channel cid h) ?n = fresh_channel cid" "hb_total (with_channel cid h) = hb_total h"
      "map_of (hb_channels (with_channel cid h)) cid = Some ?n" "hb_subs (with_channel cid h) = hb_subs h"
      by (simp_all add: with_channel_def gomap_simps)
    with new l show ?thesis
      by (simp add: joined_hub_def add_sub_def Let_def stop_teardown_keeps stop_teardown_subs td cc fresh_channel_def)
  qed (auto split: option.splits)
qed

text \<open>\<open>Subscribe\<close> answers \<open>ErrClosed\<close> exactly on a closed hub and \<open>ErrTooManySubscribers\<close> exactly
  when a cap is reached, changing nothing; otherwise the new widget is registered with a channel of the
  requested id that is in the map and whose workers are not cancelled, no teardown is left pending in the
  channel's field, and everyone who was subscribed still is.\<close>

theorem Subscribe_outcome:
  assumes "reachable mc mt h"
  shows "case Subscribe cid h of
      (Inl ErrClosed, h') \<Rightarrow> h' = h \<and> hb_closed h
    | (Inl ErrTooManySubscribers, h') \<Rightarrow> h' = h \<and> \<not> hb_closed h \<and> (hb_max_total h \<le> hb_total h \<or>
        (case map_of (hb_channels h) cid of None \<Rightarrow> False
         | Some i \<Rightarrow> hb_max_channel h \<le> int (length (hc_subs (chan_at h i)))))
    | (Inr s, h') \<Rightarrow> \<not> hb_closed h \<and> hb_total h' = hb_total h + 1 \<and>
        (case map_of (hb_channels h') cid of None \<Rightarrow> False
         | Some i \<Rightarrow> hc_subs (chan_at h' i) = s # (case map_of (hb_channels h) cid of None \<Rightarrow> [] | Some j \<Rightarrow> hc_subs (chan_at h j))
             \<and> \<not> hc_cancelled (chan_at h' i) \<and> hc_teardown (chan_at h' i) = None)"
  by (rule Subscribe_answer[OF assms])

theorem Subscribe_outcome_witness:
  "\<not> hb_closed sample_hub \<and> (\<exists>s h'. Subscribe ''c2'' sample_hub = (Inr s, h') \<and> hb_total h' = hb_total sample_hub + 1)"
proof -
  have "isl (fst (Subscribe ''c2'' sample_hub)) = False" by code_simp
  then obtain s h' where e: "Subscribe ''c2'' sample_hub = (Inr s, h')"
    by (cases "Subscribe ''c2'' sample_hub"; cases "fst (Subscribe ''c2'' sample_hub)") auto
  then show ?thesis using Subscribe_outcome[OF sample_hub_reachable, of "''c2''"] by simp
qed

text \<open>C20: Workers and subscribers. While the hub is open, a channel somebody watches is in the map and
  its workers run; and of the channel objects started for one id at most one has workers that were not
  cancelled, so no channel is ever ingested twice at the same time except while an old worker ends.\<close>

theorem one_live_worker:
  assumes "reachable mc mt h" "\<not> hb_closed h" "i < length (hb_heap h)" "j < length (hb_heap h)"
  shows "(hc_subs (chan_at h i) \<noteq> [] \<longrightarrow>
        map_of (hb_channels h) (hc_id (chan_at h i)) = Some i \<and> \<not> hc_cancelled (chan_at h i) \<and> \<not> hb_cancelled h)
    \<and> (hc_id (chan_at h i) = hc_id (chan_at h j) \<longrightarrow> \<not> hc_cancelled (chan_at h i) \<longrightarrow> \<not> hc_cancelled (chan_at h j) \<longrightarrow> i = j)"
proof -
  have live: "map_of (hb_channels h) (hc_id (chan_at h k)) \<noteq> Some k \<Longrightarrow> hc_subs (chan_at h k) = [] \<and> hc_cancelled (chan_at h k)"
    if "k < length (hb_heap h)" for k
    using registry_reachable[OF assms(1)] assms(2) that by (simp add: registry_ok_def live_ok_def)
  have run: "map_of (hb_channels h) cid = Some k \<Longrightarrow> \<not> hc_cancelled (chan_at h k)" for cid k
    using registry_reachable[OF assms(1)] by (simp add: registry_ok_def map_ok_def)
  have "\<not> hb_cancelled h" using registry_reachable[OF assms(1)] assms(2) unfolding registry_ok_def closed_ok_def by blast
  with live[OF assms(3)] live[OF assms(4)] run show ?thesis by (metis option.inject)
qed

theorem one_live_worker_witness:
  "map_of (hb_channels sample_hub) (hc_id (chan_at sample_hub 0)) = Some 0 \<and> \<not> hc_cancelled (chan_at sample_hub 0)"
  using one_live_worker[OF sample_hub_reachable, of 0 0] by (simp add: sample_hub_eval)

text \<open>C30: No worker is forgotten. A channel in the map that nobody watches has a teardown callback to
  come (an armed timer or a fired one waiting for the mutex), and when that callback runs with still
  nobody watching, the channel leaves the map and its workers are cancelled.\<close>

theorem idle_channel_torn_down:
  assumes "reachable mc mt h" "map_of (hb_channels h) cid = Some i" "hc_subs (chan_at h i) = []"
  shows "\<exists>t<length (hb_timers h). tm_ch (hb_timers h ! t) = i \<and> tm_state (hb_timers h ! t) \<in> {Armed, Fired}
    \<and> map_of (hb_channels (teardown_callback t h)) cid = None \<and> hc_cancelled (chan_at (teardown_callback t h) i)"
proof -
  note reg = registry_reachable[OF assms(1)]
  from reg assms(2) have i: "i < length (hb_heap h)" "hc_id (chan_at h i) = cid"
    by (auto simp: registry_ok_def map_ok_def)
  from reg assms(2,3) obtain t where t: "t < length (hb_timers h)" "tm_ch (hb_timers h ! t) = i"
    "tm_state (hb_timers h ! t) \<noteq> Over" unfolding registry_ok_def idle_ok_def by blast
  from t(3) have "tm_state (hb_timers h ! t) \<in> {Armed, Fired}" by (cases "tm_state (hb_timers h ! t)") auto
  with t i assms(2,3) show ?thesis
    by (intro exI[of _ t]) (simp add: teardown_callback_def Let_def gomap_simps)
qed

theorem idle_channel_torn_down_witness:
  "\<exists>t<length (hb_timers sample_hub). map_of (hb_channels (teardown_callback t sample_hub)) ''c2'' = None"
  using idle_channel_torn_down[OF sample_hub_reachable sample_hub_eval(2,3)] by blast

text \<open>C7: A turn of the flush loop takes the whole buffer, keeps the first 200 messages in order, gives
  each the answer the resolver gave when its sender was first met in the batch (an error counts as
  unlinked), numbers them consecutively after the last id, and appends the one batch to the queue of
  every widget of the channel that has room, whatever the order of the map; a widget whose queue of 64 is
  full misses it without holding up the others, and no other widget is touched.\<close>

theorem flush_delivers:
  assumes "reachable mc mt h" "i < length (hb_heap h)"
    "hc_flush (chan_at h i) = FIdle" "hc_buffer (chan_at h i) \<noteq> []"
    "mset subs = mset (hc_subs (chan_at h i))" "subs \<noteq> []"
    "length answers = min 200 (length (hc_buffer (chan_at h i)))"
  shows "\<exists>h'. hub_run (flush_events i subs answers) h = Some h' \<and>
    hc_flush (chan_at h' i) = FIdle \<and> hc_buffer (chan_at h' i) = [] \<and>
    length (hb_subs h') = length (hb_subs h) \<and>
    (\<forall>s<length (hb_subs h). hb_subs h' ! s =
       (if s \<in> set (hc_subs (chan_at h i))
        then offer (batch_spec (hb_next_id h) (zip (take 200 (hc_buffer (chan_at h i))) answers)) (hb_subs h ! s)
        else hb_subs h ! s))"
  using flush_run[OF assms(1-6), of answers] assms(7) unfolding maxBatch_def by blast

theorem flush_delivers_witness:
  "\<exists>h'. hub_run (flush_events 0 [0, 1] [None, None]) sample_hub = Some h' \<and> hc_buffer (chan_at h' 0) = []
    \<and> sb_queue (hb_subs h' ! 0) = sb_queue (hb_subs h' ! 1) \<and> sb_queue (hb_subs h' ! 2) = []"
proof -
  have q: "sb_queue (hb_subs sample_hub ! 0) = []" "sb_queue (hb_subs sample_hub ! 1) = []" "sb_queue (hb_subs sample_hub ! 2) = []"
    by code_simp+
  have ne: "hc_buffer (chan_at sample_hub 0) \<noteq> []" using sample_hub_eval(8) by auto
  have i: "0 < length (hb_heap sample_hub)" by (simp add: sample_hub_eval)
  have m: "mset [0, 1] = mset (hc_subs (chan_at sample_hub 0))" by (simp add: sample_hub_eval)
  have l: "length [None, None] = min 200 (length (hc_buffer (chan_at sample_hub 0)))" by (simp add: sample_hub_eval)
  from flush_delivers[OF sample_hub_reachable i sample_hub_eval(7) ne m _ l] obtain h' where
    h': "hub_run (flush_events 0 [0, 1] [None, None]) sample_hub = Some h'" "hc_buffer (chan_at h' 0) = []"
    and b: "\<forall>s<length (hb_subs sample_hub). hb_subs h' ! s = (if s \<in> set (hc_subs (chan_at sample_hub 0))
        then offer (batch_spec (hb_next_id sample_hub) (zip (take 200 (hc_buffer (chan_at sample_hub 0))) [None, None]))
          (hb_subs sample_hub ! s)
        else hb_subs sample_hub ! s)"
    by auto
  have "sb_queue (hb_subs h' ! 0) = sb_queue (hb_subs h' ! 1)" "sb_queue (hb_subs h' ! 2) = []"
    using b q by (simp_all add: sample_hub_eval offer_def subscriberBuffer_def)
  with h' show ?thesis by blast
qed

text \<open>What a widget receives: the ids of the messages in its queue and of those it already got are
  strictly increasing over its whole life, none is above the last id given out, and its queue never
  holds more than 64 batches.\<close>

theorem widget_stream_ordered:
  assumes "reachable mc mt h" "s < length (hb_subs h)"
  shows "sorted_wrt (<) (map bm_id (concat (sb_got (hb_subs h ! s) @ sb_queue (hb_subs h ! s))))
    \<and> list_all (\<lambda>x. x \<le> hb_next_id h) (map bm_id (concat (sb_got (hb_subs h ! s) @ sb_queue (hb_subs h ! s))))
    \<and> length (sb_queue (hb_subs h ! s)) \<le> 64"
proof -
  have "sub_flow (hb_next_id h) (hb_subs h ! s)"
    using flow_reachable[OF assms(1)] assms(2) by (simp add: flow_ok_def)
  then show ?thesis
    unfolding sub_flow_def ids_of_def[symmetric] list_all_iff by (simp add: subscriberBuffer_def)
qed

theorem widget_stream_ordered_witness: "length (sb_queue (hb_subs sample_hub ! 0)) \<le> 64"
  using widget_stream_ordered[OF sample_hub_reachable, of 0] by (simp add: sample_hub_eval)

text \<open>C19: Shutdown. From any open state \<open>Close\<close> can run to its end whatever the goroutines are doing: the
  context is cancelled, every worker can reach its return, and then the channels are closed one by one.
  However the steps are interleaved, once it has ended the channel of every widget that was registered is
  closed, which is what ends the SSE handlers.\<close>

theorem Close_terminates:
  assumes "reachable mc mt h" "\<not> hb_closed h" "mset subs = mset (all_subs h)"
  shows "(\<exists>es h'. hub_run (EvClose subs # es) h = Some h' \<and> hb_closing h' = Some [])
    \<and> (\<forall>es h' s. hub_run (EvClose subs # es) h = Some h' \<longrightarrow> hb_closing h' = Some [] \<longrightarrow>
        s \<in> set (all_subs h) \<longrightarrow> sb_closed (hb_subs h' ! s))"
proof
  have step: "hub_step (EvClose subs) h = Some (close_lock subs h)" using assms(3) by simp
  have "hb_closed (close_lock subs h)" using assms(2) by (simp add: close_lock_def Let_def)
  with shutdown_completes[OF reachable.step[OF assms(1) step]] step
  show "\<exists>es h'. hub_run (EvClose subs # es) h = Some h' \<and> hb_closing h' = Some []" by auto
  show "\<forall>es h' s. hub_run (EvClose subs # es) h = Some h' \<longrightarrow> hb_closing h' = Some [] \<longrightarrow>
        s \<in> set (all_subs h) \<longrightarrow> sb_closed (hb_subs h' ! s)"
    using Close_closes[OF assms] by blast
qed

theorem Close_terminates_witness:
  "\<exists>es h'. hub_run (EvClose [0, 1] # es) sample_hub = Some h' \<and> sb_closed (hb_subs h' ! 0) \<and> sb_closed (hb_subs h' ! 1)"
proof -
  have m: "mset [0, 1] = mset (all_subs sample_hub)" by (simp add: sample_hub_eval)
  have c: "\<not> hb_closed sample_hub" by (simp add: sample_hub_eval)
  note t = Close_terminates[OF sample_hub_reachable c m]
  obtain es h' where r: "hub_run (EvClose [0, 1] # es) sample_hub = Some h'" "hb_closing h' = Some []"
    using t by blast
  have "0 \<in> set (all_subs sample_hub)" "1 \<in> set (all_subs sample_hub)" by (simp_all add: sample_hub_eval)
  with t r have "sb_closed (hb_subs h' ! 0)" "sb_closed (hb_subs h' ! 1)" by blast+
  with r show ?thesis by blast
qed

section \<open>A late teardown\<close>

text \<open>
  The callback re-checks that nobody is subscribed, not that it is still the channel's teardown.
  A callback that has fired and waits for the mutex while a widget joins and leaves again
  therefore ends the channel at once, with the timer armed by the last \<open>Unsubscribe\<close> still running.
\<close>

lemma late_teardown:
  "case hub_run [EvSubscribe ''c'', EvUnsubscribe 0, EvTimer 0, EvSubscribe ''c'', EvUnsubscribe 1, EvTeardown 0] (hub_new 0 0) of
     None \<Rightarrow> False
   | Some h \<Rightarrow> hb_channels h = [] \<and> hc_teardown (chan_at h 0) = Some 1 \<and> tm_state (hb_timers h ! 1) = Armed"
  by code_simp

end
