(* ===== verification/Url.thy ===== *)
theory Url
  imports GoNet Json
begin

text \<open>
  Go's \<open>net/url\<close> and the address parser of \<open>net/netip\<close>, as far as the program uses them: \<open>Parse\<close>,
  \<open>URL.String\<close>, \<open>Hostname\<close>, \<open>QueryEscape\<close>, \<open>Values.Encode\<close>, \<open>net.ParseIP\<close>; translated from the library.
\<close>

section \<open>Percent-encoding\<close>

datatype url_part = InPath | InHost | InZone | InUser | InQuery | InFragment

definition should_escape :: "url_part \<Rightarrow> char \<Rightarrow> bool" where
  "should_escape m c =
     (if alnum c then False
      else if (m = InHost \<or> m = InZone) \<and> (c \<in> set ''!$&()*+,;=:[]<>'' \<or> c = CHR 0x27 \<or> c = CHR 0x22) then False
      else if c \<in> set ''-_.~'' then False
      else if c \<in> set ''$&+,/:;=?@'' then
        (case m of InPath \<Rightarrow> c = CHR ''?''
         | InUser \<Rightarrow> c \<in> set ''@/?:''
         | InQuery \<Rightarrow> True
         | InFragment \<Rightarrow> False
         | _ \<Rightarrow> True)
      else if m = InFragment \<and> c \<in> set ''!()*'' then False
      else True)"

definition url_escape :: "url_part \<Rightarrow> string \<Rightarrow> string" where
  "url_escape m s = concat (map (\<lambda>c.
     if \<not> should_escape m c then [c]
     else if c = CHR '' '' \<and> m = InQuery then ''+''
     else [CHR ''%'', upper_hex (byte c div 16), upper_hex (byte c mod 16)]) s)"

definition QueryEscape :: "string \<Rightarrow> string" where
  "QueryEscape s = url_escape InQuery s"

fun url_unescape :: "url_part \<Rightarrow> string \<Rightarrow> string option" where
  "url_unescape m [] = Some []"
| "url_unescape m (c # s) =
     (if c = CHR ''%'' then
        (case s of h1 # h2 # r \<Rightarrow>
           (case (hex_digit h1, hex_digit h2) of
              (Some x, Some y) \<Rightarrow>
                (let v = char_of (x * 16 + y); pct = (x = 2 \<and> y = 5) in
                 if m = InHost \<and> x < 8 \<and> \<not> pct then None
                 else if m = InZone \<and> \<not> pct \<and> v \<noteq> CHR '' '' \<and> should_escape InHost v then None
                 else map_option (Cons v) (url_unescape m r))
            | _ \<Rightarrow> None)
         | _ \<Rightarrow> None)
      else if c = CHR ''+'' then map_option (Cons (if m = InQuery then CHR '' '' else c)) (url_unescape m s)
      else if (m = InHost \<or> m = InZone) \<and> byte c < 0x80 \<and> should_escape m c then None
      else map_option (Cons c) (url_unescape m s))"

text \<open>\<open>Values.Encode\<close> of values with one entry per key: the keys sorted.\<close>

definition encode_values :: "(string \<times> string) list \<Rightarrow> string" where
  "encode_values kvs =
     concat (map (\<lambda>(i, k, v). (if i = 0 then '''' else ''&'') @ QueryEscape k @ ''='' @ QueryEscape v)
       (enumerate 0 kvs))"

section \<open>Cutting\<close>

text \<open>\<open>strings.Cut\<close> at a byte: the part before, and the part after if the byte occurs.\<close>

definition cut :: "char \<Rightarrow> string \<Rightarrow> string \<times> string option" where
  "cut c s = (case index_byte c s of None \<Rightarrow> (s, None) | Some i \<Rightarrow> (take i s, Some (drop (Suc i) s)))"

fun split_on :: "char \<Rightarrow> string \<Rightarrow> string list" where
  "split_on c [] = [[]]"
| "split_on c (x # s) =
     (if x = c then [] # split_on c s
      else (case split_on c s of [] \<Rightarrow> [[x]] | w # ws \<Rightarrow> (x # w) # ws))"

section \<open>IP addresses\<close>

definition parse_octet :: "string \<Rightarrow> nat option" where
  "parse_octet s =
     (if s = [] \<or> \<not> list_all digit s \<or> 3 < length s \<or> (1 < length s \<and> hd s = CHR ''0'') \<or> 255 < digits_value s
      then None else Some (digits_value s))"

definition parse_ip4 :: "string \<Rightarrow> nat list option" where
  "parse_ip4 s =
     (let ps = map parse_octet (split_on CHR ''.'' s) in
      if length ps = 4 \<and> list_all (\<lambda>p. p \<noteq> None) ps then Some (map the ps) else None)"

definition hex_value :: "string \<Rightarrow> nat" where
  "hex_value s = foldl (\<lambda>n c. n * 16 + (case hex_digit c of None \<Rightarrow> 0 | Some d \<Rightarrow> d)) 0 s"

text \<open>
  The groups of an IPv6 address: \<open>fuel\<close> bounds the groups (at most nine turns), \<open>acc\<close> holds the
  bytes so far, \<open>ell\<close> where the \<open>::\<close> stood.
\<close>

fun ip6_groups :: "nat \<Rightarrow> string \<Rightarrow> nat list \<Rightarrow> nat option \<Rightarrow> (nat list \<times> nat option) option" where
  "ip6_groups 0 s acc ell = None"
| "ip6_groups (Suc n) s acc ell =
     (if 16 \<le> length acc then None
      else
        let hs = takeWhile (\<lambda>c. hex_digit c \<noteq> None) s; r = dropWhile (\<lambda>c. hex_digit c \<noteq> None) s in
        if hs = [] \<or> 4 < length hs then None
        else if r \<noteq> [] \<and> hd r = CHR ''.'' then
          (if (ell = None \<and> length acc \<noteq> 12) \<or> 16 < length acc + 4 then None
           else map_option (\<lambda>b. (acc @ b, ell)) (parse_ip4 s))
        else
          let acc' = acc @ [hex_value hs div 256, hex_value hs mod 256] in
          (case r of [] \<Rightarrow> Some (acc', ell)
           | c # r1 \<Rightarrow>
             if c \<noteq> CHR '':'' \<or> r1 = [] then None
             else if hd r1 = CHR '':'' then
               (if ell \<noteq> None then None
                else if tl r1 = [] then Some (acc', Some (length acc'))
                else ip6_groups n (tl r1) acc' (Some (length acc')))
             else ip6_groups n r1 acc' ell))"

definition parse_ip6 :: "string \<Rightarrow> nat list option" where
  "parse_ip6 s =
     (if prefix ''::'' s \<and> length s = 2 then Some (replicate 16 0)
      else
        (case (if prefix ''::'' s then ip6_groups 9 (drop 2 s) [] (Some 0) else ip6_groups 9 s [] None) of
           None \<Rightarrow> None
         | Some (bs, ell) \<Rightarrow>
             (case ell of
                None \<Rightarrow> if length bs = 16 then Some bs else None
              | Some e \<Rightarrow> if 16 \<le> length bs then None
                          else Some (take e bs @ replicate (16 - length bs) 0 @ drop e bs))))"

text \<open>\<open>netip.ParseAddr\<close>: the bytes and the zone.\<close>

definition parse_addr :: "string \<Rightarrow> (nat list \<times> string) option" where
  "parse_addr s =
     (case find (\<lambda>c. c = CHR ''.'' \<or> c = CHR '':'' \<or> c = CHR ''%'') s of
        None \<Rightarrow> None
      | Some c \<Rightarrow>
          if c = CHR ''.'' then map_option (\<lambda>b. (b, '''')) (parse_ip4 s)
          else if c = CHR '':'' then
            (case cut (CHR ''%'') s of
               (a, None) \<Rightarrow> map_option (\<lambda>b. (b, '''')) (parse_ip6 a)
             | (a, Some z) \<Rightarrow> if z = '''' then None else map_option (\<lambda>b. (b, z)) (parse_ip6 a))
          else None)"

definition is_4in6 :: "nat list \<Rightarrow> bool" where
  "is_4in6 b \<longleftrightarrow> length b = 16 \<and> take 12 b = replicate 10 0 @ [255, 255]"

definition ParseIP :: "string \<Rightarrow> nat list option" where
  "ParseIP s = (case parse_addr s of Some (b, z) \<Rightarrow> if z = '''' then Some b else None | None \<Rightarrow> None)"

definition IsLoopback :: "nat list \<Rightarrow> bool" where
  "IsLoopback b =
     (if length b = 4 then b ! 0 = 127
      else if is_4in6 b then b ! 12 = 127
      else b = replicate 15 0 @ [1])"

section \<open>url.Parse\<close>

record url =
  url_scheme :: string
  url_opaque :: string
  url_user :: "(string \<times> string option) option"
  url_host :: string
  url_path :: string
  url_raw_path :: string
  url_omit_host :: bool
  url_query :: string
  url_fragment :: string

definition letter :: "char \<Rightarrow> bool" where
  "letter c \<longleftrightarrow> between 97 122 c \<or> between 65 90 c"

text \<open>\<open>getScheme\<close>: None is the error of a leading colon.\<close>

definition get_scheme :: "string \<Rightarrow> (string \<times> string) option" where
  "get_scheme s =
     (let p = takeWhile (\<lambda>c. letter c \<or> digit c \<or> c \<in> set ''+-.'') s; r = drop (length p) s in
      if p \<noteq> [] \<and> \<not> letter (hd p) then Some ('''', s)
      else if r = [] \<or> hd r \<noteq> CHR '':'' then Some ('''', s)
      else if p = [] then None
      else Some (p, tl r))"

definition lower_char :: "char \<Rightarrow> char" where
  "lower_char c = (if between 65 90 c then char_of (byte c + 32) else c)"

definition valid_optional_port :: "string \<Rightarrow> bool" where
  "valid_optional_port s \<longleftrightarrow> s = [] \<or> (hd s = CHR '':'' \<and> list_all digit (tl s))"

text \<open>\<open>strings.Index\<close> of a short needle.\<close>

fun index_of :: "string \<Rightarrow> string \<Rightarrow> nat option" where
  "index_of x [] = (if x = [] then Some 0 else None)"
| "index_of x (c # s) = (if prefix x (c # s) then Some 0 else map_option Suc (index_of x s))"

text \<open>The address between brackets, its zone (from \<open>%25\<close> on) unescaped by the rules for zones.\<close>

definition unescape_literal :: "string \<Rightarrow> string option" where
  "unescape_literal name =
     (case index_of ''%25'' name of
        Some z \<Rightarrow>
          (case (url_unescape InHost (take z name), url_unescape InZone (drop z name)) of
             (Some a, Some b) \<Rightarrow> Some (a @ b) | _ \<Rightarrow> None)
      | None \<Rightarrow> url_unescape InHost name)"

text \<open>
  \<open>parseHost\<close>: brackets only around an IPv6 address (one that maps an IPv4 address included), with
  nothing before them; otherwise at most one colon, before a port.
\<close>

definition parse_host :: "string \<Rightarrow> string option" where
  "parse_host host =
     (case last_index_byte CHR ''['' host of
        Some i \<Rightarrow>
          (case last_index_byte CHR '']'' host of
             None \<Rightarrow> None
           | Some j \<Rightarrow>
               (let port = drop (Suc j) host; name = drop (Suc i) (take j host) in
                if 0 < i \<or> \<not> valid_optional_port port then None
                else
                  (case unescape_literal name of
                     None \<Rightarrow> None
                   | Some h \<Rightarrow>
                       (case parse_addr h of
                          None \<Rightarrow> None
                        | Some (b, z) \<Rightarrow>
                            if length b = 4 then None else Some (''['' @ h @ '']'' @ port)))))
      | None \<Rightarrow>
          (case index_byte CHR '':'' host of
             Some i \<Rightarrow> if valid_optional_port (drop i host) then url_unescape InHost host else None
           | None \<Rightarrow> url_unescape InHost host))"

definition valid_userinfo :: "string \<Rightarrow> bool" where
  "valid_userinfo s \<longleftrightarrow> list_all (\<lambda>c. alnum c \<or> c \<in> set ''-._:~!$&()*+,;=%@'' \<or> c = CHR 0x27) s"

definition parse_authority :: "string \<Rightarrow> ((string \<times> string option) option \<times> string) option" where
  "parse_authority a =
     (case last_index_byte CHR ''@'' a of
        None \<Rightarrow> map_option (\<lambda>h. (None, h)) (parse_host a)
      | Some i \<Rightarrow>
          (case parse_host (drop (Suc i) a) of
             None \<Rightarrow> None
           | Some h \<Rightarrow>
               (let ui = take i a in
                if \<not> valid_userinfo ui then None
                else (case cut CHR '':'' ui of
                        (u, None) \<Rightarrow> map_option (\<lambda>x. (Some (x, None), h)) (url_unescape InUser u)
                      | (u, Some p) \<Rightarrow>
                          (case (url_unescape InUser u, url_unescape InUser p) of
                             (Some x, Some y) \<Rightarrow> Some (Some (x, Some y), h) | _ \<Rightarrow> None)))))"

definition ctl_byte :: "char \<Rightarrow> bool" where
  "ctl_byte c \<longleftrightarrow> byte c < 0x20 \<or> byte c = 0x7F"

text \<open>The part of \<open>parse\<close> after scheme and query are off.\<close>

definition parse_rest_of :: "string \<Rightarrow> string \<Rightarrow> string \<Rightarrow> url option" where
  "parse_rest_of scheme rest query =
     (let mk = (\<lambda>opaque user host path omit.
            map_option (\<lambda>p.
              \<lparr>url_scheme = scheme, url_opaque = opaque, url_user = user, url_host = host, url_path = p,
               url_raw_path = (if url_escape InPath p = path then '''' else path),
               url_omit_host = omit, url_query = query, url_fragment = ''''\<rparr>) (url_unescape InPath path)) in
      if \<not> prefix ''/'' rest \<and> scheme \<noteq> '''' then mk rest None '''' '''' False
      else if \<not> prefix ''/'' rest \<and> CHR '':'' \<in> set (fst (cut CHR ''/'' rest)) then None
      else if (scheme \<noteq> '''' \<or> \<not> prefix ''///'' rest) \<and> prefix ''//'' rest then
        (let body = drop 2 rest;
             (authority, path) = (case index_byte CHR ''/'' body of None \<Rightarrow> (body, '''') | Some i \<Rightarrow> (take i body, drop i body)) in
         case parse_authority authority of None \<Rightarrow> None
         | Some (user, host) \<Rightarrow> mk '''' user host path False)
      else mk '''' None '''' rest (scheme \<noteq> '''' \<and> prefix ''/'' rest))"

definition url_parse :: "string \<Rightarrow> url option" where
  "url_parse raw =
     (let (u, frag) = cut CHR ''#'' raw in
      if list_ex ctl_byte u then None
      else if u = ''*'' then
        Some \<lparr>url_scheme = '''', url_opaque = '''', url_user = None, url_host = '''', url_path = ''*'',
              url_raw_path = '''', url_omit_host = False, url_query = '''', url_fragment = ''''\<rparr>
      else
        (case get_scheme u of
           None \<Rightarrow> None
         | Some (scheme, rest) \<Rightarrow>
             (let (hd_part, query) = cut CHR ''?'' rest in
              case parse_rest_of (map lower_char scheme) hd_part (case query of None \<Rightarrow> '''' | Some q \<Rightarrow> q) of
                None \<Rightarrow> None
              | Some res \<Rightarrow>
                  (case frag of None \<Rightarrow> Some res
                   | Some f \<Rightarrow>
                       if f = '''' then Some res
                       else map_option (\<lambda>x. res\<lparr>url_fragment := x\<rparr>) (url_unescape InFragment f)))))"

text \<open>
  \<open>URL.String\<close>. The text of the path is the one it was parsed from as long as that still stands for it
  (\<open>EscapedPath\<close>); the flag \<open>ForceQuery\<close> is left out, as it matters for an empty query only.
\<close>

definition valid_path_text :: "string \<Rightarrow> bool" where
  "valid_path_text s \<longleftrightarrow>
     list_all (\<lambda>c. c \<in> set ''!$&()*+,;=:@[]%'' \<or> c = CHR 0x27 \<or> \<not> should_escape InPath c) s"

definition escaped_path :: "url \<Rightarrow> string" where
  "escaped_path u =
     (if url_raw_path u \<noteq> '''' \<and> valid_path_text (url_raw_path u)
         \<and> url_unescape InPath (url_raw_path u) = Some (url_path u) then url_raw_path u
      else if url_path u = ''*'' then ''*''
      else url_escape InPath (url_path u))"

definition userinfo_string :: "string \<times> string option \<Rightarrow> string" where
  "userinfo_string ui =
     url_escape InUser (fst ui) @ (case snd ui of None \<Rightarrow> '''' | Some p \<Rightarrow> '':'' @ url_escape InUser p)"

definition url_string :: "url \<Rightarrow> string" where
  "url_string u =
     (let scheme = (if url_scheme u \<noteq> '''' then url_scheme u @ '':'' else '''');
          authority =
            (if url_scheme u = '''' \<and> url_host u = '''' \<and> url_user u = None then ''''
             else if url_omit_host u \<and> url_host u = '''' \<and> url_user u = None then ''''
             else (if url_host u \<noteq> '''' \<or> url_path u \<noteq> '''' \<or> url_user u \<noteq> None then ''//'' else '''')
               @ (case url_user u of None \<Rightarrow> '''' | Some ui \<Rightarrow> userinfo_string ui @ ''@'')
               @ url_escape InHost (url_host u));
          path = escaped_path u;
          start = scheme @ authority @ (if path \<noteq> '''' \<and> hd path \<noteq> CHR ''/'' \<and> url_host u \<noteq> '''' then ''/'' else '''');
          dot = (if start = '''' \<and> CHR '':'' \<in> set (takeWhile (\<lambda>c. c \<noteq> CHR ''/'') path) then ''./'' else '''')
      in (if url_opaque u \<noteq> '''' then scheme @ url_opaque u else start @ dot @ path)
           @ (if url_query u \<noteq> '''' then ''?'' @ url_query u else '''')
           @ (if url_fragment u \<noteq> '''' then ''#'' @ url_escape InFragment (url_fragment u) else ''''))"

definition url_hostname :: "url \<Rightarrow> string" where
  "url_hostname u =
     (let h = url_host u;
          h1 = (case last_index_byte CHR '':'' h of
                  Some i \<Rightarrow> if valid_optional_port (drop i h) then take i h else h
                | None \<Rightarrow> h)
      in if h1 \<noteq> [] \<and> hd h1 = CHR ''['' \<and> last h1 = CHR '']'' then butlast (tl h1) else h1)"


section \<open>Where the parts of a URL stand in its text\<close>

lemma last_index_byte_nth:
  assumes "last_index_byte c s = Some i"
  shows "i < length s \<and> s ! i = c \<and> c \<in> set s \<and> c \<notin> set (drop (Suc i) s)"
proof -
  have "c \<in> set s" using assms by (auto simp: last_index_byte_def index_byte_def split: if_splits)
  then obtain x y where s: "s = x @ c # y" "c \<notin> set y" using split_list_last by metis
  then have "i = length x" using assms by (simp add: last_index_byte_append)
  then show ?thesis using s by simp
qed

lemma cut_text:
  assumes "cut c s = (a, r)"
  shows "s = a @ (case r of None \<Rightarrow> [] | Some q \<Rightarrow> c # q) \<and> c \<notin> set a"
proof (cases "c \<in> set s")
  case True
  obtain x y where s: "s = x @ c # y" "c \<notin> set x" using split_list_first[OF True] by blast
  then have "index_byte c s = Some (length x)" by (simp add: index_byte_append)
  then show ?thesis using assms s by (auto simp: cut_def)
qed (use assms in \<open>auto simp: cut_def index_byte_def\<close>)

lemma get_scheme_text:
  assumes "get_scheme s = Some (sch, rest)" "sch \<noteq> []"
  shows "s = sch @ CHR '':'' # rest"
proof -
  define p where "p = takeWhile (\<lambda>c. letter c \<or> digit c \<or> c \<in> set ''+-.'') s"
  have "sch = p \<and> drop (length p) s \<noteq> [] \<and> hd (drop (length p) s) = CHR '':'' \<and> rest = tl (drop (length p) s)"
    using assms unfolding get_scheme_def p_def[symmetric] Let_def by (auto split: if_splits)
  moreover have "s = p @ drop (length p) s" by (metis append_take_drop_id p_def takeWhile_eq_take)
  ultimately show ?thesis by (metis list.collapse)
qed

lemma parse_rest_authority:
  assumes "parse_rest_of sch rest q = Some u" "url_host u \<noteq> ''''"
  shows "\<exists>a r. rest = ''//'' @ a @ r \<and> (r = [] \<or> hd r = CHR ''/'') \<and> CHR ''/'' \<notin> set a
     \<and> parse_authority a = Some (url_user u, url_host u)"
proof -
  define body where "body = drop 2 rest"
  have rest: "rest = ''//'' @ body" and
    auth: "(case (case index_byte CHR ''/'' body of None \<Rightarrow> (body, '''') | Some i \<Rightarrow> (take i body, drop i body)) of
      (a, p) \<Rightarrow> parse_authority a = Some (url_user u, url_host u))"
    using assms
    by (auto simp: parse_rest_of_def Let_def body_def prefix_def split: if_splits prod.splits option.splits)
  show ?thesis
  proof (cases "CHR ''/'' \<in> set body")
    case True
    obtain x y where s: "body = x @ CHR ''/'' # y" "CHR ''/'' \<notin> set x" using split_list_first[OF True] by blast
    then have "index_byte CHR ''/'' body = Some (length x)" by (simp add: index_byte_append)
    then have "parse_authority x = Some (url_user u, url_host u)" using auth s(1) by simp
    then show ?thesis using rest s
      by (intro exI[of _ x] exI[of _ "CHR ''/'' # y"]) simp
  next
    case False
    then have "parse_authority body = Some (url_user u, url_host u)" using auth by (simp add: index_byte_def)
    then show ?thesis using rest False by (intro exI[of _ body] exI[of _ "[]"]) simp
  qed
qed

lemma parse_rest_scheme: "parse_rest_of sch rest q = Some u \<Longrightarrow> url_scheme u = sch"
  by (auto simp: parse_rest_of_def Let_def split: if_splits prod.splits option.splits)

text \<open>A URL with scheme and host is its scheme, two slashes, the authority, and the rest.\<close>

lemma url_parse_authority:
  assumes "url_parse raw = Some u" "url_scheme u \<noteq> ''''" "url_host u \<noteq> ''''"
  shows "\<exists>sch a r. raw = sch @ ''://'' @ a @ r \<and> map lower_char sch = url_scheme u
     \<and> (r = [] \<or> hd r \<in> set ''/?#'') \<and> set a \<inter> set ''/?#'' = {}
     \<and> parse_authority a = Some (url_user u, url_host u)"
proof -
  obtain w frag where c1: "cut CHR ''#'' raw = (w, frag)" by fastforce
  have "w \<noteq> ''*''" using assms c1 by (auto simp: url_parse_def split: if_splits)
  then obtain sch rest where gs: "get_scheme w = Some (sch, rest)"
    using assms c1 by (auto simp: url_parse_def split: if_splits option.splits)
  obtain p qy where c2: "cut CHR ''?'' rest = (p, qy)" by fastforce
  obtain res where pr: "parse_rest_of (map lower_char sch) p (case qy of None \<Rightarrow> '''' | Some q \<Rightarrow> q) = Some res"
    and u: "url_scheme u = url_scheme res" "url_host u = url_host res" "url_user u = url_user res"
    using assms(1) c1 c2 gs \<open>w \<noteq> ''*''\<close>
    by (auto simp: url_parse_def split: if_splits option.splits)
  have sch: "map lower_char sch = url_scheme u" using parse_rest_scheme[OF pr] u by simp
  then have "sch \<noteq> []" using assms(2) by auto
  then have "w = sch @ CHR '':'' # rest" by (rule get_scheme_text[OF gs])
  moreover obtain a r0 where "p = ''//'' @ a @ r0" "r0 = [] \<or> hd r0 = CHR ''/''" "CHR ''/'' \<notin> set a"
    and au: "parse_authority a = Some (url_user u, url_host u)"
    using parse_rest_authority[OF pr] u assms(3) by auto
  ultimately show ?thesis using cut_text[OF c1] cut_text[OF c2] sch
    by (intro exI[of _ sch] exI[of _ a]
        exI[of _ "r0 @ (case qy of None \<Rightarrow> [] | Some q \<Rightarrow> CHR ''?'' # q) @ (case frag of None \<Rightarrow> [] | Some q \<Rightarrow> CHR ''#'' # q)"])
       (auto split: option.splits simp: hd_append)
qed

text \<open>What unescaping a host leaves of its text: plain ASCII is literal, and no backslash passes.\<close>

lemma hex_digit_not_backslash: "hex_digit c = Some d \<Longrightarrow> c \<noteq> CHR 0x5C"
  by (auto simp: hex_digit_def between_def byte_def split: if_splits)

lemma unescape_pct:
  "url_unescape m (CHR ''%'' # h1 # h2 # r) =
     (case (hex_digit h1, hex_digit h2) of
        (Some x, Some y) \<Rightarrow>
          if m = InHost \<and> x < 8 \<and> \<not> (x = 2 \<and> y = 5) then None
          else if m = InZone \<and> \<not> (x = 2 \<and> y = 5) \<and> char_of (x * 16 + y) \<noteq> CHR '' ''
            \<and> should_escape InHost (char_of (x * 16 + y)) then None
          else map_option (Cons (char_of (x * 16 + y))) (url_unescape m r)
      | _ \<Rightarrow> None)"
  by (simp add: Let_def split: option.split)

lemma unescape_lit:
  "c \<noteq> CHR ''%'' \<Longrightarrow> url_unescape m (c # s) =
     (if (m = InHost \<or> m = InZone) \<and> byte c < 0x80 \<and> c \<noteq> CHR ''+'' \<and> should_escape m c then None
      else map_option (Cons (if c = CHR ''+'' \<and> m = InQuery then CHR '' '' else c)) (url_unescape m s))"
  by auto

lemma unescape_short: "length s < 2 \<Longrightarrow> url_unescape m (CHR ''%'' # s) = None"
  by (cases s; cases "tl s") simp_all

declare url_unescape.simps(2) [simp del]

text \<open>A text a browser reads as it stands.\<close>

definition plain_ascii :: "string \<Rightarrow> bool" where
  "plain_ascii s \<longleftrightarrow> (\<forall>c\<in>set s. byte c < 128 \<and> c \<noteq> CHR ''%'')"

lemma unescape_host_plain: "url_unescape InHost s = Some t \<Longrightarrow> plain_ascii s \<Longrightarrow> t = s"
proof (induction s arbitrary: t)
  case (Cons c s)
  have p: "c \<noteq> CHR ''%''" "plain_ascii s" using Cons.prems(2) by (auto simp: plain_ascii_def)
  then obtain t' where "url_unescape InHost s = Some t'" "t = c # t'"
    using Cons.prems(1) unfolding unescape_lit[OF p(1)] by (auto split: if_splits)
  then show ?case using Cons.IH p(2) by blast
qed simp

lemma unescape_no_backslash:
  assumes "m = InHost \<or> m = InZone"
  shows "url_unescape m s = Some t \<Longrightarrow> CHR 0x5C \<notin> set s"
proof (induction "length s" arbitrary: s t rule: less_induct)
  case less
  show ?case
  proof (cases s)
    case (Cons c s')
    show ?thesis
    proof (cases "c = CHR ''%''")
      case True
      have "\<not> length s' < 2" using less.prems unescape_short[of s' m] unfolding Cons True by auto
      then obtain h1 h2 r where s': "s' = h1 # h2 # r" by (cases s'; cases "tl s'") auto
      obtain x y where xy: "hex_digit h1 = Some x" "hex_digit h2 = Some y"
        using less.prems unfolding Cons True s' unescape_pct by (simp split: option.splits)
      have "url_unescape m r \<noteq> None"
        using less.prems unfolding Cons True s' unescape_pct xy prod.case option.case
        by (metis option.distinct(1) option.simps(8))
      then have "CHR 0x5C \<notin> set r" using less.hyps[of r] Cons s' by auto
      then show ?thesis using Cons s' True hex_digit_not_backslash[OF xy(1)] hex_digit_not_backslash[OF xy(2)] by auto
    next
      case False
      have "should_escape m CHR 0x5C" "byte CHR 0x5C < 128"
        using assms by (auto simp add: should_escape_def alnum_def between_def digit_def byte_def)
      then have "c \<noteq> CHR 0x5C" using less.prems assms by (auto simp: unescape_lit Cons)
      moreover have "url_unescape m s' \<noteq> None"
        using less.prems unfolding Cons unescape_lit[OF False] by (metis option.distinct(1) option.simps(8))
      ultimately show ?thesis using less.hyps[of s'] Cons by auto
    qed
  qed simp
qed

lemma port_no_backslash: "valid_optional_port p \<Longrightarrow> CHR 0x5C \<notin> set p"
  by (cases p) (auto simp: valid_optional_port_def list_all_iff digit_def between_def byte_def)

lemma url_hostname_cases:
  obtains hn port where "url_host u = hn @ port" "valid_optional_port port"
    "url_hostname u = (if hn \<noteq> [] \<and> hd hn = CHR ''['' \<and> last hn = CHR '']'' then butlast (tl hn) else hn)"
proof (cases "\<exists>i. last_index_byte CHR '':'' (url_host u) = Some i \<and> valid_optional_port (drop i (url_host u))")
  case True
  then obtain i where i: "last_index_byte CHR '':'' (url_host u) = Some i" "valid_optional_port (drop i (url_host u))"
    by blast
  show thesis by (rule that[of "take i (url_host u)" "drop i (url_host u)"]) (simp_all add: url_hostname_def Let_def i)
next
  case False
  then have "(case last_index_byte CHR '':'' (url_host u) of
      Some i \<Rightarrow> if valid_optional_port (drop i (url_host u)) then take i (url_host u) else url_host u
    | None \<Rightarrow> url_host u) = url_host u"
    by (auto split: option.split)
  then have "url_hostname u = (if url_host u \<noteq> [] \<and> hd (url_host u) = CHR ''['' \<and> last (url_host u) = CHR '']''
      then butlast (tl (url_host u)) else url_host u)"
    unfolding url_hostname_def Let_def by presburger
  then show thesis by (intro that[of "url_host u" "[]"]) (simp_all add: valid_optional_port_def)
qed

lemma parse_authority_no_user:
  assumes "parse_authority a = Some (None, h)"
  shows "CHR ''@'' \<notin> set a" "parse_host a = Some h"
proof -
  have "last_index_byte CHR ''@'' a = None"
    using assms by (auto simp: parse_authority_def Let_def split: option.splits prod.splits if_splits)
  then show "CHR ''@'' \<notin> set a" "parse_host a = Some h"
    using assms by (auto simp: parse_authority_def last_index_byte_def index_byte_def split: if_splits)
qed

lemma parse_host_bracket:
  assumes "parse_host a = Some h" "CHR ''['' \<in> set a"
  shows "\<exists>name port ip. a = ''['' @ name @ '']'' @ port \<and> valid_optional_port port
     \<and> unescape_literal name = Some ip \<and> parse_addr ip \<noteq> None \<and> h = ''['' @ ip @ '']'' @ port"
proof -
  obtain i where i: "last_index_byte CHR ''['' a = Some i"
    using assms(2) by (simp add: last_index_byte_def index_byte_def)
  obtain j where j: "last_index_byte CHR '']'' a = Some j"
    using assms(1) i by (cases "last_index_byte CHR '']'' a") (simp_all add: parse_host_def)
  define name port where "name = drop (Suc i) (take j a)" and "port = drop (Suc j) a"
  have ip0: "\<not> (0 < i \<or> \<not> valid_optional_port port)"
    using assms(1) i j unfolding parse_host_def by (simp add: Let_def port_def split: if_split_asm)
  then obtain ip where ip: "unescape_literal name = Some ip"
    using assms(1) i j unfolding parse_host_def
    by (cases "unescape_literal name") (simp_all add: Let_def port_def name_def)
  then obtain b where "parse_addr ip = Some b"
    using assms(1) i j ip0 unfolding parse_host_def
    by (cases "parse_addr ip") (simp_all add: Let_def port_def name_def)
  then have h: "parse_addr ip \<noteq> None" "h = ''['' @ ip @ '']'' @ port"
    using assms(1) i j ip0 ip unfolding parse_host_def
    by (cases b; simp add: Let_def port_def name_def split: if_split_asm)+
  have n: "a ! 0 = CHR ''[''" "j < length a" "a ! j = CHR '']''"
    using last_index_byte_nth[OF i] last_index_byte_nth[OF j] ip0 by auto
  have "a = take j a @ CHR '']'' # port" using id_take_nth_drop[OF n(2)] n(3) by (simp add: port_def)
  moreover have "take j a = CHR ''['' # name"
  proof -
    have "j \<noteq> 0" using n by (intro notI) simp
    then have "0 < length (take j a)" using n(2) by simp
    then show ?thesis using id_take_nth_drop[of 0 "take j a"] n(1) ip0 by (simp add: name_def)
  qed
  ultimately have "a = ''['' @ name @ '']'' @ port" by simp
  then show ?thesis using ip0 ip h by blast
qed

lemma parse_host_plain:
  assumes "parse_host a = Some h" "CHR ''['' \<notin> set a"
  shows "url_unescape InHost a = Some h"
  using assms by (auto simp: parse_host_def last_index_byte_None split: option.splits if_splits)

lemma unescape_literal_no_backslash:
  assumes "unescape_literal name = Some ip"
  shows "CHR 0x5C \<notin> set name"
proof (cases "index_of ''%25'' name")
  case None
  then show ?thesis using assms unescape_no_backslash[of InHost name] by (simp add: unescape_literal_def)
next
  case (Some z)
  then have "url_unescape InHost (take z name) \<noteq> None" "url_unescape InZone (drop z name) \<noteq> None"
    using assms by (auto simp: unescape_literal_def split: option.splits)
  then have "CHR 0x5C \<notin> set (take z name)" "CHR 0x5C \<notin> set (drop z name)" using unescape_no_backslash by blast+
  then show ?thesis by (metis UnE append_take_drop_id set_append)
qed

lemma parse_host_no_backslash:
  assumes "parse_host a = Some h"
  shows "CHR 0x5C \<notin> set a"
proof (cases "CHR ''['' \<in> set a")
  case True
  then obtain name port ip where "a = ''['' @ name @ '']'' @ port" "valid_optional_port port" "unescape_literal name = Some ip"
    using parse_host_bracket[OF assms] by blast
  then show ?thesis using unescape_literal_no_backslash port_no_backslash by auto
next
  case False
  then show ?thesis using parse_host_plain[OF assms] unescape_no_backslash by blast
qed

declare url_unescape.simps(2) [simp]

end
