(* ===== verification/JsonOut.thy ===== *)
theory JsonOut
  imports Json
begin

text \<open>
  Writing JSON as Go's \<open>json.Marshal\<close> does (strings escaped for HTML, invalid UTF-8 replaced), and the
  round trip: what is written from well-formed text reads back as it was.
\<close>

section \<open>Strings\<close>

definition lower_hex :: "nat \<Rightarrow> char" where
  "lower_hex n = ''0123456789abcdef'' ! n"

definition escape_ascii :: "char \<Rightarrow> string" where
  "escape_ascii c =
     (if c = CHR 0x22 \<or> c = CHR 0x5C then [CHR 0x5C, c]
      else if c = CHR 0x08 then [CHR 0x5C, CHR ''b'']
      else if c = CHR 0x0C then [CHR 0x5C, CHR ''f'']
      else if c = CHR 0x0A then [CHR 0x5C, CHR ''n'']
      else if c = CHR 0x0D then [CHR 0x5C, CHR ''r'']
      else if c = CHR 0x09 then [CHR 0x5C, CHR ''t'']
      else if byte c < 0x20 \<or> c = CHR ''<'' \<or> c = CHR ''>'' \<or> c = CHR ''&''
      then [CHR 0x5C, CHR ''u'', CHR ''0'', CHR ''0'', lower_hex (byte c div 16), lower_hex (byte c mod 16)]
      else [c])"

definition escape_rune :: "string \<Rightarrow> string" where
  "escape_rune r =
     (if r = [CHR 0xE2, CHR 0x80, CHR 0xA8] then CHR 0x5C # ''u2028''
      else if r = [CHR 0xE2, CHR 0x80, CHR 0xA9] then CHR 0x5C # ''u2029''
      else r)"

function json_escape :: "string \<Rightarrow> string" where
  "json_escape [] = []"
| "json_escape (c # s) =
     (if byte c < 0x80 then escape_ascii c @ json_escape s
      else case utf8_len (c # s) of
          0 \<Rightarrow> CHR 0x5C # ''ufffd'' @ json_escape s
        | Suc n \<Rightarrow> escape_rune (c # take n s) @ json_escape (drop n s))"
  by pat_completeness auto
termination by (relation "measure length") auto

declare json_escape.simps [simp del]

definition json_quote :: "string \<Rightarrow> string" where
  "json_quote s = CHR 0x22 # json_escape s @ [CHR 0x22]"

function utf8_ok :: "string \<Rightarrow> bool" where
  "utf8_ok [] = True"
| "utf8_ok (c # s) = (case utf8_len (c # s) of 0 \<Rightarrow> False | Suc n \<Rightarrow> utf8_ok (drop n s))"
  by pat_completeness auto
termination by (relation "measure length") auto

declare utf8_ok.simps [simp del]

text \<open>Scanning and unquoting one escaped character.\<close>

definition plain_char :: "char \<Rightarrow> bool" where
  "plain_char c \<longleftrightarrow> c \<noteq> CHR 0x22 \<and> c \<noteq> CHR 0x5C \<and> 0x20 \<le> byte c"

lemma scan_plain:
  "list_all plain_char xs \<Longrightarrow> scan_string (xs @ s) = map_option (\<lambda>(r, t). (xs @ r, t)) (scan_string s)"
proof (induction xs)
  case Nil
  then show ?case by (cases "scan_string s") auto
next
  case (Cons c xs)
  then show ?case by (cases "scan_string s") (auto simp: plain_char_def)
qed

lemma hex_lower: "n < 16 \<Longrightarrow> hex_digit (lower_hex n) = Some n"
proof -
  have "list_all (\<lambda>n. hex_digit (lower_hex n) = Some n) [0..<16]" by code_simp
  then show "n < 16 \<Longrightarrow> ?thesis" by (simp add: list_all_iff)
qed

lemma escape_ascii_cases:
  assumes "byte c < 0x80"
  obtains (plain) "escape_ascii c = [c]" "plain_char c"
  | (short) x where "escape_ascii c = [CHR 0x5C, x]" "x \<in> set ''bfnrt'' \<or> x = CHR 0x5C \<or> x = CHR 0x22" "escape_char x = c"
  | (hex) h1 h2 h3 h4 where "escape_ascii c = [CHR 0x5C, CHR ''u'', h1, h2, h3, h4]"
      "list_all (\<lambda>h. hex_digit h \<noteq> None) [h1, h2, h3, h4]" "getu4 (escape_ascii c) = Some (byte c)"
proof (cases "c = CHR 0x22 \<or> c = CHR 0x5C \<or> c = CHR 0x08 \<or> c = CHR 0x0C \<or> c = CHR 0x0A \<or> c = CHR 0x0D \<or> c = CHR 0x09")
  case True
  then show ?thesis
    by (elim disjE; intro short[of "case escape_ascii c of [a, x] \<Rightarrow> x | _ \<Rightarrow> c"])
      (simp_all add: escape_ascii_def escape_char_def)
next
  case no_short: False
  show ?thesis
  proof (cases "byte c < 0x20 \<or> c = CHR ''<'' \<or> c = CHR ''>'' \<or> c = CHR ''&''")
    case True
    with no_short have e: "escape_ascii c =
        [CHR 0x5C, CHR ''u'', CHR ''0'', CHR ''0'', lower_hex (byte c div 16), lower_hex (byte c mod 16)]"
      by (simp add: escape_ascii_def)
    have z: "hex_digit (CHR ''0'') = Some 0" by code_simp
    have h: "hex_digit (lower_hex (byte c div 16)) = Some (byte c div 16)"
      "hex_digit (lower_hex (byte c mod 16)) = Some (byte c mod 16)"
      using assms by (simp_all add: hex_lower)
    show ?thesis by (rule hex[OF e]) (simp_all add: e z h)
  next
    case False
    with no_short show ?thesis by (intro plain) (simp_all add: escape_ascii_def plain_char_def)
  qed
qed

lemma getu4_append: "length xs = 6 \<Longrightarrow> getu4 (xs @ s) = getu4 xs"
  by (cases xs rule: getu4.cases) auto

lemma getu4_short: "x \<noteq> CHR ''u'' \<Longrightarrow> getu4 (CHR 0x5C # x # s) = None"
  by (cases "CHR 0x5C # x # s" rule: getu4.cases) auto

lemma utf8_encode_ascii: "byte c < 0x80 \<Longrightarrow> utf8_encode (byte c) = [c]"
  by (simp add: utf8_encode_def byte_def)

lemma scan_escape_ascii:
  assumes "byte c < 0x80"
  shows "scan_string (escape_ascii c @ s) = map_option (\<lambda>(r, t). (escape_ascii c @ r, t)) (scan_string s)"
  using assms
proof (cases rule: escape_ascii_cases)
  case plain
  then show ?thesis using scan_plain[of "[c]" s] by simp
next
  case (short x)
  then show ?thesis by (auto simp: short(1))
next
  case (hex h1 h2 h3 h4)
  then show ?thesis by (simp add: hex(1))
qed

lemma unquote_escape_ascii:
  assumes "byte c < 0x80"
  shows "unquote (escape_ascii c @ s) = c # unquote s"
  using assms
proof (cases rule: escape_ascii_cases)
  case plain
  then show ?thesis using assms by (auto simp: plain(1) plain_char_def unquote.simps)
next
  case (short x)
  then have "x \<noteq> CHR ''u''" by auto
  then show ?thesis using short by (simp add: unquote.simps getu4_short)
next
  case (hex h1 h2 h3 h4)
  then have "getu4 (escape_ascii c @ s) = Some (byte c)" using getu4_append[of "escape_ascii c" s] by simp
  then show ?thesis using hex(1) assms by (simp add: unquote.simps utf8_encode_ascii)
qed

text \<open>Multi-byte characters.\<close>

lemma utf8_len_cases:
  assumes "utf8_len (c # s) = Suc n" "\<not> byte c < 0x80"
  obtains (two) c1 s1 where "s = c1 # s1" "n = 1" "between 0xC2 0xDF c" "utf8_tail c1"
  | (three) c1 c2 s2 where "s = c1 # c2 # s2" "n = 2" "\<not> (between 0xC2 0xDF c \<and> utf8_tail c1)" "0x80 \<le> byte c1" "utf8_tail c2"
      "byte c = 0xE0 \<and> between 0xA0 0xBF c1 \<or> (between 0xE1 0xEC c \<or> between 0xEE 0xEF c) \<and> utf8_tail c1 \<or>
       byte c = 0xED \<and> between 0x80 0x9F c1"
  | (four) c1 c2 c3 s3 where "s = c1 # c2 # c3 # s3" "n = 3" "\<not> (between 0xC2 0xDF c \<and> utf8_tail c1)" "0x80 \<le> byte c1"
      "\<not> (utf8_tail c2 \<and> (byte c = 0xE0 \<and> between 0xA0 0xBF c1 \<or> (between 0xE1 0xEC c \<or> between 0xEE 0xEF c) \<and> utf8_tail c1 \<or>
         byte c = 0xED \<and> between 0x80 0x9F c1))" "utf8_tail c2" "utf8_tail c3"
      "byte c = 0xF0 \<and> between 0x90 0xBF c1 \<or> between 0xF1 0xF3 c \<and> utf8_tail c1 \<or> byte c = 0xF4 \<and> between 0x80 0x8F c1"
proof -
  from assms obtain c1 s1 where s: "s = c1 # s1" by (cases s) simp_all
  show ?thesis
  proof (cases "between 0xC2 0xDF c \<and> utf8_tail c1")
    case True
    with assms s show ?thesis by (intro two[of c1 s1]) simp_all
  next
    case n2: False
    with assms s obtain c2 s2 where s1: "s1 = c2 # s2" by (cases s1) simp_all
    let ?P = "byte c = 0xE0 \<and> between 0xA0 0xBF c1 \<or> (between 0xE1 0xEC c \<or> between 0xEE 0xEF c) \<and> utf8_tail c1 \<or>
       byte c = 0xED \<and> between 0x80 0x9F c1"
    show ?thesis
    proof (cases "utf8_tail c2 \<and> ?P")
      case True
      then have "0x80 \<le> byte c1" by (auto simp: between_def)
      with True assms s s1 n2 show ?thesis by (intro three[of c1 c2 s2]) simp_all
    next
      case n3: False
      let ?Q = "byte c = 0xF0 \<and> between 0x90 0xBF c1 \<or> between 0xF1 0xF3 c \<and> utf8_tail c1 \<or> byte c = 0xF4 \<and> between 0x80 0x8F c1"
      have u: "utf8_len (c # s) = (case s2 of [] \<Rightarrow> 0 | c3 # s3 \<Rightarrow> if utf8_tail c2 \<and> utf8_tail c3 \<and> ?Q then 4 else 0)"
        unfolding s s1 utf8_len.simps list.case if_not_P[OF assms(2)] if_not_P[OF n2] if_not_P[OF n3] ..
      with assms(1) obtain c3 s3 where s2: "s2 = c3 # s3" by (cases s2) simp_all
      with u assms(1) have q: "utf8_tail c2 \<and> utf8_tail c3 \<and> ?Q" "n = 3"
        by (simp_all split: if_splits)
      then have "0x80 \<le> byte c1" by (auto simp: between_def)
      with q n3 s s1 s2 n2 show ?thesis by (intro four[of c1 c2 c3 s3]) simp_all
    qed
  qed
qed

lemma utf8_len_rune:
  assumes "utf8_len (c # s) = Suc n" "\<not> byte c < 0x80"
  shows "utf8_len (c # take n s @ t) = Suc n \<and> list_all (\<lambda>x. 0x80 \<le> byte x) (c # take n s)"
  using assms
proof (cases rule: utf8_len_cases)
  case (two c1 s1)
  then show ?thesis using assms by (simp add: between_def)
next
  case (three c1 c2 s2)
  have tk: "take n s = [c1, c2]" using three(1,2) by simp
  have "utf8_len (c # [c1, c2] @ t) = Suc n" using three(2-) assms(2) by simp
  moreover have "list_all (\<lambda>x. 0x80 \<le> byte x) (c # [c1, c2])" using three(4,5) assms(2) by (simp add: between_def)
  ultimately show ?thesis unfolding tk by (rule conjI)
next
  case (four c1 c2 c3 s3)
  have tk: "take n s = [c1, c2, c3]" using four(1,2) by simp
  have "utf8_len (c # [c1, c2, c3] @ t) = (if utf8_tail c2 \<and> utf8_tail c3 \<and>
      (byte c = 0xF0 \<and> between 0x90 0xBF c1 \<or> between 0xF1 0xF3 c \<and> utf8_tail c1 \<or> byte c = 0xF4 \<and> between 0x80 0x8F c1)
      then 4 else 0)"
    unfolding append_Cons utf8_len.simps list.case if_not_P[OF assms(2)] if_not_P[OF four(3)] if_not_P[OF four(5)] ..
  then have "utf8_len (c # [c1, c2, c3] @ t) = Suc n" using four(2,6,7,8) by simp
  moreover have "list_all (\<lambda>x. 0x80 \<le> byte x) (c # [c1, c2, c3])" using four(4,6,7) assms(2) by (simp add: between_def)
  ultimately show ?thesis unfolding tk by (rule conjI)
qed

lemma scan_rune:
  assumes "utf8_len (c # s) = Suc n" "\<not> byte c < 0x80"
  shows "scan_string (escape_rune (c # take n s) @ r) =
    map_option (\<lambda>(x, t). (escape_rune (c # take n s) @ x, t)) (scan_string r)"
proof -
  have "list_all plain_char (c # take n s)"
  proof -
    have "plain_char x" if "0x80 \<le> byte x" for x using that by (auto simp: plain_char_def byte_def)
    then show ?thesis using utf8_len_rune[OF assms, THEN conjunct2] by (auto simp: list_all_iff)
  qed
  from scan_plain[OF this, of r] show ?thesis
    by (auto simp: escape_rune_def hex_digit_def between_def byte_def)
qed

lemma unquote_u2028:
  "unquote (CHR 0x5C # ''u2028'' @ r) = [CHR 0xE2, CHR 0x80, CHR 0xA8] @ unquote r \<and>
   unquote (CHR 0x5C # ''u2029'' @ r) = [CHR 0xE2, CHR 0x80, CHR 0xA9] @ unquote r"
proof -
  have g: "getu4 (CHR 0x5C # ''u2028'') = Some 0x2028" "getu4 (CHR 0x5C # ''u2029'') = Some 0x2029" by code_simp+
  have u: "utf8_encode 0x2028 = [CHR 0xE2, CHR 0x80, CHR 0xA8]" "utf8_encode 0x2029 = [CHR 0xE2, CHR 0x80, CHR 0xA9]"
    by code_simp+
  have "getu4 ((CHR 0x5C # ''u2028'') @ r) = Some 0x2028" "getu4 ((CHR 0x5C # ''u2029'') @ r) = Some 0x2029"
    using g by (simp_all only: getu4_append list.size) 
  then show ?thesis by (simp add: unquote.simps(2)[of "CHR 0x5C"] u del: getu4.simps)
qed

lemma unquote_rune:
  assumes "utf8_len (c # s) = Suc n" "\<not> byte c < 0x80"
  shows "unquote (escape_rune (c # take n s) @ r) = c # take n s @ unquote r"
proof -
  have ne: "c \<noteq> CHR 0x5C" using assms(2) by (auto simp: byte_def)
  have l: "n \<le> length s" using utf8_len_le[of "c # s"] assms(1) by (simp del: utf8_len.simps)
  have "unquote (CHR 0x5C # ''u2028'' @ r) = [CHR 0xE2, CHR 0x80, CHR 0xA8] @ unquote r"
    "unquote (CHR 0x5C # ''u2029'' @ r) = [CHR 0xE2, CHR 0x80, CHR 0xA9] @ unquote r"
    using unquote_u2028[of r] by simp_all
  moreover have "unquote ((c # take n s) @ r) = c # take n s @ unquote r"
  proof -
    have "utf8_len (c # (take n s @ r)) = Suc n" by (rule utf8_len_rune[OF assms, THEN conjunct1])
    moreover have "take n (take n s @ r) = take n s" "drop n (take n s @ r) = r" using l by simp_all
    ultimately show ?thesis using ne unfolding append_Cons unquote.simps(2)[of c "take n s @ r"]
      by (simp only: if_False nat.case)
  qed
  ultimately show ?thesis unfolding escape_rune_def by (auto split: if_splits)
qed

lemma scan_escape: "scan_string (json_escape s @ CHR 0x22 # t) = Some (json_escape s, t)"
proof (induction s rule: json_escape.induct)
  case 1
  then show ?case by (simp add: json_escape.simps)
next
  case (2 c s)
  show ?case
  proof (cases "byte c < 0x80")
    case True
    with 2 show ?thesis by (simp add: json_escape.simps scan_escape_ascii)
  next
    case False
    show ?thesis
    proof (cases "utf8_len (c # s)")
      case 0
      with False 2 show ?thesis
        by (simp add: json_escape.simps hex_digit_def between_def byte_def)
    next
      case (Suc n)
      with False 2 show ?thesis by (simp add: json_escape.simps scan_rune del: utf8_len.simps)
    qed
  qed
qed

lemma unquote_escape: "utf8_ok s \<Longrightarrow> unquote (json_escape s) = s"
proof (induction s rule: json_escape.induct)
  case 1
  then show ?case by (simp add: json_escape.simps unquote.simps)
next
  case (2 c s)
  show ?case
  proof (cases "byte c < 0x80")
    case True
    with 2 show ?thesis by (simp add: json_escape.simps unquote_escape_ascii utf8_ok.simps)
  next
    case False
    with 2 obtain n where n: "utf8_len (c # s) = Suc n" "utf8_ok (drop n s)"
      by (auto simp: utf8_ok.simps split: nat.splits simp del: utf8_len.simps)
    with False 2 show ?thesis by (simp add: json_escape.simps unquote_rune del: utf8_len.simps)
  qed
qed

section \<open>Values\<close>

fun commas :: "string list \<Rightarrow> string" where
  "commas [] = []"
| "commas [x] = x"
| "commas (x # xs) = x @ CHR '','' # commas xs"

fun json_print :: "json \<Rightarrow> string" where
  "json_print JNull = ''null''"
| "json_print (JBool b) = (if b then ''true'' else ''false'')"
| "json_print (JNum l) = l"
| "json_print (JStr s) = json_quote s"
| "json_print (JArr xs) = CHR ''['' # commas (map json_print xs) @ '']''"
| "json_print (JObj ms) = CHR ''{'' # commas (map (\<lambda>(k, v). json_quote k @ CHR '':'' # json_print v) ms) @ ''}''"

text \<open>An integer literal, nesting within the bound, text in UTF-8: what the program writes.\<close>

definition int_literal :: "string \<Rightarrow> bool" where
  "int_literal l \<longleftrightarrow> (\<exists>i. l = itoa i)"

fun json_ok :: "nat \<Rightarrow> json \<Rightarrow> bool" where
  "json_ok d JNull = True"
| "json_ok d (JBool b) = True"
| "json_ok d (JNum l) = int_literal l"
| "json_ok d (JStr s) = utf8_ok s"
| "json_ok d (JArr xs) = (d \<noteq> 0 \<and> (\<forall>x\<in>set xs. json_ok (d - 1) x))"
| "json_ok d (JObj ms) = (d \<noteq> 0 \<and> (\<forall>p\<in>set ms. utf8_ok (fst p) \<and> json_ok (d - 1) (snd p)))"

text \<open>What may follow a value: nothing of it would be read as part of a number.\<close>

definition value_end :: "string \<Rightarrow> bool" where
  "value_end s \<longleftrightarrow> (case s of [] \<Rightarrow> True | c # r \<Rightarrow> c \<in> set '',]}'')"

lemma skip_ws_char [simp]: "\<not> json_ws c \<Longrightarrow> skip_ws (c # s) = c # s"
  by (simp add: skip_ws_def)

lemma takeWhile_digits: "list_all digit ds \<Longrightarrow> value_end rest \<Longrightarrow>
   takeWhile digit (ds @ rest) = ds \<and> dropWhile digit (ds @ rest) = rest"
proof (induction ds)
  case Nil
  then show ?case by (cases rest) (auto simp: value_end_def digit_def between_def byte_def)
qed simp

lemma scan_frac_end: "value_end rest \<Longrightarrow> scan_frac rest = Some ([], rest)"
  by (cases rest) (auto simp: value_end_def scan_frac_def)

lemma scan_exp_end: "value_end rest \<Longrightarrow> scan_exp rest = Some ([], rest)"
  by (cases rest) (auto simp: value_end_def scan_exp_def)

lemma nat_str_head: "n \<noteq> 0 \<Longrightarrow> hd (nat_str n) \<noteq> CHR ''0''"
proof (induction n rule: nat_str.induct)
  case (1 n)
  show ?case
  proof (cases "n < 10")
    case True
    then have "n \<in> set [1..<10]" using 1 by simp
    moreover have "list_all (\<lambda>n. digit_char n \<noteq> CHR ''0'') [1..<10]" by code_simp
    ultimately have "digit_char n \<noteq> CHR ''0''" unfolding list_all_iff by blast
    then show ?thesis using True by (subst nat_str.simps) simp
  next
    case False
    then have "n div 10 \<noteq> 0" by simp
    with False 1 nat_str_digits[of "n div 10"] show ?thesis by (subst nat_str.simps) (simp add: hd_append)
  qed
qed

lemma scan_int_nat_str: "value_end rest \<Longrightarrow> scan_int (nat_str n @ rest) = Some (nat_str n, rest)"
proof -
  assume r: "value_end rest"
  obtain c s where c: "nat_str n = c # s" using nat_str_digits by (metis list.exhaust)
  note d = nat_str_digits[of n] takeWhile_digits[of "nat_str n" rest]
  show ?thesis
  proof (cases "n = 0")
    case True
    then have "nat_str n = ''0''" by (subst nat_str.simps) (simp add: digit_char_def)
    then show ?thesis by (simp add: scan_int_def)
  next
    case False
    with c nat_str_head[of n] have "c \<noteq> CHR ''0''" by simp
    with c d r show ?thesis by (auto simp: scan_int_def)
  qed
qed

lemma scan_number_itoa:
  assumes "value_end rest"
  shows "scan_number (itoa i @ rest) = Some (itoa i, rest)"
proof -
  note s = scan_int_nat_str[OF assms] scan_frac_end[OF assms] scan_exp_end[OF assms]
  show ?thesis
  proof (cases "i < 0")
    case True
    with s show ?thesis by (simp add: itoa_def scan_number_def)
  next
    case False
    obtain c r where c: "nat_str (nat i) = c # r" using nat_str_digits by (metis list.exhaust)
    then have "c \<noteq> CHR ''-''" using nat_str_digits[of "nat i"] digit_not_sign by simp
    with False c s(1)[of "nat i"] s(2,3) show ?thesis by (simp add: itoa_def scan_number_def)
  qed
qed

lemma json_print_head:
  assumes "json_ok d j"
  obtains c s where "json_print j = c # s" "\<not> json_ws c" "c \<noteq> CHR '']''" "c \<noteq> CHR ''}''"
proof (cases j)
  case (JNum l)
  with assms obtain i where l: "l = itoa i" by (auto simp: int_literal_def)
  obtain c s where c: "itoa i = c # s" using itoa_not_empty by (metis list.exhaust)
  moreover have "digit c \<or> c = CHR ''-''"
    using c nat_str_digits[of "nat i"] by (auto simp: itoa_def split: if_splits)
  then have "\<not> json_ws c \<and> c \<noteq> CHR '']'' \<and> c \<noteq> CHR ''}''" by (auto simp: json_ws_def digit_def between_def byte_def)
  ultimately show ?thesis using that JNum l by simp
next
  case (JBool b)
  then show ?thesis using that[of "hd (json_print j)" "tl (json_print j)"] by (cases b) (simp_all add: json_ws_def)
qed (use that in \<open>auto simp: json_ws_def json_quote_def\<close>)

lemma commas_Cons: "commas (x # xs) = x @ (if xs = [] then [] else CHR '','' # commas xs)"
  by (cases xs) simp_all

text \<open>The parser reads back what was printed; the length of the text is fuel enough.\<close>

lemma parse_elems_print:
  assumes el: "\<And>x n rest. x \<in> set xs \<Longrightarrow> length (json_print x) \<le> n \<Longrightarrow> value_end rest \<Longrightarrow>
      parse_value d n (json_print x @ rest) = Some (x, rest)"
    and ok: "\<forall>x\<in>set xs. json_ok d x" and ne: "xs \<noteq> []"
  shows "length (commas (map json_print xs)) < n \<Longrightarrow>
    parse_elems d n (commas (map json_print xs) @ CHR '']'' # rest) = Some (xs, rest)"
  using assms
proof (induction xs arbitrary: n)
  case (Cons x xs)
  from Cons.prems(1) obtain m where m: "n = Suc m" by (cases n) simp_all
  have v: "parse_value d m (json_print x @ r) = Some (x, r)" if "value_end r" for r
    using Cons.prems(2)[of x m r] Cons.prems(1) that m by (simp add: commas_Cons)
  show ?case
  proof (cases "xs = []")
    case True
    then show ?thesis using v[of "CHR '']'' # rest"] m by (simp add: value_end_def json_ws_def)
  next
    case False
    then obtain y ys where xs: "xs = y # ys" by (cases xs) auto
    with Cons.prems(3) obtain c s where "json_print y = c # s" "\<not> json_ws c"
      using json_print_head[of d y] by (metis list.set_intros(1,2))
    then have skip: "skip_ws (commas (map json_print xs) @ CHR '']'' # rest) = commas (map json_print xs) @ CHR '']'' # rest"
      by (simp add: xs commas_Cons)
    have "parse_elems d m (commas (map json_print xs) @ CHR '']'' # rest) = Some (xs, rest)"
      using Cons.prems False m by (intro Cons.IH) (auto simp: commas_Cons)
    then show ?thesis
      using v[of "CHR '','' # commas (map json_print xs) @ CHR '']'' # rest"] m False skip
      by (simp add: value_end_def json_ws_def commas_Cons)
  qed
qed simp

definition print_member :: "string \<times> json \<Rightarrow> string" where
  "print_member p = json_quote (fst p) @ CHR '':'' # json_print (snd p)"

lemma parse_members_print:
  assumes el: "\<And>p n rest. p \<in> set ms \<Longrightarrow> length (json_print (snd p)) \<le> n \<Longrightarrow> value_end rest \<Longrightarrow>
      parse_value d n (json_print (snd p) @ rest) = Some (snd p, rest)"
    and ok: "\<forall>p\<in>set ms. utf8_ok (fst p) \<and> json_ok d (snd p)" and ne: "ms \<noteq> []"
  shows "length (commas (map print_member ms)) < n \<Longrightarrow>
    parse_members d n (commas (map print_member ms) @ CHR ''}'' # rest) = Some (ms, rest)"
  using assms
proof (induction ms arbitrary: n)
  case (Cons p ms)
  obtain k v where p: "p = (k, v)" by (cases p)
  from Cons.prems(1) obtain m where m: "n = Suc m" by (cases n) simp_all
  have pv: "parse_value d m (json_print v @ r) = Some (v, r)" if "value_end r" for r
    using Cons.prems(2)[of p m r] Cons.prems(1) that m by (simp add: commas_Cons p print_member_def)
  have k: "unquote (json_escape k) = k" using Cons.prems(3) p by (simp add: unquote_escape)
  from Cons.prems(3) p have "json_ok d v" by simp
  then obtain c s where c: "json_print v = c # s" "\<not> json_ws c" by (rule json_print_head)
  then have sk: "skip_ws (json_print v @ r) = json_print v @ r" for r by simp
  have start: "commas (map print_member (p # ms)) @ CHR ''}'' # rest =
      CHR 0x22 # json_escape k @ CHR 0x22 # CHR '':'' # json_print v @
        (if ms = [] then [] else CHR '','' # commas (map print_member ms)) @ CHR ''}'' # rest"
    by (simp add: commas_Cons p print_member_def json_quote_def)
  show ?case
  proof (cases "ms = []")
    case True
    then show ?thesis
      unfolding start m parse_members.simps
      using pv[of "CHR ''}'' # rest"] sk[of "CHR ''}'' # rest"] by (simp add: scan_escape k json_ws_def value_end_def p)
  next
    case False
    then obtain q qs where ms: "ms = q # qs" by (cases ms) auto
    have skip: "skip_ws (commas (map print_member ms) @ CHR ''}'' # rest) = commas (map print_member ms) @ CHR ''}'' # rest"
      by (simp add: ms commas_Cons print_member_def json_quote_def json_ws_def)
    have "parse_members d m (commas (map print_member ms) @ CHR ''}'' # rest) = Some (ms, rest)"
      using Cons.prems False m by (intro Cons.IH) (auto simp: commas_Cons)
    then show ?thesis
      unfolding start m parse_members.simps
      using pv[of "CHR '','' # commas (map print_member ms) @ CHR ''}'' # rest"]
        sk[of "CHR '','' # commas (map print_member ms) @ CHR ''}'' # rest"] False skip
      by (simp add: scan_escape k json_ws_def value_end_def p)
  qed
qed simp

lemma json_print_member: "(\<lambda>(k, v). json_quote k @ CHR '':'' # json_print v) = print_member"
  by (auto simp: print_member_def)

lemma parse_print:
  "json_ok d j \<Longrightarrow> length (json_print j) \<le> n \<Longrightarrow> value_end rest \<Longrightarrow> parse_value d n (json_print j @ rest) = Some (j, rest)"
proof (induction j arbitrary: d n rest)
  case JNull
  then show ?case by (cases n) simp_all
next
  case (JBool b)
  then show ?case by (cases n; cases b) simp_all
next
  case (JNum l)
  then obtain i where l: "l = itoa i" by (auto simp: int_literal_def)
  obtain c s where c: "itoa i = c # s" using itoa_not_empty by (metis list.exhaust)
  have cd: "digit c \<or> c = CHR ''-''"
    using c nat_str_digits[of "nat i"] by (auto simp: itoa_def split: if_splits)
  from JNum c l obtain m where m: "n = Suc m" by (cases n) auto
  have "c \<noteq> CHR 0x22 \<and> c \<noteq> CHR ''{'' \<and> c \<noteq> CHR ''['' \<and> c \<noteq> CHR ''t'' \<and> c \<noteq> CHR ''f'' \<and> c \<noteq> CHR ''n''"
    using cd by (auto simp: digit_def between_def byte_def)
  then have "c \<noteq> CHR 0x22" "c \<noteq> CHR ''{''" "c \<noteq> CHR ''[''" "CHR ''t'' \<noteq> c" "CHR ''f'' \<noteq> c" "CHR ''n'' \<noteq> c" by auto
  with scan_number_itoa[OF JNum.prems(3), of i] show ?case by (simp add: l c m)
next
  case (JStr s)
  then obtain m where m: "n = Suc m" by (cases n) (auto simp: json_quote_def)
  with JStr show ?case by (simp add: json_quote_def scan_escape unquote_escape)
next
  case (JArr xs)
  then obtain m e where m: "n = Suc m" "d = Suc e" by (cases n; cases d) auto
  show ?case
  proof (cases "xs = []")
    case True
    then show ?thesis by (simp add: m json_ws_def)
  next
    case False
    then obtain y ys where xs: "xs = y # ys" by (cases xs) auto
    with JArr.prems(1) m obtain c s where c: "json_print y = c # s" "\<not> json_ws c" "c \<noteq> CHR '']''"
      using json_print_head[of e y] by (metis diff_Suc_1 json_ok.simps(5) list.set_intros(1))
    have "parse_elems e m (commas (map json_print xs) @ CHR '']'' # rest) = Some (xs, rest)"
      using JArr m False by (intro parse_elems_print) auto
    then show ?thesis using c by (simp add: m xs commas_Cons)
  qed
next
  case (JObj ms)
  then obtain m e where m: "n = Suc m" "d = Suc e" by (cases n; cases d) auto
  show ?case
  proof (cases "ms = []")
    case True
    then show ?thesis by (simp add: m json_ws_def)
  next
    case False
    then obtain q qs where ms: "ms = q # qs" by (cases ms) auto
    have "parse_members e m (commas (map print_member ms) @ CHR ''}'' # rest) = Some (ms, rest)"
    proof (rule parse_members_print[OF _ _ False])
      fix p n rest assume p: "p \<in> set ms" "length (json_print (snd p)) \<le> n" "value_end rest"
      with JObj.prems(1) m(2) have "json_ok e (snd p)" by simp
      with JObj.IH[of p "snd p"] p show "parse_value e n (json_print (snd p) @ rest) = Some (snd p, rest)"
        by (cases p) (auto simp: snds.simps)
    qed (use JObj.prems m in \<open>auto simp: json_print_member\<close>)
    then show ?thesis
      by (simp add: m ms json_print_member[symmetric] commas_Cons json_quote_def json_ws_def split_beta)
  qed
qed

lemma json_roundtrip: "json_ok 10000 j \<Longrightarrow> json_parse (json_print j) = Some j"
proof -
  assume ok: "json_ok 10000 j"
  then obtain c s where c: "json_print j = c # s" "\<not> json_ws c" by (rule json_print_head)
  have "parse_value 10000 (2 * length (json_print j) + 2) (json_print j @ []) = Some (j, [])"
    using ok by (intro parse_print) (simp_all add: value_end_def)
  with c show ?thesis by (simp add: json_parse_def skip_ws_def)
qed

lemma json_ok_mono: "json_ok d j \<Longrightarrow> d \<le> e \<Longrightarrow> json_ok e j"
proof (induction j arbitrary: d e)
  case (JArr xs)
  have "d - 1 \<le> e - 1" using JArr.prems(2) by simp
  with JArr show ?case by fastforce
next
  case (JObj ms)
  have l: "d - 1 \<le> e - 1" using JObj.prems(2) by simp
  have "json_ok (e - 1) (snd p)" if "p \<in> set ms" for p
    using JObj.IH[of p "snd p" "d - 1" "e - 1"] JObj.prems(1) that l by (cases p) (auto simp: snds.simps)
  with JObj.prems show ?case by auto
qed simp_all

end
