(* ===== verification/Chzzk.thy ===== *)
theory Chzzk
  imports Url JsonOut
begin

text \<open>
  \<open>internal/chzzk/client.go\<close>: the Chzzk Open API client. The network is the parameter \<open>http\<close>: what
  \<open>http.Client.Do\<close> and reading the body give for a request. An error keeps every text the message of
  the Go error is made of, those of wrapped errors included, so what it can reveal is part of the model.
\<close>

section \<open>The client\<close>

definition AuthURL :: string where "AuthURL = ''https://chzzk.naver.com/account-interlock''"
definition TokenURL :: string where "TokenURL = ''https://openapi.chzzk.naver.com/auth/v1/token''"
definition APIURL :: string where "APIURL = ''https://openapi.chzzk.naver.com/open/v1''"
definition defaultExpiresIn :: int where "defaultExpiresIn = 86400"

record client =
  cl_id :: string
  cl_secret :: string
  cl_redirect :: string
  cl_token_url :: string
  cl_api_url :: string

definition new_client :: "string \<Rightarrow> string \<Rightarrow> string \<Rightarrow> client" where
  "new_client cid secret redirect =
     \<lparr>cl_id = cid, cl_secret = secret, cl_redirect = redirect, cl_token_url = TokenURL, cl_api_url = APIURL\<rparr>"

record token =
  tk_access :: string
  tk_refresh :: string
  tk_expires_in :: int

record chzzk_user =
  cz_channel_id :: string
  cz_nickname :: string

section \<open>Requests\<close>

record api_request =
  rq_method :: string
  rq_url :: string
  rq_bearer :: string
  rq_body :: "string option"

text \<open>
  An error of \<open>Do\<close> is a \<open>*url.Error\<close>, whose message quotes the URL of the request, query included, before
  that of its cause. \<open>NetReadFailed\<close> has the message of an error while the body is read.
\<close>

record url_error =
  ue_op :: string
  ue_url :: string
  ue_err :: string

datatype api_answer =
    NetFailed url_error
  | NetReadFailed string
  | NetAnswer int string

type_synonym api_http = "api_request \<Rightarrow> api_answer"

text \<open>
  \<open>ErrRequest\<close> is the error of \<open>url.Parse\<close> in \<open>http.NewRequestWithContext\<close>, which quotes the URL. \<open>ErrDecode\<close>
  holds the text given to \<open>json.Unmarshal\<close>: the message of its error is a function of that text, and for
  some of them (a bad \<open>json.Number\<close>) quotes a part of it.
\<close>

datatype api_error =
    ErrRequest string
  | ErrTransport string string string
  | ErrReadBody string
  | ErrStatus string string int
  | ErrDecode string
  | ErrMissingAccessToken
  | ErrMissingURL

definition redactURL :: "string \<Rightarrow> string" where
  "redactURL u = (case index_byte CHR ''?'' u of Some i \<Rightarrow> take i u | None \<Rightarrow> u)"

definition response_limit :: nat where "response_limit = 1048576"

text \<open>A JSON object of strings as \<open>json.Marshal\<close> writes a map: its keys in order.\<close>

definition marshal_strings :: "(string \<times> string) list \<Rightarrow> string" where
  "marshal_strings kvs = json_print (JObj (map (\<lambda>(k, v). (k, JStr v)) kvs))"

text \<open>
  The raw text of the last member named \<open>content\<close> of the object at the head of a text, as
  \<open>json.RawMessage\<close> keeps it; the text has been checked to be JSON.
\<close>

fun raw_members :: "nat \<Rightarrow> string \<Rightarrow> (string \<times> string) list" where
  "raw_members 0 s = []"
| "raw_members (Suc n) s =
     (case s of [] \<Rightarrow> []
      | q # r0 \<Rightarrow>
        (case scan_string r0 of None \<Rightarrow> []
         | Some (k, t0) \<Rightarrow>
           let r1 = skip_ws (drop 1 (skip_ws t0)) in
           (case parse_value 10000 (2 * length s + 2) r1 of None \<Rightarrow> []
            | Some (v, t) \<Rightarrow>
              (unquote k, take (length r1 - length t) r1) #
              (case skip_ws t of [] \<Rightarrow> []
               | c # r \<Rightarrow> if c = CHR '','' then raw_members n (skip_ws r) else []))))"

definition object_members :: "string \<Rightarrow> (string \<times> string) list" where
  "object_members body = raw_members (length body) (skip_ws (drop 1 (skip_ws body)))"

definition raw_content :: "string \<Rightarrow> string option" where
  "raw_content body =
     map_option snd (find (\<lambda>m. fst m = ''content'' \<or> fold_name (fst m) = fold_name ''content'') (rev (object_members body)))"

definition decode_text :: "'s field list \<Rightarrow> 's \<Rightarrow> string \<Rightarrow> api_error + 's" where
  "decode_text fs z raw = (case unmarshal fs z raw of None \<Rightarrow> Inl (ErrDecode raw) | Some out \<Rightarrow> Inr out)"

definition decodeContent :: "'s field list \<Rightarrow> 's \<Rightarrow> string \<Rightarrow> api_error + 's" where
  "decodeContent fs z raw =
     (case json_parse raw of
        Some (JObj ms) \<Rightarrow>
          (case raw_content raw of
             Some c \<Rightarrow> decode_text fs z (if c = ''null'' \<or> c = ''{}'' then raw else c)
           | None \<Rightarrow> decode_text fs z raw)
      | Some JNull \<Rightarrow> decode_text fs z raw
      | _ \<Rightarrow> Inl (ErrDecode raw))"

text \<open>\<open>do\<close> up to the decoding of the body.\<close>

definition send_request :: "api_http \<Rightarrow> string \<Rightarrow> string \<Rightarrow> string \<Rightarrow> string option \<Rightarrow> api_error + string" where
  "send_request http method u bearer body =
     (if url_parse u = None then Inl (ErrRequest u)
      else
        (case http \<lparr>rq_method = method, rq_url = u, rq_bearer = bearer, rq_body = body\<rparr> of
           NetFailed e \<Rightarrow> Inl (ErrTransport method (redactURL u) (ue_err e))
         | NetReadFailed e \<Rightarrow> Inl (ErrReadBody e)
         | NetAnswer status b \<Rightarrow>
             if status < 200 \<or> 299 < status then Inl (ErrStatus method (redactURL u) status)
             else Inr (take response_limit b)))"

definition do_request ::
  "api_http \<Rightarrow> string \<Rightarrow> string \<Rightarrow> string \<Rightarrow> string option \<Rightarrow> 's field list \<Rightarrow> 's \<Rightarrow> api_error + 's" where
  "do_request http method u bearer body fs z =
     (case send_request http method u bearer body of
        Inl e \<Rightarrow> Inl e
      | Inr raw \<Rightarrow> decodeContent fs z raw)"

section \<open>Operations\<close>

definition AuthorizeURL :: "client \<Rightarrow> string \<Rightarrow> string" where
  "AuthorizeURL c state =
     AuthURL @ ''?'' @ encode_values [(''clientId'', cl_id c), (''redirectUri'', cl_redirect c), (''state'', state)]"

text \<open>\<open>json.Number\<close> takes a number or a string that is one.\<close>

definition as_number :: "json \<Rightarrow> string field_update" where
  "as_number v = (case v of JNull \<Rightarrow> Keep | JNum l \<Rightarrow> Put l
     | JStr s \<Rightarrow> (case scan_number s of Some (l, []) \<Rightarrow> Put s | _ \<Rightarrow> Misfit) | _ \<Rightarrow> Misfit)"

record token_out =
  to_access :: string
  to_refresh :: string
  to_expires :: string

definition token_fields :: "token_out field list" where
  "token_fields =
     [field ''accessToken'' as_string (\<lambda>x s. s\<lparr>to_access := x\<rparr>),
      field ''refreshToken'' as_string (\<lambda>x s. s\<lparr>to_refresh := x\<rparr>),
      field ''expiresIn'' as_number (\<lambda>x s. s\<lparr>to_expires := x\<rparr>)]"

definition request_token :: "client \<Rightarrow> api_http \<Rightarrow> (string \<times> string) list \<Rightarrow> api_error + token" where
  "request_token c http body =
     (case do_request http ''POST'' (cl_token_url c) '''' (Some (marshal_strings body)) token_fields
             \<lparr>to_access = '''', to_refresh = '''', to_expires = ''''\<rparr> of
        Inl e \<Rightarrow> Inl e
      | Inr out \<Rightarrow>
          if to_access out = '''' then Inl ErrMissingAccessToken
          else Inr \<lparr>tk_access = to_access out, tk_refresh = to_refresh out,
                    tk_expires_in = (case parse_int64 (to_expires out) of
                       Some n \<Rightarrow> if 0 < n then n else defaultExpiresIn | None \<Rightarrow> defaultExpiresIn)\<rparr>)"

definition ExchangeCode :: "client \<Rightarrow> api_http \<Rightarrow> string \<Rightarrow> string \<Rightarrow> api_error + token" where
  "ExchangeCode c http code state =
     request_token c http
       [(''clientId'', cl_id c), (''clientSecret'', cl_secret c), (''code'', code),
        (''grantType'', ''authorization_code''), (''state'', state)]"

definition Refresh :: "client \<Rightarrow> api_http \<Rightarrow> string \<Rightarrow> api_error + token" where
  "Refresh c http refreshToken =
     request_token c http
       [(''clientId'', cl_id c), (''clientSecret'', cl_secret c), (''grantType'', ''refresh_token''),
        (''refreshToken'', refreshToken)]"

record me_out =
  me_channel_id :: string
  me_channel_name :: string

definition me_fields :: "me_out field list" where
  "me_fields =
     [field ''channelId'' as_string (\<lambda>x s. s\<lparr>me_channel_id := x\<rparr>),
      field ''channelName'' as_string (\<lambda>x s. s\<lparr>me_channel_name := x\<rparr>)]"

definition Me :: "client \<Rightarrow> api_http \<Rightarrow> string \<Rightarrow> api_error + chzzk_user" where
  "Me c http accessToken =
     (case do_request http ''GET'' (cl_api_url c @ ''/users/me'') accessToken None me_fields
             \<lparr>me_channel_id = '''', me_channel_name = ''''\<rparr> of
        Inl e \<Rightarrow> Inl e
      | Inr out \<Rightarrow> Inr \<lparr>cz_channel_id = me_channel_id out, cz_nickname = me_channel_name out\<rparr>)"

definition url_fields :: "string field list" where
  "url_fields = [field ''url'' as_string (\<lambda>x s. x)]"

definition contains :: "string \<Rightarrow> string \<Rightarrow> bool" where
  "contains s x \<longleftrightarrow> index_of x s \<noteq> None"

definition with_auth :: "string \<Rightarrow> string \<Rightarrow> string" where
  "with_auth u accessToken =
     (if contains u ''?auth='' then u
      else u @ (if contains u ''?'' then ''&'' else ''?'') @ ''auth='' @ accessToken)"

definition UserSessionURL :: "client \<Rightarrow> api_http \<Rightarrow> string \<Rightarrow> api_error + string" where
  "UserSessionURL c http accessToken =
     (case do_request http ''GET'' (cl_api_url c @ ''/sessions/auth'') accessToken None url_fields '''' of
        Inl e \<Rightarrow> Inl e
      | Inr u \<Rightarrow> if u = '''' then Inl ErrMissingURL else Inr (with_auth u accessToken))"

definition subscribe_path :: string where
  "subscribe_path = ''/sessions/events/subscribe/chat''"

definition SubscribeChat :: "client \<Rightarrow> api_http \<Rightarrow> string \<Rightarrow> string \<Rightarrow> api_error + unit" where
  "SubscribeChat c http accessToken sessionKey =
     (case send_request http ''POST'' (cl_api_url c @ subscribe_path @ ''?sessionKey='' @ QueryEscape sessionKey) accessToken None of
        Inl e \<Rightarrow> Inl e | Inr raw \<Rightarrow> Inr ())"

section \<open>Query strings\<close>

lemma hex_upper: "n < 16 \<Longrightarrow> hex_digit (upper_hex n) = Some n"
proof -
  have "list_all (\<lambda>n. hex_digit (upper_hex n) = Some n) [0..<16]" by code_simp
  then show "n < 16 \<Longrightarrow> ?thesis" by (simp add: list_all_iff)
qed

lemma query_plain:
  assumes "\<not> should_escape InQuery c"
  shows "c \<noteq> CHR ''%''" "c \<noteq> CHR ''+''" "c \<noteq> CHR ''&''" "c \<noteq> CHR ''=''" "c \<noteq> CHR ''?''" "c \<noteq> CHR ''#''"
  using assms by (auto simp: should_escape_def alnum_def between_def digit_def byte_def)

lemma QueryEscape_Cons:
  "QueryEscape (c # s) = (if \<not> should_escape InQuery c then [c] else if c = CHR '' '' then ''+''
     else [CHR ''%'', upper_hex (byte c div 16), upper_hex (byte c mod 16)]) @ QueryEscape s"
  by (simp add: QueryEscape_def url_escape_def)

lemma unescape_QueryEscape: "url_unescape InQuery (QueryEscape s) = Some s"
proof (induction s)
  case Nil
  then show ?case by (simp add: QueryEscape_def url_escape_def)
next
  case (Cons c s)
  have h: "hex_digit (upper_hex (byte c div 16)) = Some (byte c div 16)"
    "hex_digit (upper_hex (byte c mod 16)) = Some (byte c mod 16)"
    using byte_less[of c] by (simp_all add: hex_upper)
  have v: "char_of (byte c) = c" by (simp add: byte_def)
  show ?case
    using Cons query_plain[of c] by (cases "should_escape InQuery c") (auto simp: QueryEscape_Cons h v Let_def)
qed

lemma QueryEscape_chars: "list_all (\<lambda>c. c \<notin> set ''&=?#'') (QueryEscape s)"
proof (induction s)
  case Nil
  then show ?case by (simp add: QueryEscape_def url_escape_def)
next
  case (Cons c s)
  have "list_all (\<lambda>n. upper_hex n \<notin> set ''&=?#'') [0..<16]" by code_simp
  then have u: "upper_hex n \<notin> set ''&=?#''" if "n < 16" for n
    using that unfolding list_all_iff by (metis atLeastLessThan_iff set_upt zero_le)
  have "upper_hex (byte c div 16) \<notin> set ''&=?#''" "upper_hex (byte c mod 16) \<notin> set ''&=?#''"
    by (rule u, use byte_less[of c] in simp)+
  with Cons query_plain[of c] show ?case by (auto simp: QueryEscape_Cons)
qed

text \<open>Reading a query back: the pairs between the ampersands, cut at the first equals sign.\<close>

definition parse_pair :: "string \<Rightarrow> (string \<times> string) option" where
  "parse_pair p = (case cut CHR ''='' p of (k, v) \<Rightarrow>
     (case (url_unescape InQuery k, url_unescape InQuery (case v of None \<Rightarrow> '''' | Some x \<Rightarrow> x)) of
        (Some a, Some b) \<Rightarrow> Some (a, b) | _ \<Rightarrow> None))"

definition parse_query :: "string \<Rightarrow> (string \<times> string) option list" where
  "parse_query q = map parse_pair (split_on CHR ''&'' q)"

lemma split_on_append: "c \<notin> set xs \<Longrightarrow> split_on c (xs @ c # ys) = xs # split_on c ys"
  by (induction xs) auto

lemma split_on_none: "c \<notin> set xs \<Longrightarrow> split_on c xs = [xs]"
  by (induction xs) auto

lemma parse_pair_encoded: "parse_pair (QueryEscape k @ ''='' @ QueryEscape v) = Some (k, v)"
proof -
  have "CHR ''='' \<notin> set (QueryEscape k)" using QueryEscape_chars[of k] by (auto simp: list_all_iff)
  then show ?thesis by (simp add: parse_pair_def cut_def index_byte_append unescape_QueryEscape)
qed

lemma encode_values_Cons:
  "encode_values ((k, v) # kvs) =
     QueryEscape k @ ''='' @ QueryEscape v @ concat (map (\<lambda>(k, v). ''&'' @ QueryEscape k @ ''='' @ QueryEscape v) kvs)"
proof -
  have "concat (map (\<lambda>(i, k, v). (if i = 0 then '''' else ''&'') @ QueryEscape k @ ''='' @ QueryEscape v) (enumerate (Suc m) kvs))
      = concat (map (\<lambda>(k, v). ''&'' @ QueryEscape k @ ''='' @ QueryEscape v) kvs)" for m
    by (induction kvs arbitrary: m) auto
  then show ?thesis by (simp add: encode_values_def)
qed

lemma parse_encode_values:
  "kvs \<noteq> [] \<Longrightarrow> parse_query (encode_values kvs) = map Some kvs"
proof (induction kvs)
  case (Cons p kvs)
  obtain k v where p: "p = (k, v)" by (cases p)
  have n: "CHR ''&'' \<notin> set (QueryEscape k @ ''='' @ QueryEscape v)"
    using QueryEscape_chars[of k] QueryEscape_chars[of v] by (auto simp: list_all_iff)
  show ?case
  proof (cases kvs)
    case Nil
    with n p show ?thesis
      using parse_pair_encoded[of k v] by (simp add: parse_query_def encode_values_Cons split_on_none)
  next
    case (Cons q qs)
    obtain k' v' where q: "q = (k', v')" by (cases q)
    have "encode_values (p # kvs) = (QueryEscape k @ ''='' @ QueryEscape v) @ CHR ''&'' # encode_values kvs"
      by (simp add: p q Cons encode_values_Cons)
    with Cons.IH Cons p parse_pair_encoded[of k v] split_on_append[OF n] show ?thesis
      by (simp add: parse_query_def)
  qed
qed simp

section \<open>What the client promises\<close>

text \<open>
  The login link carries the client id, the redirect target and the state unchanged: the query
  of \<open>AuthorizeURL\<close> reads back as exactly these three pairs, whatever bytes they contain, so no value
  can add or replace a parameter.
\<close>

theorem AuthorizeURL_roundtrip:
  "\<exists>q. AuthorizeURL c state = AuthURL @ ''?'' @ q \<and>
     parse_query q = [Some (''clientId'', cl_id c), Some (''redirectUri'', cl_redirect c), Some (''state'', state)]"
  using parse_encode_values[of "[(''clientId'', cl_id c), (''redirectUri'', cl_redirect c), (''state'', state)]"]
  by (simp add: AuthorizeURL_def)

lemma marshal_strings_parse:
  assumes "\<forall>p\<in>set kvs. utf8_ok (fst p) \<and> utf8_ok (snd p)"
  shows "json_parse (marshal_strings kvs) = Some (JObj (map (\<lambda>(k, v). (k, JStr v)) kvs))"
  unfolding marshal_strings_def using assms by (intro json_roundtrip) auto

lemma parse_int64_range: "parse_int64 s = Some n \<Longrightarrow> min_int64 \<le> n \<and> n \<le> max_int64"
  by (auto simp: parse_int64_def Let_def split: prod.splits if_splits)

lemma request_token_type:
  "request_token c http body = Inr tok \<Longrightarrow> tk_access tok \<noteq> '''' \<and> 0 < tk_expires_in tok \<and> tk_expires_in tok \<le> max_int64"
  by (auto simp: request_token_def defaultExpiresIn_def max_int64_def dest!: parse_int64_range
      split: sum.splits if_splits option.splits)

lemma redactURL_no_query: "CHR ''?'' \<notin> set (redactURL u)"
proof (cases "CHR ''?'' \<in> set u")
  case True
  then have "redactURL u = takeWhile (\<lambda>x. x \<noteq> CHR ''?'') u"
    by (simp add: redactURL_def index_byte_def takeWhile_eq_take[symmetric])
  then show ?thesis by (auto dest: set_takeWhileD)
next
  case False
  then show ?thesis by (simp add: redactURL_def index_byte_def)
qed

lemma redactURL_append: "CHR ''?'' \<notin> set p \<Longrightarrow> redactURL (p @ CHR ''?'' # q) = p"
  by (simp add: redactURL_def index_byte_append)

definition error_of :: "'e + 'a \<Rightarrow> 'e option" where
  "error_of r = (case r of Inl e \<Rightarrow> Some e | Inr a \<Rightarrow> None)"

lemma error_of_simps [simp]: "error_of (Inl e) = Some e" "error_of (Inr a) = None"
  by (simp_all add: error_of_def)

text \<open>The URLs of the API parse, with any session key in the query.\<close>

lemma QueryEscape_plain: "\<not> list_ex ctl_byte (QueryEscape s)"
proof (induction s)
  case Nil
  then show ?case by (simp add: QueryEscape_def url_escape_def)
next
  case (Cons c s)
  have "list_all (\<lambda>n. \<not> ctl_byte (upper_hex n)) [0..<16]" by code_simp
  then have u: "\<not> ctl_byte (upper_hex n)" if "n < 16" for n
    using that unfolding list_all_iff by (metis atLeastLessThan_iff set_upt zero_le)
  have "\<not> ctl_byte (upper_hex (byte c div 16))" "\<not> ctl_byte (upper_hex (byte c mod 16))"
    by (rule u, use byte_less[of c] in simp)+
  moreover have "\<not> ctl_byte c" if "\<not> should_escape InQuery c"
    using that by (auto simp: should_escape_def alnum_def between_def digit_def ctl_byte_def byte_def split: if_splits)
  moreover have "\<not> ctl_byte (CHR ''+'')" "\<not> ctl_byte (CHR ''%'')" by code_simp+
  ultimately show ?case using Cons by (auto simp: QueryEscape_Cons)
qed

lemma parse_rest_of_query: "parse_rest_of s r q = None \<longleftrightarrow> parse_rest_of s r '''' = None"
  by (auto simp: parse_rest_of_def Let_def split: option.splits prod.splits)

lemma url_parse_query:
  assumes s: "list_all (\<lambda>c. letter c \<or> digit c \<or> c \<in> set ''+-.'') s" "s \<noteq> []" "letter (hd s)"
    and r: "CHR ''#'' \<notin> set (s @ r @ q)" "\<not> list_ex ctl_byte (s @ r @ q)" "CHR ''?'' \<notin> set r"
    and p: "parse_rest_of (map lower_char s) r '''' \<noteq> None"
  shows "url_parse (s @ CHR '':'' # r @ CHR ''?'' # q) \<noteq> None"
proof -
  let ?u = "s @ CHR '':'' # r @ CHR ''?'' # q"
  have f: "cut CHR ''#'' ?u = (?u, None)" using r(1) by (simp add: cut_def index_byte_def)
  have c: "\<not> list_ex ctl_byte ?u" using r(2) by (simp add: ctl_byte_def byte_def)
  have "takeWhile (\<lambda>c. letter c \<or> digit c \<or> c \<in> set ''+-.'') ?u = s"
    using s(1) by (subst takeWhile_append2) (auto simp: list_all_iff letter_def digit_def between_def byte_def)
  then have g: "get_scheme ?u = Some (s, r @ CHR ''?'' # q)" using s(2,3) by (simp add: get_scheme_def)
  have q: "cut CHR ''?'' (r @ CHR ''?'' # q) = (r, Some q)" using r(3) by (simp add: cut_def index_byte_append)
  have "?u \<noteq> ''*''" using s(2) by (cases s) auto
  then show ?thesis
    using p parse_rest_of_query[of "map lower_char s" r q] by (auto simp: url_parse_def f c[simplified] g q split: option.splits)
qed

lemma api_urls_parse:
  "url_parse TokenURL \<noteq> None" "url_parse (APIURL @ ''/users/me'') \<noteq> None" "url_parse (APIURL @ ''/sessions/auth'') \<noteq> None"
  "url_parse (APIURL @ subscribe_path @ ''?sessionKey='' @ QueryEscape key) \<noteq> None"
proof -
  show "url_parse TokenURL \<noteq> None" "url_parse (APIURL @ ''/users/me'') \<noteq> None" "url_parse (APIURL @ ''/sessions/auth'') \<noteq> None"
    by code_simp+
  define r where "r = drop 6 (APIURL @ subscribe_path)"
  have e: "APIURL @ subscribe_path @ ''?sessionKey='' @ x = ''https'' @ CHR '':'' # r @ CHR ''?'' # ''sessionKey='' @ x" for x
    by (simp add: r_def APIURL_def subscribe_path_def)
  have "list_all (\<lambda>c. letter c \<or> digit c \<or> c \<in> set ''+-.'') ''https''" "letter (hd ''https'')"
    "parse_rest_of (map lower_char ''https'') r '''' \<noteq> None"
    unfolding r_def by code_simp+
  moreover have "CHR ''#'' \<notin> set (''https'' @ r @ ''sessionKey='' @ QueryEscape key)"
    using QueryEscape_chars[of key] by (auto simp: list_all_iff r_def APIURL_def subscribe_path_def)
  moreover have "\<not> list_ex ctl_byte (''https'' @ r @ ''sessionKey='')" unfolding r_def by code_simp
  then have "\<not> list_ex ctl_byte (''https'' @ r @ ''sessionKey='' @ QueryEscape key)"
    using QueryEscape_plain[of key] by simp
  moreover have "CHR ''?'' \<notin> set r" by (auto simp: r_def APIURL_def subscribe_path_def)
  ultimately show "url_parse (APIURL @ subscribe_path @ ''?sessionKey='' @ QueryEscape key) \<noteq> None"
    unfolding e by (intro url_parse_query) simp_all
qed

text \<open>
  Two networks give the same outcome for requests that agree on the method and on the URL up to its query: the same
  status and body, or a failure with the same cause. The \<open>*url.Error\<close> around the cause may differ: it
  quotes the whole URL.
\<close>

definition same_outcome :: "api_answer \<Rightarrow> api_answer \<Rightarrow> bool" where
  "same_outcome a b = (case (a, b) of
       (NetFailed e, NetFailed e') \<Rightarrow> ue_err e = ue_err e'
     | _ \<Rightarrow> a = b)"

definition networks_alike :: "api_http \<Rightarrow> api_http \<Rightarrow> bool" where
  "networks_alike net net' \<longleftrightarrow> (\<forall>rq rq'. rq_method rq = rq_method rq' \<and> redactURL (rq_url rq) = redactURL (rq_url rq') \<longrightarrow>
     same_outcome (net rq) (net' rq'))"

lemma send_request_alike:
  assumes "networks_alike net net'" "url_parse u \<noteq> None" "url_parse u' \<noteq> None" "redactURL u = redactURL u'"
  shows "send_request net m u bearer body = send_request net' m u' bearer' body'"
proof -
  have "same_outcome (net \<lparr>rq_method = m, rq_url = u, rq_bearer = bearer, rq_body = body\<rparr>)
      (net' \<lparr>rq_method = m, rq_url = u', rq_bearer = bearer', rq_body = body'\<rparr>)"
    using assms(1,4) by (simp add: networks_alike_def)
  then show ?thesis using assms(2-4) by (auto simp: send_request_def same_outcome_def split: api_answer.splits)
qed

lemma do_request_alike:
  assumes "networks_alike net net'" "url_parse u \<noteq> None"
  shows "do_request net m u bearer body fs z = do_request net' m u bearer' body' fs z"
  unfolding do_request_def send_request_alike[OF assms(1,2,2) refl, of m bearer body bearer' body'] ..


text \<open>A network that times out, with the URL in the error of the HTTP client.\<close>

definition net_timeout :: api_http where
  "net_timeout rq = NetFailed \<lparr>ue_op = ''Post'', ue_url = rq_url rq, ue_err = ''timeout''\<rparr>"


section \<open>Wrapped responses\<close>

lemma raw_content_wrapped:
  assumes "json_ok 9999 j"
  shows "raw_content (json_print (JObj [(''content'', j)])) = Some (json_print j)"
proof -
  have ok: "json_ok 10000 j" using assms by (rule json_ok_mono) simp
  obtain c s where c: "json_print j = c # s" "\<not> json_ws c" by (rule json_print_head[OF assms])
  define r where "r = json_print j @ ''}''"
  have pv: "parse_value 10000 n r = Some (j, ''}'')" if "length (json_print j) \<le> n" for n
    unfolding r_def using ok that by (intro parse_print) (simp_all add: value_end_def)
  have sk: "skip_ws r = r" using c by (simp add: r_def)
  define body where "body = json_print (JObj [(''content'', j)])"
  have b: "body = CHR ''{'' # CHR 0x22 # json_escape ''content'' @ CHR 0x22 # CHR '':'' # r"
    by (simp add: body_def json_quote_def r_def)
  have m: "raw_members (Suc n) (CHR 0x22 # json_escape ''content'' @ CHR 0x22 # CHR '':'' # r) = [(''content'', json_print j)]" for n
  proof -
    have u: "unquote (json_escape ''content'') = ''content''" by (rule unquote_escape) code_simp
    have l: "length (json_print j) \<le> 2 * length (CHR 0x22 # json_escape ''content'' @ CHR 0x22 # CHR '':'' # r) + 2"
      by (simp add: r_def)
    have ws: "\<not> json_ws (CHR '':'')" "\<not> json_ws (CHR ''}'')" by (simp_all add: json_ws_def)
    have tk: "take (length r - length ''}'') r = json_print j" by (simp add: r_def)
    show ?thesis
      unfolding raw_members.simps list.case scan_escape option.case prod.case
      by (simp only: skip_ws_char[OF ws(1)] drop_Suc_Cons One_nat_def drop_0 sk Let_def pv[OF l] option.case prod.case tk u
          skip_ws_char[OF ws(2)] list.case) simp
  qed
  have "object_members body = [(''content'', json_print j)]"
  proof -
    have ws: "\<not> json_ws (CHR ''{'')" "\<not> json_ws (CHR 0x22)" by (simp_all add: json_ws_def)
    obtain n where "length body = Suc n" by (simp add: b)
    with m[of n] show ?thesis
      unfolding object_members_def unfolding b by (simp add: ws)
  qed
  then show ?thesis by (simp add: raw_content_def body_def)
qed

text \<open>
  \<open>data.get("content") or data\<close>: a response wrapped in \<open>content\<close> decodes to exactly what its content
  decodes to on its own, and a response without such a member decodes as it stands; so every call reads
  the same fields whether or not the server wraps them.
\<close>

theorem content_wrapping:
  assumes "json_ok 9999 j" "j \<noteq> JNull" "j \<noteq> JObj []"
  shows "decodeContent fs z (json_print (JObj [(''content'', j)]))
      = (case decode_struct fs z j of None \<Rightarrow> Inl (ErrDecode (json_print j)) | Some out \<Rightarrow> Inr out)
    \<and> (\<forall>ms. j = JObj ms \<longrightarrow> raw_content (json_print j) = None \<longrightarrow>
        decodeContent fs z (json_print j) = (case decode_struct fs z j of None \<Rightarrow> Inl (ErrDecode (json_print j)) | Some out \<Rightarrow> Inr out))"
proof -
  have ok: "json_ok 10000 j" using assms(1) by (rule json_ok_mono) simp
  have ok1: "json_ok 10000 (JObj [(''content'', j)])"
  proof -
    have "utf8_ok ''content''" by code_simp
    with assms(1) show ?thesis by simp
  qed
  have rt: "json_parse (json_print j) = Some j" by (rule json_roundtrip[OF ok])
  have "json_parse ''null'' = Some JNull" "json_parse ''{}'' = Some (JObj [])" by code_simp+
  with rt assms(2,3) have "json_print j \<noteq> ''null''" "json_print j \<noteq> ''{}''" by auto
  then have "decodeContent fs z (json_print (JObj [(''content'', j)])) = decode_text fs z (json_print j)"
    unfolding decodeContent_def json_roundtrip[OF ok1] raw_content_wrapped[OF assms(1)]
    by (simp only: option.case json.case if_False disj_not1 simp_thms)
  moreover have "decodeContent fs z (json_print j) = decode_text fs z (json_print j)"
    if "j = JObj ms" "raw_content (json_print j) = None" for ms
    unfolding decodeContent_def rt that(2) unfolding that(1) by (simp del: json_print.simps)
  moreover have "decode_text fs z (json_print j)
      = (case decode_struct fs z j of None \<Rightarrow> Inl (ErrDecode (json_print j)) | Some out \<Rightarrow> Inr out)"
    by (simp add: decode_text_def unmarshal_def rt)
  ultimately show ?thesis by metis
qed

theorem content_wrapping_witness:
  "decodeContent url_fields '''' (json_print (JObj [(''content'', JObj [(''url'', JStr ''u'')])])) = Inr ''u''"
proof -
  have ok: "json_ok 9999 (JObj [(''url'', JStr ''u'')])"
  proof -
    have "utf8_ok ''url''" "utf8_ok ''u''" by code_simp+
    then show ?thesis by simp
  qed
  have "decode_struct url_fields '''' (JObj [(''url'', JStr ''u'')]) = Some ''u''" by code_simp
  then show ?thesis using content_wrapping[OF ok, of url_fields "''''"] by simp
qed

end
