(* ===== verification/AesGcm.thy ===== *)
theory AesGcm
  imports Prelude "HOL-Library.Word"
begin

text \<open>
  The primitives of Go's \<open>crypto/sha256\<close>, \<open>crypto/aes\<close> and \<open>cipher.NewGCM\<close> that
  \<open>internal/crypto\<close> calls, as FIPS 180-4, FIPS 197 and NIST SP 800-38D define them, on lists of
  bytes. The locale \<open>aead\<close> is what the callers rely on.
\<close>

unbundle bit_operations_syntax

type_synonym octet = "8 word"

definition octets :: "string \<Rightarrow> octet list" where
  "octets s = map (\<lambda>c. of_nat (byte c)) s"

definition chars :: "octet list \<Rightarrow> string" where
  "chars bs = map (\<lambda>b. char_of (unat b)) bs"

lemma chars_octets [simp]: "chars (octets s) = s"
proof -
  have "char_of (unat (of_nat (byte c) :: octet)) = c" for c
  proof -
    have "byte c < 256" using range_nat_of_char by (auto simp: byte_def)
    then have "unat (of_nat (byte c) :: octet) = byte c" by (simp add: unat_of_nat)
    then show ?thesis by (simp add: byte_def)
  qed
  then show ?thesis by (simp add: chars_def octets_def map_idI)
qed

text \<open>Big-endian words.\<close>

definition be32 :: "octet list \<Rightarrow> 32 word" where
  "be32 bs = foldl (\<lambda>w b. push_bit 8 w OR ucast b) 0 bs"

definition be128 :: "octet list \<Rightarrow> 128 word" where
  "be128 bs = foldl (\<lambda>w b. push_bit 8 w OR ucast b) 0 bs"

definition octets32 :: "32 word \<Rightarrow> octet list" where
  "octets32 w = map (\<lambda>k. ucast (drop_bit k w)) [24, 16, 8, 0]"

definition octets64 :: "64 word \<Rightarrow> octet list" where
  "octets64 w = map (\<lambda>k. ucast (drop_bit k w)) [56, 48, 40, 32, 24, 16, 8, 0]"

definition octets128 :: "128 word \<Rightarrow> octet list" where
  "octets128 w = map (\<lambda>i. ucast (drop_bit (120 - 8 * i) w)) [0..<16]"

fun chunks :: "nat \<Rightarrow> 'a list \<Rightarrow> 'a list list" where
  "chunks n xs = (if n = 0 \<or> xs = [] then [] else take n xs # chunks n (drop n xs))"

declare chunks.simps [simp del]

section \<open>SHA-256\<close>

definition sha_K :: "32 word list" where
  "sha_K =
    [0x428A2F98, 0x71374491, 0xB5C0FBCF, 0xE9B5DBA5, 0x3956C25B, 0x59F111F1, 0x923F82A4, 0xAB1C5ED5,
     0xD807AA98, 0x12835B01, 0x243185BE, 0x550C7DC3, 0x72BE5D74, 0x80DEB1FE, 0x9BDC06A7, 0xC19BF174,
     0xE49B69C1, 0xEFBE4786, 0x0FC19DC6, 0x240CA1CC, 0x2DE92C6F, 0x4A7484AA, 0x5CB0A9DC, 0x76F988DA,
     0x983E5152, 0xA831C66D, 0xB00327C8, 0xBF597FC7, 0xC6E00BF3, 0xD5A79147, 0x06CA6351, 0x14292967,
     0x27B70A85, 0x2E1B2138, 0x4D2C6DFC, 0x53380D13, 0x650A7354, 0x766A0ABB, 0x81C2C92E, 0x92722C85,
     0xA2BFE8A1, 0xA81A664B, 0xC24B8B70, 0xC76C51A3, 0xD192E819, 0xD6990624, 0xF40E3585, 0x106AA070,
     0x19A4C116, 0x1E376C08, 0x2748774C, 0x34B0BCB5, 0x391C0CB3, 0x4ED8AA4A, 0x5B9CCA4F, 0x682E6FF3,
     0x748F82EE, 0x78A5636F, 0x84C87814, 0x8CC70208, 0x90BEFFFA, 0xA4506CEB, 0xBEF9A3F7, 0xC67178F2]"

definition sha_H0 :: "32 word list" where
  "sha_H0 =
    [0x6A09E667, 0xBB67AE85, 0x3C6EF372, 0xA54FF53A, 0x510E527F, 0x9B05688C, 0x1F83D9AB, 0x5BE0CD19]"

definition rotr32 :: "nat \<Rightarrow> 32 word \<Rightarrow> 32 word" where
  "rotr32 n w = drop_bit n w OR push_bit (32 - n) w"

definition sha_pad :: "octet list \<Rightarrow> octet list" where
  "sha_pad m = m @ [0x80] @ replicate ((119 - length m mod 64) mod 64) 0 @ octets64 (of_nat (8 * length m))"

text \<open>The message schedule: 48 more words, each from the last sixteen.\<close>

fun sha_schedule :: "nat \<Rightarrow> 32 word list \<Rightarrow> 32 word list" where
  "sha_schedule 0 w = w"
| "sha_schedule (Suc n) w =
     (let t = length w; a = w ! (t - 15); b = w ! (t - 2);
          s0 = rotr32 7 a XOR rotr32 18 a XOR drop_bit 3 a;
          s1 = rotr32 17 b XOR rotr32 19 b XOR drop_bit 10 b
      in sha_schedule n (w @ [w ! (t - 16) + s0 + w ! (t - 7) + s1]))"

fun sha_round :: "32 word \<times> 32 word \<Rightarrow> 32 word list \<Rightarrow> 32 word list" where
  "sha_round (k, w) [a, b, c, d, e, f, g, h] =
     (let S1 = rotr32 6 e XOR rotr32 11 e XOR rotr32 25 e;
          ch = (e AND f) XOR (NOT e AND g);
          t1 = h + S1 + ch + k + w;
          S0 = rotr32 2 a XOR rotr32 13 a XOR rotr32 22 a;
          maj = (a AND b) XOR (a AND c) XOR (b AND c)
      in [t1 + (S0 + maj), a, b, c, d + t1, e, f, g])"
| "sha_round _ s = s"

definition sha_block :: "octet list \<Rightarrow> 32 word list \<Rightarrow> 32 word list" where
  "sha_block blk h = map2 (+) h (fold sha_round (zip sha_K (sha_schedule 48 (map be32 (chunks 4 blk)))) h)"

definition sha256 :: "octet list \<Rightarrow> octet list" where
  "sha256 m = concat (map octets32 (fold sha_block (chunks 64 (sha_pad m)) sha_H0))"

section \<open>AES-256\<close>

definition xtime :: "octet \<Rightarrow> octet" where
  "xtime a = (if bit a 7 then push_bit 1 a XOR 0x1B else push_bit 1 a)"

fun gmul_bits :: "nat \<Rightarrow> octet \<Rightarrow> octet \<Rightarrow> octet" where
  "gmul_bits 0 a b = 0"
| "gmul_bits (Suc n) a b = (if bit b 0 then a else 0) XOR gmul_bits n (xtime a) (drop_bit 1 b)"

definition gmul :: "octet \<Rightarrow> octet \<Rightarrow> octet" where
  "gmul a b = gmul_bits 8 a b"

text \<open>The inverse in GF(2^8) is the 254th power.\<close>

definition ginv :: "octet \<Rightarrow> octet" where
  "ginv a =
     (let a2 = gmul a a; a4 = gmul a2 a2; a8 = gmul a4 a4; a16 = gmul a8 a8; a32 = gmul a16 a16;
          a64 = gmul a32 a32; a128 = gmul a64 a64
      in gmul (gmul (gmul a2 a4) (gmul a8 a16)) (gmul (gmul a32 a64) a128))"

definition rotl8 :: "nat \<Rightarrow> octet \<Rightarrow> octet" where
  "rotl8 n b = push_bit n b OR drop_bit (8 - n) b"

definition sbox :: "octet \<Rightarrow> octet" where
  "sbox a = (let b = ginv a in b XOR rotl8 1 b XOR rotl8 2 b XOR rotl8 3 b XOR rotl8 4 b XOR 0x63)"

definition xors :: "octet list \<Rightarrow> octet list \<Rightarrow> octet list" where
  "xors a b = map2 (XOR) a b"

fun key_expand :: "nat \<Rightarrow> octet \<Rightarrow> octet list list \<Rightarrow> octet list list" where
  "key_expand 0 rc w = w"
| "key_expand (Suc n) rc w =
     (let i = length w; t = w ! (i - 1);
          t' = (if i mod 8 = 0 then xors (map sbox (rotate1 t)) [rc, 0, 0, 0]
                else if i mod 8 = 4 then map sbox t else t);
          rc' = (if i mod 8 = 0 then xtime rc else rc)
      in key_expand n rc' (w @ [xors (w ! (i - 8)) t']))"

definition round_keys :: "octet list \<Rightarrow> octet list list" where
  "round_keys key = chunks 16 (concat (key_expand 52 1 (chunks 4 key)))"

text \<open>The state is kept column by column, as it is in memory.\<close>

definition shift_rows :: "octet list \<Rightarrow> octet list" where
  "shift_rows s = map (\<lambda>i. s ! i) [0, 5, 10, 15, 4, 9, 14, 3, 8, 13, 2, 7, 12, 1, 6, 11]"

fun mix_column :: "octet list \<Rightarrow> octet list" where
  "mix_column [a, b, c, d] =
     [xtime a XOR (xtime b XOR b) XOR c XOR d, a XOR xtime b XOR (xtime c XOR c) XOR d,
      a XOR b XOR xtime c XOR (xtime d XOR d), (xtime a XOR a) XOR b XOR c XOR xtime d]"
| "mix_column s = s"

definition mix_columns :: "octet list \<Rightarrow> octet list" where
  "mix_columns s = concat (map mix_column (chunks 4 s))"

definition aes_encrypt :: "octet list \<Rightarrow> octet list \<Rightarrow> octet list" where
  "aes_encrypt key blk =
     (let ks = round_keys key;
          s = fold (\<lambda>k s. xors (mix_columns (shift_rows (map sbox s))) k) (take 13 (drop 1 ks)) (xors blk (ks ! 0))
      in xors (shift_rows (map sbox s)) (ks ! 14))"

section \<open>GCM\<close>

fun gf_loop :: "nat \<Rightarrow> 128 word \<Rightarrow> 128 word \<Rightarrow> 128 word \<Rightarrow> 128 word" where
  "gf_loop 0 x v z = z"
| "gf_loop (Suc n) x v z =
     gf_loop n (push_bit 1 x)
       (if bit v 0 then drop_bit 1 v XOR push_bit 120 0xE1 else drop_bit 1 v)
       (if bit x 127 then z XOR v else z)"

definition gf_mul :: "128 word \<Rightarrow> 128 word \<Rightarrow> 128 word" where
  "gf_mul x y = gf_loop 128 x y 0"

definition pad16 :: "octet list \<Rightarrow> octet list" where
  "pad16 bs = bs @ replicate ((16 - length bs mod 16) mod 16) 0"

definition ghash :: "128 word \<Rightarrow> octet list \<Rightarrow> 128 word" where
  "ghash h bs = foldl (\<lambda>y blk. gf_mul (y XOR be128 blk) h) 0 (chunks 16 bs)"

definition gcm_counter :: "octet list \<Rightarrow> nat \<Rightarrow> octet list" where
  "gcm_counter nonce n = nonce @ octets32 (of_nat n)"

text \<open>The key stream: the counter runs from 2, block by block.\<close>

definition gcm_stream :: "octet list \<Rightarrow> octet list \<Rightarrow> nat \<Rightarrow> octet list" where
  "gcm_stream key nonce n =
     take n (concat (map (\<lambda>i. aes_encrypt key (gcm_counter nonce (i + 2))) [0..<(n + 15) div 16]))"

definition gcm_tag :: "octet list \<Rightarrow> octet list \<Rightarrow> octet list \<Rightarrow> octet list" where
  "gcm_tag key nonce ct =
     (let h = be128 (aes_encrypt key (replicate 16 0));
          s = ghash h (pad16 ct @ octets64 0 @ octets64 (of_nat (8 * length ct)))
      in xors (octets128 s) (aes_encrypt key (gcm_counter nonce 1)))"

definition gcm_overhead :: nat where "gcm_overhead = 16"

definition gcm_seal :: "octet list \<Rightarrow> octet list \<Rightarrow> octet list \<Rightarrow> octet list" where
  "gcm_seal key nonce pt =
     (let ct = xors pt (gcm_stream key nonce (length pt)) in ct @ gcm_tag key nonce ct)"

definition gcm_open :: "octet list \<Rightarrow> octet list \<Rightarrow> octet list \<Rightarrow> octet list option" where
  "gcm_open key nonce sealed =
     (if length sealed < gcm_overhead then None
      else let ct = take (length sealed - gcm_overhead) sealed; tag = drop (length sealed - gcm_overhead) sealed in
        if gcm_tag key nonce ct = tag then Some (xors ct (gcm_stream key nonce (length ct))) else None)"

section \<open>Lengths\<close>

lemma length_xors [simp]: "length (xors a b) = min (length a) (length b)"
  by (simp add: xors_def)

lemma concat_chunks: "0 < n \<Longrightarrow> concat (chunks n xs) = xs"
proof (induction n xs rule: chunks.induct)
  case (1 n xs)
  then show ?case by (subst chunks.simps) auto
qed

lemma chunks_step: "0 < n \<Longrightarrow> xs \<noteq> [] \<Longrightarrow> chunks n xs = take n xs # chunks n (drop n xs)"
  by (subst chunks.simps) simp

lemma chunks_full:
  assumes "0 < n" "length xs = n * k"
  shows "length (chunks n xs) = k \<and> (\<forall>c\<in>set (chunks n xs). length c = n)"
  using assms(2)
proof (induction k arbitrary: xs)
  case 0
  then have "chunks n xs = []" by (subst chunks.simps) simp
  then show ?case by simp
next
  case (Suc k)
  have l: "length (drop n xs) = n * k" using Suc.prems by simp
  have "xs \<noteq> []" using Suc.prems assms(1) by auto
  from chunks_step[OF assms(1) this] Suc.IH[OF l] Suc.prems show ?case by simp
qed

lemma mix_column_length [simp]: "length (mix_column s) = length s"
  by (cases s rule: mix_column.cases) simp_all

lemma mix_columns_length [simp]: "length (mix_columns s) = length s"
proof -
  have "length (mix_columns s) = length (concat (chunks 4 s))"
    by (simp add: mix_columns_def length_concat o_def)
  then show ?thesis by (simp add: concat_chunks)
qed

lemma shift_rows_length [simp]: "length (shift_rows s) = 16"
  by (simp add: shift_rows_def)

lemma key_expand_lengths:
  assumes "8 \<le> length w" "\<forall>k\<in>set w. length k = 4"
  shows "length (key_expand n rc w) = n + length w \<and> (\<forall>k\<in>set (key_expand n rc w). length k = 4)"
  using assms
proof (induction n arbitrary: rc w)
  case (Suc n)
  have "length (w ! (length w - 1)) = 4" "length (w ! (length w - 8)) = 4"
    using Suc.prems by (auto simp: all_set_conv_all_nth)
  then have x: "length (xors (w ! (length w - 8)) t) = 4" if "length t = 4" for t using that by simp
  define t where "t = w ! (length w - 1)"
  define t' where "t' = (if length w mod 8 = 0 then xors (map sbox (rotate1 t)) [rc, 0, 0, 0]
    else if length w mod 8 = 4 then map sbox t else t)"
  define rc' where "rc' = (if length w mod 8 = 0 then xtime rc else rc)"
  have "length t = 4" using \<open>length (w ! (length w - 1)) = 4\<close> by (simp add: t_def)
  then have "length t' = 4" by (simp add: t'_def)
  then have "\<forall>k\<in>set (w @ [xors (w ! (length w - 8)) t']). length k = 4" using Suc.prems(2) x by auto
  with Suc.IH[of "w @ [xors (w ! (length w - 8)) t']" rc'] Suc.prems(1)
  have "length (key_expand n rc' (w @ [xors (w ! (length w - 8)) t'])) = Suc n + length w \<and>
    (\<forall>k\<in>set (key_expand n rc' (w @ [xors (w ! (length w - 8)) t'])). length k = 4)" by simp
  moreover have "key_expand (Suc n) rc w = key_expand n rc' (w @ [xors (w ! (length w - 8)) t'])"
    unfolding key_expand.simps(2)[of n rc w] Let_def t'_def rc'_def t_def by (rule refl)
  ultimately show ?case by simp
qed simp

lemma round_keys_lengths:
  assumes "length key = 32"
  shows "length (round_keys key) = 15" "\<forall>k\<in>set (round_keys key). length k = 16"
proof -
  have c: "length (chunks 4 key) = 8" "\<forall>k\<in>set (chunks 4 key). length k = 4"
    using chunks_full[of 4 key 8] assms by simp_all
  note e = key_expand_lengths[of "chunks 4 key" 52 1]
  have "\<forall>k\<in>set (key_expand 52 1 (chunks 4 key)). length k = 4"
    and l: "length (key_expand 52 1 (chunks 4 key)) = 60"
    using e c by simp_all
  then have "map length (key_expand 52 1 (chunks 4 key)) = replicate 60 4"
    by (intro replicate_eqI) auto
  then have "length (concat (key_expand 52 1 (chunks 4 key))) = 240"
    by (simp add: length_concat sum_list_replicate)
  then show "length (round_keys key) = 15" "\<forall>k\<in>set (round_keys key). length k = 16"
    using chunks_full[of 16 "concat (key_expand 52 1 (chunks 4 key))" 15] by (simp_all add: round_keys_def)
qed

lemma aes_rounds_length:
  "\<lbrakk>length s = 16; \<forall>k\<in>set ks. length k = 16\<rbrakk> \<Longrightarrow>
   length (fold (\<lambda>k s. xors (mix_columns (shift_rows (map sbox s))) k) ks s) = 16"
  by (induction ks arbitrary: s) simp_all

lemma aes_encrypt_length:
  assumes "length key = 32" "length blk = 16"
  shows "length (aes_encrypt key blk) = 16"
proof -
  note k = round_keys_lengths[OF assms(1)]
  have "length (round_keys key ! 0) = 16" "length (round_keys key ! 14) = 16"
    using k by (auto simp: all_set_conv_all_nth)
  moreover have "\<forall>x\<in>set (take 13 (drop 1 (round_keys key))). length x = 16"
    using k(2) by (meson in_set_dropD in_set_takeD)
  ultimately show ?thesis using assms by (simp add: aes_encrypt_def Let_def aes_rounds_length)
qed

lemma length_octets [simp]: "length (octets32 u) = 4" "length (octets64 v) = 8" "length (octets128 w) = 16"
  by (simp_all add: octets32_def octets64_def octets128_def)

lemma gcm_stream_length:
  assumes "length key = 32" "length nonce = 12"
  shows "length (gcm_stream key nonce n) = n"
proof -
  have "length (aes_encrypt key (gcm_counter nonce i)) = 16" for i
    using assms by (simp add: aes_encrypt_length gcm_counter_def)
  then have "length (concat (map (\<lambda>i. aes_encrypt key (gcm_counter nonce (i + 2))) [0..<m])) = 16 * m" for m
    by (induction m) simp_all
  moreover have "n \<le> 16 * ((n + 15) div 16)" by linarith
  ultimately show ?thesis by (simp add: gcm_stream_def)
qed

lemma gcm_tag_length:
  assumes "length key = 32" "length nonce = 12"
  shows "length (gcm_tag key nonce ct) = 16"
  using assms by (simp add: gcm_tag_def Let_def aes_encrypt_length gcm_counter_def)

lemma xors_twice: "length p = length k \<Longrightarrow> xors (xors p k) k = p"
  by (induction p k rule: list_induct2) (simp_all add: xors_def xor.assoc)

section \<open>What the callers rely on\<close>

locale aead =
  fixes seal :: "octet list \<Rightarrow> octet list \<Rightarrow> octet list \<Rightarrow> octet list"
    and unseal :: "octet list \<Rightarrow> octet list \<Rightarrow> octet list \<Rightarrow> octet list option"
    and overhead :: nat
  assumes unseal_iff: "length key = 32 \<Longrightarrow> length nonce = 12 \<Longrightarrow>
      unseal key nonce sealed = Some pt \<longleftrightarrow> sealed = seal key nonce pt"
    and seal_length: "length key = 32 \<Longrightarrow> length nonce = 12 \<Longrightarrow>
      length (seal key nonce pt) = length pt + overhead"
begin

lemma seal_inj:
  "length key = 32 \<Longrightarrow> length nonce = 12 \<Longrightarrow> seal key nonce p = seal key nonce q \<longleftrightarrow> p = q"
  by (metis option.inject unseal_iff)

lemma unseal_seal: "length key = 32 \<Longrightarrow> length nonce = 12 \<Longrightarrow> unseal key nonce (seal key nonce p) = Some p"
  by (simp add: unseal_iff)

end

lemma gcm_open_iff:
  assumes "length key = 32" "length nonce = 12"
  shows "gcm_open key nonce sealed = Some pt \<longleftrightarrow> sealed = gcm_seal key nonce pt"
proof
  note s = gcm_stream_length[OF assms] and t = gcm_tag_length[OF assms]
  assume o: "gcm_open key nonce sealed = Some pt"
  define ct where "ct = take (length sealed - 16) sealed"
  from o have g: "gcm_tag key nonce ct = drop (length sealed - 16) sealed"
    "pt = xors ct (gcm_stream key nonce (length ct))"
    by (auto simp: gcm_open_def gcm_overhead_def Let_def ct_def split: if_splits)
  have "length pt = length ct" using g(2) s by simp
  then have "xors pt (gcm_stream key nonce (length pt)) = ct" using g(2) s by (simp add: xors_twice)
  with g(1) show "sealed = gcm_seal key nonce pt"
    by (simp add: gcm_seal_def Let_def ct_def)
next
  note s = gcm_stream_length[OF assms] and t = gcm_tag_length[OF assms]
  assume "sealed = gcm_seal key nonce pt"
  then show "gcm_open key nonce sealed = Some pt"
    using s t by (simp add: gcm_open_def gcm_seal_def Let_def gcm_overhead_def xors_twice)
qed

interpretation gcm: aead gcm_seal gcm_open gcm_overhead
  by unfold_locales (simp_all add: gcm_open_iff gcm_seal_def Let_def gcm_stream_length gcm_tag_length gcm_overhead_def)

lemma sha_round_length [simp]: "length (sha_round kw s) = length s"
  by (cases "(kw, s)" rule: sha_round.cases) (simp_all add: Let_def)

lemma sha_rounds_length [simp]: "length (fold sha_round kws s) = length s"
  by (induction kws arbitrary: s) simp_all

lemma sha_blocks_length [simp]: "length (fold sha_block bs h) = length h"
  by (induction bs arbitrary: h) (simp_all add: sha_block_def)

lemma sha256_length [simp]: "length (sha256 m) = 32"
proof -
  have "length (concat (map octets32 ws)) = 4 * length ws" for ws by (induction ws) simp_all
  then show ?thesis by (simp add: sha256_def sha_H0_def)
qed

end
