(* ===== verification/Crypto.thy ===== *)
theory Crypto
  imports AesGcm Strconv
begin

text \<open>
  \<open>internal/crypto/crypto.go\<close>: Chzzk tokens at rest, base64 of nonce, AES-256-GCM ciphertext and
  tag under the SHA-256 of the configured secret. The random nonce is an argument. The laws of
  the AEAD enter through the locale \<open>aead\<close>, interpreted on GCM.
\<close>

section \<open>base64.StdEncoding\<close>

definition b64_alphabet :: string where
  "b64_alphabet = ''ABCDEFGHIJKLMNOPQRSTUVWXYZabcdefghijklmnopqrstuvwxyz0123456789+/''"

definition b64_char :: "nat \<Rightarrow> char" where
  "b64_char n = b64_alphabet ! n"

text \<open>The place of a character in the alphabet.\<close>

definition b64_value :: "char \<Rightarrow> nat option" where
  "b64_value c = (let i = length (takeWhile (\<lambda>x. x \<noteq> c) b64_alphabet) in if i < 64 then Some i else None)"

fun b64_encode :: "nat list \<Rightarrow> string" where
  "b64_encode [] = []"
| "b64_encode [a] = [b64_char (a div 4), b64_char (a mod 4 * 16), CHR ''='', CHR ''='']"
| "b64_encode [a, b] = [b64_char (a div 4), b64_char (a mod 4 * 16 + b div 16), b64_char (b mod 16 * 4), CHR ''='']"
| "b64_encode (a # b # c # r) =
     b64_char (a div 4) # b64_char (a mod 4 * 16 + b div 16) # b64_char (b mod 16 * 4 + c div 64)
       # b64_char (c mod 64) # b64_encode r"

text \<open>
  The decoder skips carriage returns and line feeds wherever they stand; it is not strict, so the
  spare bits of the last digit are dropped.
\<close>

fun b64_quanta :: "string \<Rightarrow> nat list option" where
  "b64_quanta [] = Some []"
| "b64_quanta (w # x # y # z # r) =
     (case (b64_value w, b64_value x) of
        (Some a, Some b) \<Rightarrow>
          (case (b64_value y, b64_value z) of
             (Some c, Some d) \<Rightarrow>
               (case b64_quanta r of None \<Rightarrow> None
                | Some bs \<Rightarrow> Some ((a * 4 + b div 16) # (b mod 16 * 16 + c div 4) # (c mod 4 * 64 + d) # bs))
           | (Some c, None) \<Rightarrow>
               if z = CHR ''='' \<and> r = [] then Some [a * 4 + b div 16, b mod 16 * 16 + c div 4] else None
           | (None, _) \<Rightarrow>
               if y = CHR ''='' \<and> z = CHR ''='' \<and> r = [] then Some [a * 4 + b div 16] else None)
      | _ \<Rightarrow> None)"
| "b64_quanta _ = None"

definition b64_decode :: "string \<Rightarrow> nat list option" where
  "b64_decode s = b64_quanta (filter (\<lambda>c. c \<noteq> CHR 0x0A \<and> c \<noteq> CHR 0x0D) s)"

lemma b64_alphabet: "distinct b64_alphabet" "length b64_alphabet = 64"
  by code_simp+

lemma takeWhile_nth: "distinct xs \<Longrightarrow> n < length xs \<Longrightarrow> length (takeWhile (\<lambda>x. x \<noteq> xs ! n) xs) = n"
proof (induction xs arbitrary: n)
  case (Cons x xs)
  then show ?case by (cases n) auto
qed simp

lemma b64_outside: "CHR ''='' \<notin> set b64_alphabet" "CHR 0x0A \<notin> set b64_alphabet" "CHR 0x0D \<notin> set b64_alphabet"
  by (simp_all add: b64_alphabet_def)

lemma b64_char [simp]:
  assumes "n < 64"
  shows "b64_value (b64_char n) = Some n" "b64_char n \<noteq> CHR ''=''" "b64_char n \<noteq> CHR 0x0A" "b64_char n \<noteq> CHR 0x0D"
proof -
  have m: "b64_char n \<in> set b64_alphabet" using assms b64_alphabet(2) by (simp add: b64_char_def)
  show "b64_value (b64_char n) = Some n"
    using takeWhile_nth[OF b64_alphabet(1), of n] assms b64_alphabet(2) by (simp add: b64_value_def b64_char_def)
  show "b64_char n \<noteq> CHR ''=''" "b64_char n \<noteq> CHR 0x0A" "b64_char n \<noteq> CHR 0x0D" using m b64_outside by metis+
qed

lemma b64_pad [simp]: "b64_value (CHR ''='') = None"
  by (simp add: b64_value_def b64_alphabet_def)

text \<open>The digits of three bytes.\<close>

lemma sextets:
  "a div 4 < 64" "a mod 4 * 16 < 64" "a mod 4 * 16 + b div 16 < 64" "b mod 16 * 4 < 64"
  "b mod 16 * 4 + c div 64 < 64" "c mod 64 < 64"
  if "a < 256" "b < 256" "c < 256" for a b c :: nat
proof -
  have "a div 4 < 64" "a mod 4 < 4" "b div 16 < 16" "b mod 16 < 16" "c div 64 < 4" using that by simp_all
  then show "a div 4 < 64" "a mod 4 * 16 < 64" "a mod 4 * 16 + b div 16 < 64" "b mod 16 * 4 < 64"
    "b mod 16 * 4 + c div 64 < 64" "c mod 64 < 64" by linarith+
qed

lemma octet_parts:
  "a div 4 * 4 + (a mod 4 * 16 + b div 16) div 16 = a"
  "(a mod 4 * 16 + b div 16) mod 16 * 16 + (b mod 16 * 4 + c div 64) div 4 = b"
  "(b mod 16 * 4 + c div 64) mod 4 * 64 + c mod 64 = c"
  if "a < 256" "b < 256" "c < 256" for a b c :: nat
proof -
  have b: "b div 16 < 16" and c: "c div 64 < 4" using that by simp_all
  have "(a mod 4 * 16 + b div 16) div 16 = a mod 4" "(a mod 4 * 16 + b div 16) mod 16 = b div 16" using b by simp_all
  moreover have "(b mod 16 * 4 + c div 64) div 4 = b mod 16" "(b mod 16 * 4 + c div 64) mod 4 = c div 64" using c by simp_all
  ultimately show "a div 4 * 4 + (a mod 4 * 16 + b div 16) div 16 = a"
    "(a mod 4 * 16 + b div 16) mod 16 * 16 + (b mod 16 * 4 + c div 64) div 4 = b"
    "(b mod 16 * 4 + c div 64) mod 4 * 64 + c mod 64 = c" by (simp_all add: mult.commute)
qed

lemma b64_quanta_encode: "list_all (\<lambda>b. b < 256) bs \<Longrightarrow> b64_quanta (b64_encode bs) = Some bs"
proof (induction bs rule: b64_encode.induct)
  case (2 a)
  then show ?case using sextets[of a 0 0] octet_parts[of a 0 0] by simp
next
  case (3 a b)
  then show ?case using sextets[of a b 0] octet_parts[of a b 0] by simp
next
  case (4 a b c r)
  then have l: "a < 256" "b < 256" "c < 256" and r: "b64_quanta (b64_encode r) = Some r" by simp_all
  note s = sextets(1,3,5,6)[OF l, THEN b64_char(1)]
  show ?case
    unfolding b64_encode.simps b64_quanta.simps s r prod.case option.case octet_parts[OF l] ..
qed simp

lemma b64_encode_plain:
  "list_all (\<lambda>b. b < 256) bs \<Longrightarrow> list_all (\<lambda>c. c \<noteq> CHR 0x0A \<and> c \<noteq> CHR 0x0D) (b64_encode bs)"
proof (induction bs rule: b64_encode.induct)
  case (2 a)
  then show ?case using sextets[of a 0 0] by simp
next
  case (3 a b)
  then show ?case using sextets[of a b 0] by simp
next
  case (4 a b c r)
  then show ?case using sextets[of a b c] by simp
qed simp

lemma b64_decode_encode: "list_all (\<lambda>b. b < 256) bs \<Longrightarrow> b64_decode (b64_encode bs) = Some bs"
  using b64_encode_plain[of bs] b64_quanta_encode[of bs]
  by (simp add: b64_decode_def list_all_iff filter_id_conv)

text \<open>What decodes is made of bytes.\<close>

lemma b64_value_less: "b64_value c = Some n \<Longrightarrow> n < 64"
  by (auto simp: b64_value_def Let_def split: if_splits)

lemma b64_quanta_bytes: "b64_quanta s = Some bs \<Longrightarrow> list_all (\<lambda>b. b < 256) bs"
proof (induction s arbitrary: bs rule: b64_quanta.induct)
  case (2 w x y z r)
  have q: "a * 4 + b div 16 < 256" "b mod 16 * 16 + c div 4 < 256" "c mod 4 * 64 + d < 256"
    if "a < 64" "b < 64" "c < 64" "d < 64" for a b c d :: nat
  proof -
    have "b div 16 < 4" "b mod 16 < 16" "c div 4 < 16" "c mod 4 < 4" using that by simp_all
    with that show "a * 4 + b div 16 < 256" "b mod 16 * 16 + c div 4 < 256" "c mod 4 * 64 + d < 256" by linarith+
  qed
  from 2 show ?case
    by (auto split: option.splits if_splits dest!: b64_value_less intro: q)
qed simp_all

section \<open>Sealed values\<close>

datatype crypto_error = ErrDecrypt | EmptyKey

definition nonceSize :: nat where "nonceSize = 12"

text \<open>A box holds the key of the AEAD.\<close>

type_synonym box = "octet list"

definition New :: "string \<Rightarrow> crypto_error + box" where
  "New secret = (if secret = '''' then Inl EmptyKey else Inr (sha256 (octets secret)))"

definition seal_value ::
  "(octet list \<Rightarrow> octet list \<Rightarrow> octet list \<Rightarrow> octet list) \<Rightarrow> box \<Rightarrow> octet list \<Rightarrow> string \<Rightarrow> string" where
  "seal_value seal key nonce plaintext =
     b64_encode (map unat (nonce @ seal key nonce (octets plaintext)))"

definition open_value ::
  "(octet list \<Rightarrow> octet list \<Rightarrow> octet list \<Rightarrow> octet list option) \<Rightarrow> nat \<Rightarrow> box \<Rightarrow> string \<Rightarrow> crypto_error + string" where
  "open_value unseal overhead key value =
     (case b64_decode value of
        None \<Rightarrow> Inl ErrDecrypt
      | Some bytes \<Rightarrow>
          let raw = map of_nat bytes in
          if length raw < nonceSize + overhead then Inl ErrDecrypt
          else (case unseal key (take nonceSize raw) (drop nonceSize raw) of
                  None \<Rightarrow> Inl ErrDecrypt
                | Some pt \<Rightarrow> Inr (chars pt)))"

definition Encrypt :: "box \<Rightarrow> octet list \<Rightarrow> string \<Rightarrow> string" where
  "Encrypt key nonce plaintext = seal_value gcm_seal key nonce plaintext"

definition Decrypt :: "box \<Rightarrow> string \<Rightarrow> crypto_error + string" where
  "Decrypt key value = open_value gcm_open gcm_overhead key value"

lemma octets_chars [simp]: "octets (chars bs) = bs"
proof -
  have "of_nat (byte (char_of (unat b))) = b" for b :: octet
  proof -
    have "unat b < 256" using unsigned_less[of b, where ?'a = nat] by simp
    then show ?thesis by (simp add: byte_def)
  qed
  then show ?thesis by (simp add: chars_def octets_def map_idI)
qed

lemma unat_octet: "list_all (\<lambda>b. b < 256) (map unat (bs :: octet list))"
proof -
  have "unat b < 256" for b :: octet using unsigned_less[of b, where ?'a = nat] by simp
  then show ?thesis by (simp add: list_all_iff)
qed

lemma map_of_nat_unat [simp]: "map of_nat (map unat (bs :: octet list)) = bs"
  by (simp add: map_idI)

lemma map_unat_of_nat:
  assumes "list_all (\<lambda>b. b < 256) bs"
  shows "map unat (map of_nat bs :: octet list) = bs"
proof -
  have "unat (of_nat b :: octet) = b" if "b < 256" for b using that by (simp add: unat_of_nat)
  with assms show ?thesis by (simp add: list_all_iff map_idI)
qed

text \<open>Which values an AEAD opens: exactly those that decode to a nonce and what it seals under it.\<close>

context aead
begin

lemma open_value_iff:
  assumes "length key = 32"
  shows "open_value unseal overhead key value = Inr pt \<longleftrightarrow>
    (\<exists>nonce. length nonce = 12 \<and> b64_decode value = Some (map unat (nonce @ seal key nonce (octets pt))))"
proof
  assume o: "open_value unseal overhead key value = Inr pt"
  then obtain bytes where b: "b64_decode value = Some bytes" by (auto simp: open_value_def split: option.splits)
  define raw :: "octet list" where "raw = map of_nat bytes"
  from o b obtain p where p: "12 \<le> length raw" "unseal key (take 12 raw) (drop 12 raw) = Some p" "pt = chars p"
    by (auto simp: open_value_def nonceSize_def raw_def Let_def split: if_splits option.splits)
  then have "drop 12 raw = seal key (take 12 raw) p" using assms by (simp add: unseal_iff)
  then have "raw = take 12 raw @ seal key (take 12 raw) (octets pt)" using p(3) by (metis append_take_drop_id octets_chars)
  moreover have "map unat raw = bytes"
    unfolding raw_def using b by (intro map_unat_of_nat) (auto simp: b64_decode_def dest: b64_quanta_bytes)
  ultimately show "\<exists>nonce. length nonce = 12 \<and> b64_decode value = Some (map unat (nonce @ seal key nonce (octets pt)))"
    using b p(1) by (intro exI[of _ "take 12 raw"]) simp
next
  assume "\<exists>nonce. length nonce = 12 \<and> b64_decode value = Some (map unat (nonce @ seal key nonce (octets pt)))"
  then obtain nonce where n: "length nonce = 12" "b64_decode value = Some (map unat (nonce @ seal key nonce (octets pt)))" by blast
  have "length (seal key nonce (octets pt)) = length (octets pt) + overhead" using assms n(1) by (rule seal_length)
  with n assms show "open_value unseal overhead key value = Inr pt"
    by (simp add: open_value_def nonceSize_def Let_def unseal_seal del: map_map map_append)
qed

lemma open_seal_value:
  assumes "length key = 32" "length nonce = 12"
  shows "open_value unseal overhead key (seal_value seal key nonce pt) = Inr pt"
  using assms b64_decode_encode[OF unat_octet]
  by (subst open_value_iff) (auto simp: seal_value_def simp del: map_append)

end

lemma Decrypt_iff:
  "length key = 32 \<Longrightarrow> Decrypt key value = Inr pt \<longleftrightarrow>
   (\<exists>nonce. length nonce = 12 \<and> b64_decode value = Some (map unat (nonce @ gcm_seal key nonce (octets pt))))"
  unfolding Decrypt_def by (rule gcm.open_value_iff)

lemma Decrypt_Encrypt: "length key = 32 \<Longrightarrow> length nonce = 12 \<Longrightarrow> Decrypt key (Encrypt key nonce pt) = Inr pt"
  unfolding Decrypt_def Encrypt_def by (rule gcm.open_seal_value)

lemma New_key: "New secret = Inr key \<Longrightarrow> length key = 32"
  by (auto simp: New_def split: if_splits)

text \<open>
  C17: Tokens at rest. With the box of any non-empty secret, what \<open>Encrypt\<close> stores under any nonce
  decrypts to the token it was given; and \<open>Decrypt\<close> accepts a stored value only if, line breaks
  aside, it decodes to a nonce followed by exactly what sealing the returned token under that nonce
  gives: a value altered in any byte of nonce, ciphertext or tag that is not itself such a sealing is
  refused, with the same error as every other failure.
\<close>

theorem token_at_rest:
  assumes "New secret = Inr key"
  shows "(length nonce = 12 \<longrightarrow> Decrypt key (Encrypt key nonce token) = Inr token)
    \<and> (case Decrypt key value of
         Inr pt \<Rightarrow> (\<exists>n. length n = 12 \<and> b64_decode value = Some (map unat (n @ gcm_seal key n (octets pt))))
       | Inl e \<Rightarrow> e = ErrDecrypt)"
proof -
  note k = New_key[OF assms]
  have "e = ErrDecrypt" if "Decrypt key value = Inl e" for e
    using that by (auto simp: Decrypt_def open_value_def Let_def split: option.splits if_splits)
  with Decrypt_Encrypt[OF k] Decrypt_iff[OF k, of "value"] show ?thesis by (auto split: sum.splits)
qed

theorem token_at_rest_witness:
  "Decrypt (sha256 (octets ''k'')) (Encrypt (sha256 (octets ''k'')) (replicate 12 7) ''token'') = Inr ''token''"
  using token_at_rest[of "''k''" "sha256 (octets ''k'')" "replicate 12 7" "''token''"] by (simp add: New_def)

end
