(* ===== verification/Tokens.thy ===== *)
theory Tokens
  imports Chzzk Crypto Store
begin

text \<open>
  \<open>internal/realtime/tokens.go\<close>: the access token of a channel, from the database or refreshed over the
  Open API and stored again. Arguments stand for the client, the network, the two nonces of the
  encryptions and the clock after the network call.
\<close>

datatype token_error =
    ErrNoToken "api_error option"
  | TokenDb db_error
  | TokenDecrypt
  | TokenPersist db_error

definition refreshSkew :: int where
  "refreshSkew = 300"

text \<open>\<open>ch.TokenExpiresAt == nil || t.now().Add(refreshSkew).Unix() < *ch.TokenExpiresAt\<close>.\<close>

definition still_valid :: "int \<Rightarrow> channel_row \<Rightarrow> bool" where
  "still_valid now ch = (case ch_expires ch of None \<Rightarrow> True | Some x \<Rightarrow> unixepoch now + refreshSkew < x)"

definition decrypted :: "crypto_error + string \<Rightarrow> token_error + string" where
  "decrypted r = (case r of Inl e \<Rightarrow> Inl TokenDecrypt | Inr s \<Rightarrow> Inr s)"

definition AccessToken ::
  "client \<Rightarrow> api_http \<Rightarrow> box \<Rightarrow> octet list \<Rightarrow> octet list \<Rightarrow> int \<Rightarrow> string \<Rightarrow> world \<Rightarrow> (token_error + string) \<times> world" where
  "AccessToken c http key nonce1 nonce2 later channelID w =
     (case run_stmt (GetChannelByChzzkID channelID) w of
        (Inl e, w1) \<Rightarrow> (Inl (if e = ErrNoRows then ErrNoToken None else TokenDb e), w1)
      | (Inr ch, w1) \<Rightarrow>
        (case ch_access ch of
           None \<Rightarrow> (Inl (ErrNoToken None), w1)
         | Some access \<Rightarrow>
           if still_valid (w_now w1) ch
           then (decrypted (Decrypt key access), w1)
           else (case ch_refresh ch of
             None \<Rightarrow> (Inl (ErrNoToken None), w1)
           | Some enc \<Rightarrow>
             (case Decrypt key enc of
                Inl e \<Rightarrow> (Inl TokenDecrypt, w1)
              | Inr refresh \<Rightarrow>
                (case Refresh c http refresh of
                   Inl e \<Rightarrow> (Inl (ErrNoToken (Some e)), w1\<lparr>w_now := later\<rparr>)
                 | Inr tok \<Rightarrow>
                   (let expires = unixepoch later + tk_expires_in tok in
                    case WriteTx False (\<lambda>held. run_stmt (UpdateChannelTokens
                             (Some (Encrypt key nonce1 (tk_access tok))) (Some (Encrypt key nonce2 (tk_refresh tok)))
                             (Some expires) (ch_id ch))) (w1\<lparr>w_now := later\<rparr>) of
                      (Inl e, w2) \<Rightarrow> (Inl (TokenPersist e), w2)
                    | (Inr u, w2) \<Rightarrow> (Inr (tk_access tok), w2)))))))"

section \<open>A stored row after a refresh\<close>

lemma find_update_where:
  assumes "\<And>r. P (f r) = P r"
  shows "find P (update_where Q f rows) = map_option (\<lambda>r. if Q r then f r else r) (find P rows)"
  using assms by (induction rows) (auto simp: update_where_def)

definition with_tokens :: "string \<Rightarrow> string \<Rightarrow> int \<Rightarrow> channel_row \<Rightarrow> channel_row" where
  "with_tokens access refresh expires ch =
     ch\<lparr>ch_access := Some access, ch_refresh := Some refresh, ch_expires := Some expires\<rparr>"

lemma stored_tokens:
  assumes "find (\<lambda>c. ch_chzzk_id c = cid) (db_channels d) = Some ch"
    and "UpdateChannelTokens (Some a) (Some r) (Some x) (ch_id ch) t d = Inr (u, d')"
  shows "find (\<lambda>c. ch_chzzk_id c = cid) (db_channels d') = Some (with_tokens a r x ch)"
proof -
  from assms(2) have d': "db_channels d' = update_where (\<lambda>c. ch_id c = ch_id ch)
      (\<lambda>c. c\<lparr>ch_access := Some a, ch_refresh := Some r, ch_expires := Some x\<rparr>) (db_channels d)"
    by (auto simp: UpdateChannelTokens_def)
  show ?thesis unfolding d' by (subst find_update_where) (simp_all add: assms(1) with_tokens_def)
qed

lemma AccessToken_fresh:
  assumes "find (\<lambda>c. ch_chzzk_id c = cid) (db_channels (w_db w)) = Some ch" "ch_access ch = Some enc"
    and "still_valid (w_now w) ch" "w_faults w = []"
  shows "AccessToken c http key n1 n2 later cid w = (decrypted (Decrypt key enc), w)"
proof -
  have "run_stmt (GetChannelByChzzkID cid) w = (Inr ch, w)"
    using assms(1,4) by (simp add: run_stmt_def GetChannelByChzzkID_def one_def)
  with assms(2,3) show ?thesis by (simp add: AccessToken_def)
qed

text \<open>The ways a call can end.\<close>

lemma AccessToken_cases:
  assumes "AccessToken c http key n1 n2 later cid w = (r, w1)"
  obtains (failed) e where "r = Inl e" "w_db w1 = w_db w"
  | (stored) ch enc a where "r = Inr a" "w_db w1 = w_db w"
      "find (\<lambda>c. ch_chzzk_id c = cid) (db_channels (w_db w)) = Some ch" "ch_access ch = Some enc"
      "still_valid (w_now w) ch" "Decrypt key enc = Inr a"
  | (refreshed) ch x enc refresh tok where "r = Inr (tk_access tok)"
      "find (\<lambda>c. ch_chzzk_id c = cid) (db_channels (w_db w)) = Some ch"
      "ch_expires ch = Some x" "x \<le> unixepoch (w_now w) + 300"
      "ch_refresh ch = Some enc" "Decrypt key enc = Inr refresh" "Refresh c http refresh = Inr tok"
      "find (\<lambda>c. ch_chzzk_id c = cid) (db_channels (w_db w1)) =
         Some (with_tokens (Encrypt key n1 (tk_access tok)) (Encrypt key n2 (tk_refresh tok))
                 (unixepoch later + tk_expires_in tok) ch)"
proof -
  obtain r0 w0 where q: "run_stmt (GetChannelByChzzkID cid) w = (r0, w0)" by fastforce
  have w0: "w_db w0 = w_db w \<and> w_now w0 = w_now w"
    using q take_fault_simps[of w]
    by (auto simp: run_stmt_def Let_def case_prod_beta GetChannelByChzzkID_def one_def split: if_splits option.splits)
  show ?thesis
  proof (cases r0)
    case (Inl e)
    with assms q w0 show ?thesis by (intro failed) (auto simp: AccessToken_def)
  next
    case (Inr ch)
    from run_stmt_ok[of "GetChannelByChzzkID cid" w ch w0] q Inr have f: "find (\<lambda>c. ch_chzzk_id c = cid) (db_channels (w_db w)) = Some ch"
      by (auto simp: GetChannelByChzzkID_def one_def split: option.splits)
    show ?thesis
    proof (cases "ch_access ch")
      case None
      with assms q w0 Inr show ?thesis by (intro failed) (auto simp: AccessToken_def)
    next
      case (Some enc)
      show ?thesis
      proof (cases "still_valid (w_now w) ch")
        case True
        with assms q w0 Inr Some have e:
            "r = decrypted (Decrypt key enc)" "w1 = w0"
          by (auto simp: AccessToken_def)
        show ?thesis
        proof (cases "Decrypt key enc")
          case (Inl x)
          with e w0 show ?thesis by (intro failed) (auto simp: decrypted_def)
        next
          case (Inr a)
          with e w0 f Some True show ?thesis by (intro stored) (auto simp: decrypted_def)
        qed
      next
        case False
        then obtain x where x: "ch_expires ch = Some x" "x \<le> unixepoch (w_now w) + 300"
          by (auto simp: still_valid_def refreshSkew_def split: option.splits)
        show ?thesis
        proof (cases "ch_refresh ch")
          case None
          with assms q w0 Inr Some False show ?thesis by (intro failed) (auto simp: AccessToken_def)
        next
          case (Some renc)
          show ?thesis
          proof (cases "Decrypt key renc")
            case (Inl y)
            with assms q w0 Inr \<open>ch_access ch = Some enc\<close> Some False show ?thesis
              by (intro failed) (auto simp: AccessToken_def)
          next
            case (Inr refresh)
            show ?thesis
            proof (cases "Refresh c http refresh")
              case (Inl y)
              with assms q w0 \<open>r0 = Inr ch\<close> Inr \<open>ch_access ch = Some enc\<close> Some False show ?thesis
                by (intro failed) (auto simp: AccessToken_def)
            next
              case (Inr tok)
              let ?body = "\<lambda>held. run_stmt (UpdateChannelTokens
                  (Some (Encrypt key n1 (tk_access tok))) (Some (Encrypt key n2 (tk_refresh tok)))
                  (Some (unixepoch later + tk_expires_in tok)) (ch_id ch))"
              obtain r2 w2 where t: "WriteTx False ?body (w0\<lparr>w_now := later\<rparr>) = (r2, w2)" by fastforce
              have ev: "(r, w1) = (case r2 of Inl e \<Rightarrow> (Inl (TokenPersist e), w2) | Inr u \<Rightarrow> (Inr (tk_access tok), w2))"
                using assms q \<open>r0 = Inr ch\<close> \<open>ch_access ch = Some enc\<close> Some \<open>Decrypt key renc = Inr refresh\<close> Inr False t w0
                by (simp add: AccessToken_def Let_def split: sum.splits)
              show ?thesis
              proof (cases r2)
                case (Inl e)
                with t WriteTx_error[of False ?body "w0\<lparr>w_now := later\<rparr>" e w2] ev w0 show ?thesis
                  by (intro failed) auto
              next
                case u: (Inr u)
                with t WriteTx_ok[of False ?body "w0\<lparr>w_now := later\<rparr>" u w2] obtain w3 where
                  w3: "?body True (snd (take_fault (w0\<lparr>w_now := later\<rparr>))) = (Inr u, w3)" "w_db w2 = w_db w3" by auto
                from run_stmt_ok[OF w3(1)] have
                  "UpdateChannelTokens (Some (Encrypt key n1 (tk_access tok))) (Some (Encrypt key n2 (tk_refresh tok)))
                    (Some (unixepoch later + tk_expires_in tok)) (ch_id ch) later (w_db w) = Inr (u, w_db w2)"
                  using w0 w3(2) by simp
                from stored_tokens[OF f this] ev u f x Some \<open>Decrypt key renc = Inr refresh\<close> Inr show ?thesis
                  by (intro refreshed) auto
              qed
            qed
          qed
        qed
      qed
    qed
  qed
qed

section \<open>What a caller gets\<close>

text \<open>A clock reading at which a stored expiry is more than the skew away.\<close>

definition far_from :: "int \<Rightarrow> int \<Rightarrow> bool" where
  "far_from x t \<longleftrightarrow> unixepoch t + refreshSkew < x"

text \<open>
  C11: The access token of a channel. A call that fails leaves the database as it was. A call that
  succeeds either returns the stored token decrypted, when it has no expiry or expires more than five
  minutes from now, changing nothing; or it refreshed an expiring one with the stored refresh token and returns the
  token the API gave: then it is stored encrypted, and every later call until five minutes before its expiry, with
  any network and any nonces, returns that same token from the database. The refresh token the API
  gave is stored with it and decrypts to what was given.
\<close>

theorem AccessToken_outcome:
  assumes "New secret = Inr key" "length n1 = 12" "length n2 = 12"
    and "AccessToken c http key n1 n2 later cid w = (r, w1)"
  shows "case r of
      Inl e \<Rightarrow> w_db w1 = w_db w
    | Inr a \<Rightarrow>
        (w_db w1 = w_db w \<and> (\<exists>ch enc. find (\<lambda>c. ch_chzzk_id c = cid) (db_channels (w_db w)) = Some ch
            \<and> ch_access ch = Some enc \<and> still_valid (w_now w) ch \<and> Decrypt key enc = Inr a))
        \<or> (\<exists>ch enc refresh tok row. find (\<lambda>c. ch_chzzk_id c = cid) (db_channels (w_db w)) = Some ch
            \<and> \<not> still_valid (w_now w) ch \<and> ch_refresh ch = Some enc \<and> Decrypt key enc = Inr refresh
            \<and> Refresh c http refresh = Inr tok \<and> a = tk_access tok
            \<and> find (\<lambda>c. ch_chzzk_id c = cid) (db_channels (w_db w1)) = Some row
            \<and> map_option (Decrypt key) (ch_refresh row) = Some (Inr (tk_refresh tok))
            \<and> (\<forall>t http' m1 m2 later'. far_from (unixepoch later + tk_expires_in tok) t \<longrightarrow>
                AccessToken c http' key m1 m2 later' cid (w1\<lparr>w_now := t, w_faults := []\<rparr>)
                  = (Inr a, w1\<lparr>w_now := t, w_faults := []\<rparr>)))"
  using assms(4)
proof (cases rule: AccessToken_cases)
  case (failed e)
  then show ?thesis by simp
next
  case (stored ch enc a)
  then show ?thesis by auto
next
  case (refreshed ch x enc refresh tok)
  note k = New_key[OF assms(1)]
  let ?row = "with_tokens (Encrypt key n1 (tk_access tok)) (Encrypt key n2 (tk_refresh tok))
                (unixepoch later + tk_expires_in tok) ch"
  have again: "AccessToken c http' key m1 m2 later' cid (w1\<lparr>w_now := t, w_faults := []\<rparr>)
      = (Inr (tk_access tok), w1\<lparr>w_now := t, w_faults := []\<rparr>)"
    if "far_from (unixepoch later + tk_expires_in tok) t" for t http' m1 m2 later'
    using AccessToken_fresh[of cid "w1\<lparr>w_now := t, w_faults := []\<rparr>" ?row "Encrypt key n1 (tk_access tok)"] refreshed(8) that
      Decrypt_Encrypt[OF k assms(2)]
    by (simp add: with_tokens_def far_from_def refreshSkew_def decrypted_def still_valid_def)
  have dec: "map_option (Decrypt key) (ch_refresh ?row) = Some (Inr (tk_refresh tok))"
    using Decrypt_Encrypt[OF k assms(3)] by (simp add: with_tokens_def)
  show ?thesis
    unfolding refreshed(1) sum.case
    by (intro disjI2 exI[of _ ch] exI[of _ enc] exI[of _ refresh] exI[of _ tok] exI[of _ ?row] conjI allI impI refl refreshed(2,5,6,7,8) dec again)
      (simp add: still_valid_def refreshSkew_def refreshed(3,4) not_less)
qed

text \<open>A channel whose token has expired, and an API that answers a refresh.\<close>

definition sample_channel_db :: "string \<Rightarrow> db" where
  "sample_channel_db refresh =
     empty_db\<lparr>db_users := [\<lparr>u_id = 1, u_chzzk_id = ''c'', u_nickname = ''n'', u_preferred = None, u_created = 0\<rparr>],
       db_channels := [\<lparr>ch_id = 1, ch_user = 1, ch_chzzk_id = ''c'', ch_access = Some '''', ch_refresh = Some refresh,
                        ch_expires = Some 0, ch_created = 0\<rparr>]\<rparr>"

definition sample_api :: api_http where
  \<open>sample_api rq = NetAnswer 200 ''{"content":{"accessToken":"A","refreshToken":"R","expiresIn":"3600"}}''\<close>

lemma sample_token:
  assumes "cl_token_url c = TokenURL"
  shows "request_token c sample_api b = Inr \<lparr>tk_access = ''A'', tk_refresh = ''R'', tk_expires_in = 3600\<rparr>"
proof -
  have "url_parse TokenURL \<noteq> None" by (rule api_urls_parse)
  moreover have "decodeContent token_fields \<lparr>to_access = '''', to_refresh = '''', to_expires = ''''\<rparr>
      (take response_limit (case sample_api undefined of NetAnswer s b \<Rightarrow> b)) = Inr \<lparr>to_access = ''A'', to_refresh = ''R'', to_expires = ''3600''\<rparr>"
    unfolding sample_api_def api_answer.case by code_simp
  moreover have "parse_int64 ''3600'' = Some 3600" by code_simp
  ultimately show ?thesis
    by (simp add: request_token_def do_request_def send_request_def sample_api_def assms)
qed

lemma sample_refresh:
  "cl_token_url c = TokenURL \<Longrightarrow> Refresh c sample_api r = Inr \<lparr>tk_access = ''A'', tk_refresh = ''R'', tk_expires_in = 3600\<rparr>"
  by (simp add: Refresh_def sample_token)

theorem AccessToken_outcome_witness:
  "\<exists>w1. AccessToken (new_client ''i'' ''s'' ''u'') sample_api (sha256 (octets ''k'')) (replicate 12 1) (replicate 12 2) 0 ''c''
        \<lparr>w_db = sample_channel_db (Encrypt (sha256 (octets ''k'')) (replicate 12 0) ''old''), w_now = 0, w_faults = []\<rparr>
      = (Inr ''A'', w1)
    \<and> AccessToken (new_client ''i'' ''s'' ''u'') net_timeout (sha256 (octets ''k'')) [] [] 0 ''c'' (w1\<lparr>w_now := 0, w_faults := []\<rparr>)
      = (Inr ''A'', w1\<lparr>w_now := 0, w_faults := []\<rparr>)"
proof -
  let ?key = "sha256 (octets ''k'')"
  let ?c = "new_client ''i'' ''s'' ''u''"
  let ?w = "\<lparr>w_db = sample_channel_db (Encrypt ?key (replicate 12 0) ''old''), w_now = 0, w_faults = []\<rparr>"
  have key: "New ''k'' = Inr ?key" by (simp add: New_def)
  have d: "Decrypt ?key (Encrypt ?key (replicate 12 0) ''old'') = Inr ''old''" by (simp add: Decrypt_Encrypt)
  obtain r w1 where a: "AccessToken ?c sample_api ?key (replicate 12 1) (replicate 12 2) 0 ''c'' ?w = (r, w1)" by fastforce
  then have r: "r = Inr ''A''"
    by (simp add: AccessToken_def run_stmt_def GetChannelByChzzkID_def one_def sample_channel_db_def still_valid_def
        refreshSkew_def unixepoch_def d sample_refresh new_client_def WriteTx_def Let_def UpdateChannelTokens_def) 
  have "map ch_expires (db_channels (w_db w1)) = [Some 3600]"
    using a by (auto simp: AccessToken_def run_stmt_def GetChannelByChzzkID_def one_def sample_channel_db_def still_valid_def
        refreshSkew_def unixepoch_def d sample_refresh new_client_def WriteTx_def Let_def UpdateChannelTokens_def update_where_def)
  moreover have "map ch_expires (db_channels (w_db ?w)) = [Some 0]" by (simp add: sample_channel_db_def)
  ultimately have "w_db w1 \<noteq> w_db ?w" by auto
  with AccessToken_outcome[OF key _ _ a] r obtain tok where
    tok: "Refresh ?c sample_api refresh = Inr tok \<Longrightarrow> True"
    "\<forall>t http' m1 m2 later'. far_from (unixepoch 0 + 3600) t \<longrightarrow>
       AccessToken ?c http' ?key m1 m2 later' ''c'' (w1\<lparr>w_now := t, w_faults := []\<rparr>) = (Inr ''A'', w1\<lparr>w_now := t, w_faults := []\<rparr>)"
    by (auto simp: sample_refresh new_client_def)
  have "far_from (unixepoch 0 + 3600) 0" by (simp add: far_from_def unixepoch_def refreshSkew_def)
  with tok(2) a r show ?thesis by blast
qed

end
