(* ===== verification/Chat.thy ===== *)
theory Chat
  imports Hub Url JsonOut "HOL-Library.List_Lexorder" "HOL-Library.Char_ord"
begin

text \<open>
  \<open>internal/realtime/chat.go\<close>: a CHAT payload, decoded as Go decodes JSON into \<open>map[string]any\<close>,
  normalised into a message. Numbers are the doubles their literals denote.
\<close>

section \<open>Shortest decimals\<close>

text \<open>
  The shortest digits that read back as the double (\<open>strconv\<close>'s shortest format): digits \<open>ds\<close> and the
  position \<open>dp\<close> of the decimal point, the value being \<open>0.ds * 10 ^ dp\<close>. Of two candidates of the same
  length the one nearer to the value is taken; 17 digits always suffice.
\<close>

definition pow10 :: "int \<Rightarrow> rat" where
  "pow10 e = (if 0 \<le> e then 10 ^ nat e else 1 / 10 ^ nat (- e))"

text \<open>The least \<open>dp\<close> with the value below \<open>10 ^ dp\<close>, by a search from a bound.\<close>

fun find_dp :: "nat \<Rightarrow> int \<Rightarrow> rat \<Rightarrow> int" where
  "find_dp 0 dp a = dp"
| "find_dp (Suc n) dp a = (if a < pow10 (dp - 1) then find_dp n (dp - 1) a else dp)"

definition decimal_candidate :: "rat \<Rightarrow> int \<Rightarrow> nat \<Rightarrow> int option" where
  "decimal_candidate a dp n =
     (let u = pow10 (dp - int n); lo = \<lfloor>a / u\<rfloor>; hi = lo + 1;
          ok = (\<lambda>d. f64_round (of_int d * u) = Some a);
          near = (if a / u - of_int lo < of_int hi - a / u \<or> (a / u - of_int lo = of_int hi - a / u \<and> even lo) then lo else hi);
          far = (if near = lo then hi else lo)
      in if ok near then Some near else if ok far then Some far else None)"

fun search_digits :: "nat \<Rightarrow> nat \<Rightarrow> rat \<Rightarrow> int \<Rightarrow> int \<times> nat" where
  "search_digits 0 n a dp = (\<lfloor>a / pow10 (dp - int n)\<rfloor>, n)"
| "search_digits (Suc k) n a dp =
     (case decimal_candidate a dp n of Some d \<Rightarrow> (d, n) | None \<Rightarrow> search_digits k (Suc n) a dp)"

definition shortest_digits :: "rat \<Rightarrow> string \<times> int" where
  "shortest_digits a =
     (let dp = find_dp 700 310 a; (d, n) = search_digits 17 1 a dp;
          ds = nat_str (nat d);
          dp' = dp + (int (length ds) - int n);
          trimmed = rev (dropWhile (\<lambda>c. c = CHR ''0'') (rev ds))
      in (trimmed, dp'))"

text \<open>\<open>FormatFloat(v, 'f', -1, 64)\<close>.\<close>

definition format_f :: "rat \<Rightarrow> string" where
  "format_f v =
     (if v = 0 then ''0''
      else let (ds, dp) = shortest_digits \<bar>v\<bar>;
               body = (if dp \<le> 0 then ''0.'' @ replicate (nat (- dp)) CHR ''0'' @ ds
                       else if int (length ds) \<le> dp then ds @ replicate (nat dp - length ds) CHR ''0''
                       else take (nat dp) ds @ ''.'' @ drop (nat dp) ds)
           in (if v < 0 then ''-'' else '''') @ body)"

text \<open>\<open>%v\<close> of a float64, which is \<open>%g\<close>: \<open>%e\<close> when the exponent is below -4 or at least 6.\<close>

definition format_v :: "rat \<Rightarrow> string" where
  "format_v v =
     (if v = 0 then ''0''
      else let (ds, dp) = shortest_digits \<bar>v\<bar>; e = dp - 1 in
        if e < - 4 \<or> 6 \<le> e then
          (if v < 0 then ''-'' else '''') @ take 1 ds @ (if length ds = 1 then '''' else ''.'' @ drop 1 ds) @ ''e''
            @ (if e < 0 then ''-'' else ''+'') @ (if \<bar>e\<bar> < 10 then ''0'' else '''') @ nat_str (nat \<bar>e\<bar>)
        else format_f v)"

section \<open>Decoded values\<close>

text \<open>A Go map from a JSON object: the last of equal keys counts.\<close>

definition to_map :: "(string \<times> json) list \<Rightarrow> (string \<times> json) list" where
  "to_map ms = fold (\<lambda>(k, v) m. AList.update k v m) ms []"

definition get_any :: "(string \<times> json) list \<Rightarrow> string \<Rightarrow> json" where
  "get_any m k = (case map_of m k of None \<Rightarrow> JNull | Some v \<Rightarrow> v)"

text \<open>\<open>v.(map[string]any)\<close> with the zero map when it is none.\<close>

definition as_map :: "json \<Rightarrow> (string \<times> json) list" where
  "as_map v = (case v of JObj ms \<Rightarrow> to_map ms | _ \<Rightarrow> [])"

definition float_of :: "string \<Rightarrow> rat" where
  "float_of l = (case parse_f64 l of None \<Rightarrow> 0 | Some x \<Rightarrow> x)"

section \<open>fmt.Sprint of decoded values\<close>

fun words :: "string list \<Rightarrow> string" where
  "words [] = ''''"
| "words [w] = w"
| "words (w # ws) = w @ '' '' @ words ws"

text \<open>Maps are printed with their keys in order.\<close>

fun sprint_any :: "json \<Rightarrow> string" where
  "sprint_any JNull = ''<nil>''"
| "sprint_any (JBool b) = (if b then ''true'' else ''false'')"
| "sprint_any (JNum l) = format_v (float_of l)"
| "sprint_any (JStr s) = s"
| "sprint_any (JArr xs) = ''['' @ words (map sprint_any xs) @ '']''"
| "sprint_any (JObj ms) = ''map['' @ words (map (\<lambda>(k, s). k @ '':'' @ s)
     (sort_key fst (fold (\<lambda>(k, s) m. AList.update k s m) (map (\<lambda>(k, v). (k, sprint_any v)) ms) []))) @ '']''"

section \<open>The message\<close>

definition str_of :: "json \<Rightarrow> string" where
  "str_of v =
     (case v of
        JNull \<Rightarrow> ''''
      | JStr s \<Rightarrow> s
      | JBool b \<Rightarrow> if \<not> b then '''' else ''True''
      | JNum l \<Rightarrow> if float_of l = 0 then '''' else format_f (float_of l)
      | _ \<Rightarrow> sprint_any v)"

definition or_else :: "string \<Rightarrow> string \<Rightarrow> string" where
  "or_else a b = (if a \<noteq> '''' then a else b)"

text \<open>
  \<open>n, _ := ParseInt(...)\<close>: on a number out of range the nearest bound, on any other error 0. A double is
  truncated; one out of range of int64 gives the minimum, as on amd64.
\<close>

definition parse_int_lossy :: "string \<Rightarrow> int" where
  "parse_int_lossy s =
     (let (neg, ds) = (case s of [] \<Rightarrow> (False, [])
                       | c # r \<Rightarrow> if c = CHR ''+'' then (False, r) else if c = CHR ''-'' then (True, r) else (False, s)) in
      if ds = [] \<or> \<not> list_all digit ds then 0
      else max min_int64 (min max_int64 (if neg then - int (digits_value ds) else int (digits_value ds))))"

definition float_to_int64 :: "rat \<Rightarrow> int" where
  "float_to_int64 v = (let n = (if 0 \<le> v then \<lfloor>v\<rfloor> else \<lceil>v\<rceil>) in
     if min_int64 \<le> n \<and> n \<le> max_int64 then n else min_int64)"

definition toInt64 :: "json \<Rightarrow> int" where
  "toInt64 v = (case v of JNum l \<Rightarrow> float_to_int64 (float_of l) | JStr s \<Rightarrow> parse_int_lossy s | _ \<Rightarrow> 0)"

text \<open>
  \<open>strings.ToLower\<close>, exact on ASCII: beside the ASCII letters, two runes have an ASCII lower case, the
  dotted I (U+0130, bytes C4 B0) and the Kelvin sign (U+212A, bytes E2 84 AA); the others stay outside
  ASCII, where no suffix tested here looks.
\<close>

fun go_to_lower :: "string \<Rightarrow> string" where
  "go_to_lower [] = []"
| "go_to_lower (c # s) =
     (if c = CHR 0xC4 \<and> take 1 s = [CHR 0xB0] then CHR ''i'' # go_to_lower (drop 1 s)
      else if c = CHR 0xE2 \<and> take 2 s = [CHR 0x84, CHR 0xAA] then CHR ''k'' # go_to_lower (drop 2 s)
      else lower_char c # go_to_lower s)"

definition naver_host :: "string \<Rightarrow> bool" where
  "naver_host h \<longleftrightarrow> suffix ''.pstatic.net'' (go_to_lower h) \<or> suffix ''.naver.net'' (go_to_lower h)"

definition isNaverImage :: "string \<Rightarrow> bool" where
  "isNaverImage raw =
     (case url_parse raw of None \<Rightarrow> False
      | Some u \<Rightarrow> url_scheme u = ''https'' \<and> url_user u = None \<and> naver_host (url_hostname u))"

definition naver_emojis :: "(string \<times> json) list \<Rightarrow> (string \<times> string) list" where
  "naver_emojis raw =
     concat (map (\<lambda>(k, v). case v of JStr s \<Rightarrow> if isNaverImage s then [(k, s)] else [] | _ \<Rightarrow> []) raw)"

definition ExtractChat :: "(string \<times> json) list \<Rightarrow> string \<Rightarrow> chat_message" where
  "ExtractChat p channelID =
     (let profile = as_map (get_any p ''profile'') in
      \<lparr>cm_channel = or_else (str_of (get_any p ''channelId'')) channelID,
       cm_sender = or_else (str_of (get_any profile ''senderChannelId'')) (str_of (get_any p ''senderChannelId'')),
       cm_nickname = or_else (str_of (get_any profile ''nickname'')) (str_of (get_any p ''nickname'')),
       cm_content = str_of (get_any p ''content''),
       cm_time = toInt64 (get_any p ''messageTime''),
       cm_emojis = Some (naver_emojis (as_map (get_any p ''emojis'')))\<rparr>)"

section \<open>Where emoji images may come from\<close>

text \<open>A name on one of the two domains in ASCII.\<close>

definition naver_name :: "string \<Rightarrow> bool" where
  "naver_name h \<longleftrightarrow> suffix ''.pstatic.net'' (map lower_char h) \<or> suffix ''.naver.net'' (map lower_char h)"

lemma go_to_lower_ascii: "\<forall>c\<in>set s. byte c < 128 \<Longrightarrow> go_to_lower s = map lower_char s"
  by (induction s rule: go_to_lower.induct) (auto simp: byte_def)

text \<open>The authority of an accepted URL, when it is plain ASCII and no IPv6 literal.\<close>

lemma naver_authority:
  assumes "parse_host a = Some (url_host u)" "naver_host (url_hostname u)" "plain_ascii a" "CHR ''['' \<notin> set a"
  shows "\<exists>name port. a = name @ port \<and> naver_name name \<and> valid_optional_port port"
proof -
  have un: "url_unescape InHost a = Some (url_host u)" by (rule parse_host_plain[OF assms(1,4)])
  then have ha: "url_host u = a" by (rule unescape_host_plain[OF _ assms(3)])
  obtain hn port where h: "url_host u = hn @ port" "valid_optional_port port"
    "url_hostname u = (if hn \<noteq> [] \<and> hd hn = CHR ''['' \<and> last hn = CHR '']'' then butlast (tl hn) else hn)"
    by (rule url_hostname_cases)
  have "\<not> (hn \<noteq> [] \<and> hd hn = CHR ''['')" using assms(4) h(1) unfolding ha by (cases hn) auto
  then have "naver_host hn" using assms(2) h(3) by auto
  moreover have "\<forall>c\<in>set hn. byte c < 128" using assms(3) h(1) ha by (auto simp: plain_ascii_def)
  ultimately have "naver_name hn" by (simp add: naver_host_def naver_name_def go_to_lower_ascii)
  then show ?thesis using h ha by blast
qed

lemma isNaverImage_text:
  assumes "isNaverImage s"
  shows "\<exists>sch a r. s = sch @ ''://'' @ a @ r \<and> map lower_char sch = ''https'' \<and> (r = [] \<or> hd r \<in> set ''/?#'')
     \<and> set a \<inter> (set ''/?#@'' \<union> {CHR 0x5C}) = {}
     \<and> (plain_ascii a \<and> CHR ''['' \<notin> set a \<longrightarrow>
          (\<exists>name port. a = name @ port \<and> naver_name name \<and> valid_optional_port port))"
proof -
  obtain u where u: "url_parse s = Some u" "url_scheme u = ''https''" "url_user u = None" "naver_host (url_hostname u)"
    using assms by (auto simp: isNaverImage_def split: option.splits)
  have "url_host u \<noteq> ''''" using u(4) by (auto simp: url_hostname_def last_index_byte_None naver_host_def)
  moreover have "url_scheme u \<noteq> ''''" using u(2) by simp
  ultimately obtain sch a r where p0: "s = sch @ ''://'' @ a @ r" "map lower_char sch = url_scheme u"
    "r = [] \<or> hd r \<in> set ''/?#''" "set a \<inter> set ''/?#'' = {}" "parse_authority a = Some (url_user u, url_host u)"
    using url_parse_authority[OF u(1)] by blast
  note p = p0[unfolded u(2,3)]
  have at: "CHR ''@'' \<notin> set a" "parse_host a = Some (url_host u)"
    using parse_authority_no_user[OF p(5)] by blast+
  have "CHR 0x5C \<notin> set a" by (rule parse_host_no_backslash[OF at(2)])
  then have "set a \<inter> (set ''/?#@'' \<union> {CHR 0x5C}) = {}" using p(4) at(1) by auto
  moreover have "plain_ascii a \<and> CHR ''['' \<notin> set a \<longrightarrow>
      (\<exists>name port. a = name @ port \<and> naver_name name \<and> valid_optional_port port)"
    using naver_authority[OF at(2) u(4)] by blast
  ultimately show ?thesis using p(1-3)
    by (intro exI[of _ sch] exI[of _ a] exI[of _ r] conjI)
qed


definition sample_payload :: "(string \<times> json) list" where
  "sample_payload = [(''content'', JStr ''hi''),
     (''emojis'', JObj [(''a'', JStr ''https://x.pstatic.net/e.png''), (''b'', JStr ''https://evil.example/e.png'')])]"



end
