(* ===== verification/Eio3.thy ===== *)
theory Eio3
  imports Chat Chzzk
begin

text \<open>
  \<open>internal/chzzk/eio3/eio3.go\<close>: the receive-only Socket.IO v2 client. The endpoint made of a session
  URL, the packets, the handshake of \<open>Dial\<close> as a fold over the frames the server sends, and the loop of
  \<open>Run\<close> as a state machine whose steps carry the time at which they happen.
\<close>

section \<open>The endpoint\<close>

datatype eio_error =
    BadSessionURL
  | UnsupportedScheme string
  | DialFailed string
  | ReadingOpenPacket
  | ExpectedOpenPacket string
  | BadOpenPacket
  | MissingPingSettings
  | WaitingForConnect
  | ConnectError string
  | UnexpectedFrame string

definition ws_scheme :: "string \<Rightarrow> string option" where
  "ws_scheme s =
     (if s = ''https'' \<or> s = ''wss'' then Some ''wss''
      else if s = ''http'' \<or> s = ''ws'' then Some ''ws'' else None)"

definition SocketURL :: "string \<Rightarrow> eio_error + string" where
  "SocketURL sessionURL =
     (case url_parse sessionURL of
        None \<Rightarrow> Inl BadSessionURL
      | Some u \<Rightarrow>
          (case ws_scheme (url_scheme u) of
             None \<Rightarrow> Inl (UnsupportedScheme (url_scheme u))
           | Some s \<Rightarrow>
               let q = url_query u; q1 = (if q \<noteq> '''' then q @ ''&'' else q) in
               Inr (url_string (u\<lparr>url_scheme := s, url_path := ''/socket.io/'',
                      url_query := q1 @ ''transport=websocket&EIO=3'', url_fragment := ''''\<rparr>))))"

section \<open>Packets\<close>

record event =
  ev_name :: string
  ev_args :: "string list"

text \<open>
  The raw texts of the elements of an array, as \<open>[]json.RawMessage\<close> keeps them; the text has been checked
  to be JSON.
\<close>

fun raw_elems :: "nat \<Rightarrow> string \<Rightarrow> string list" where
  "raw_elems 0 s = []"
| "raw_elems (Suc n) s =
     (case parse_value 10000 (2 * length s + 2) s of None \<Rightarrow> []
      | Some (v, t) \<Rightarrow>
        take (length s - length t) s #
        (case skip_ws t of [] \<Rightarrow> []
         | c # r \<Rightarrow> if c = CHR '','' then raw_elems n (skip_ws r) else []))"

definition unmarshal_raws :: "string \<Rightarrow> string list option" where
  "unmarshal_raws s =
     (case json_parse s of
        Some JNull \<Rightarrow> Some []
      | Some (JArr []) \<Rightarrow> Some []
      | Some (JArr (x # xs)) \<Rightarrow> Some (raw_elems (length s) (skip_ws (drop 1 (skip_ws s))))
      | _ \<Rightarrow> None)"

definition unmarshal_string :: "string \<Rightarrow> string option" where
  "unmarshal_string s =
     (case json_parse s of Some JNull \<Rightarrow> Some '''' | Some (JStr x) \<Rightarrow> Some x | _ \<Rightarrow> None)"

text \<open>The namespace of a packet and what follows it; None when it is not the default one.\<close>

definition packet_data :: "string \<Rightarrow> string option" where
  "packet_data rest =
     (if prefix ''/'' rest then
        (let (nsp, data) = (case cut CHR '','' rest of (a, None) \<Rightarrow> (a, '''') | (a, Some b) \<Rightarrow> (a, b))
         in if fst (cut CHR ''?'' nsp) \<noteq> ''/'' then None else Some data)
      else Some rest)"

datatype packet = Ignored | Disconnected | Delivered event

definition parseSocketPacket :: "string \<Rightarrow> packet" where
  "parseSocketPacket p =
     (case p of [] \<Rightarrow> Ignored
      | typ # rest0 \<Rightarrow>
        (case packet_data rest0 of None \<Rightarrow> Ignored
         | Some rest \<Rightarrow>
           if typ = CHR ''1'' then Disconnected
           else if typ = CHR ''4'' then
             Delivered \<lparr>ev_name = ''error'', ev_args = [if json_parse rest \<noteq> None then rest else json_quote rest]\<rparr>
           else if typ \<noteq> CHR ''2'' then Ignored
           else
             (case unmarshal_raws (dropWhile digit rest) of
                Some (a # args) \<Rightarrow>
                  (case unmarshal_string a of None \<Rightarrow> Ignored
                   | Some name \<Rightarrow> Delivered \<lparr>ev_name = name, ev_args = args\<rparr>)
              | _ \<Rightarrow> Ignored)))"

text \<open>A number out of range of float64 anywhere makes the decoding fail.\<close>

fun floats_ok :: "json \<Rightarrow> bool" where
  "floats_ok (JNum l) = (parse_f64 l \<noteq> None)"
| "floats_ok (JArr xs) = list_all floats_ok xs"
| "floats_ok (JObj ms) = list_all (\<lambda>(k, ok). ok) (map (\<lambda>(k, v). (k, floats_ok v)) ms)"
| "floats_ok j = True"

definition DecodeArg :: "string \<Rightarrow> (string \<times> json) list" where
  "DecodeArg arg =
     (let arg1 = (case unmarshal_string arg of Some s \<Rightarrow> s | None \<Rightarrow> arg) in
      case json_parse arg1 of
        Some (JObj ms) \<Rightarrow> if floats_ok (JObj ms) then to_map ms else []
      | _ \<Rightarrow> [])"

definition truncate_text :: "string \<Rightarrow> nat \<Rightarrow> string" where
  "truncate_text s n =
     (if length s \<le> n then s
      else take n s @ [CHR 0xE2, CHR 0x80, CHR 0xA6] @ ''('' @ nat_str (length s) @ '' bytes)'')"

section \<open>Redaction\<close>

text \<open>\<open>strings.ReplaceAll\<close> of a non-empty text.\<close>

function replace_all :: "string \<Rightarrow> string \<Rightarrow> string \<Rightarrow> string" where
  "replace_all old new s =
     (if old = [] \<or> s = [] then s
      else if prefix old s then new @ replace_all old new (drop (length old) s)
      else hd s # replace_all old new (tl s))"
  by pat_completeness auto
termination
  by (relation "measure (\<lambda>(old, new, s). length s)") auto

declare replace_all.simps [simp del]

text \<open>\<open>u.Query().Get\<close>: pairs that do not decode or hold a semicolon are left out; the first value counts.\<close>

definition query_pair :: "string \<Rightarrow> (string \<times> string) list" where
  "query_pair p =
     (if p = '''' \<or> CHR '';'' \<in> set p then []
      else let (k, v) = cut CHR ''='' p in
        case (url_unescape InQuery k, url_unescape InQuery (case v of None \<Rightarrow> '''' | Some x \<Rightarrow> x)) of
          (Some a, Some b) \<Rightarrow> [(a, b)] | _ \<Rightarrow> [])"

definition query_get :: "string \<Rightarrow> string \<Rightarrow> string" where
  "query_get q k = get_or_empty (concat (map query_pair (split_on CHR ''&'' q))) k"

definition redactErr :: "string \<Rightarrow> string \<Rightarrow> string" where
  "redactErr msg secretURL =
     (case url_parse secretURL of None \<Rightarrow> msg
      | Some u \<Rightarrow>
          let a = query_get (url_query u) ''auth'' in
          if a \<noteq> '''' then replace_all (QueryEscape a) ''REDACTED'' (replace_all a ''REDACTED'' msg) else msg)"

section \<open>Dial\<close>

record handshake =
  hs_sid :: string
  hs_upgrades :: "string list"
  hs_interval :: int
  hs_timeout :: int

definition as_string_list :: "json \<Rightarrow> string list field_update" where
  "as_string_list v =
     (case v of JNull \<Rightarrow> Put []
      | JArr xs \<Rightarrow>
          if list_all (\<lambda>x. as_string x \<noteq> Misfit) xs
          then Put (map (\<lambda>x. case as_string x of Put s \<Rightarrow> s | _ \<Rightarrow> '''') xs) else Misfit
      | _ \<Rightarrow> Misfit)"

definition handshake_fields :: "handshake field list" where
  "handshake_fields =
     [field ''sid'' as_string (\<lambda>x s. s\<lparr>hs_sid := x\<rparr>),
      field ''upgrades'' as_string_list (\<lambda>x s. s\<lparr>hs_upgrades := x\<rparr>),
      field ''pingInterval'' as_int64 (\<lambda>x s. s\<lparr>hs_interval := x\<rparr>),
      field ''pingTimeout'' as_int64 (\<lambda>x s. s\<lparr>hs_timeout := x\<rparr>)]"

text \<open>
  What the websocket yields to successive calls of \<open>Read\<close>: a text message, a binary one, or an error,
  after which it yields nothing (a message over the read limit and the end of the context are errors).
\<close>

datatype ws_read = Text string | Binary | ReadFailed

fun read_text :: "ws_read list \<Rightarrow> (string \<times> ws_read list) option" where
  "read_text [] = None"
| "read_text (Text s # rs) = Some (s, rs)"
| "read_text (Binary # rs) = read_text rs"
| "read_text (ReadFailed # rs) = None"

text \<open>The loop that waits for the namespace: the frames written, and what came of it.\<close>

fun await_connect :: "ws_read list \<Rightarrow> string list \<times> (eio_error + ws_read list)" where
  "await_connect [] = ([], Inl WaitingForConnect)"
| "await_connect (ReadFailed # rs) = ([], Inl WaitingForConnect)"
| "await_connect (Binary # rs) = await_connect rs"
| "await_connect (Text f # rs) =
     (if f = ''40'' \<or> prefix ''40{'' f then ([], Inr rs)
      else if prefix ''44'' f then ([], Inl (ConnectError (truncate_text (drop 2 f) 200)))
      else if f \<noteq> '''' \<and> hd f = CHR ''2'' then
        (let (sent, r) = await_connect rs in ((CHR ''3'' # tl f) # sent, r))
      else if f \<noteq> '''' \<and> hd f = CHR ''6'' then await_connect rs
      else ([], Inl (UnexpectedFrame (truncate_text f 64))))"

definition open_packet :: "string \<Rightarrow> eio_error + handshake" where
  "open_packet frame =
     (if frame = '''' \<or> hd frame \<noteq> CHR ''0'' then Inl (ExpectedOpenPacket (truncate_text frame 64))
      else (case unmarshal handshake_fields \<lparr>hs_sid = '''', hs_upgrades = [], hs_interval = 0, hs_timeout = 0\<rparr> (tl frame) of
              None \<Rightarrow> Inl BadOpenPacket
            | Some h \<Rightarrow> if hs_interval h \<le> 0 \<or> hs_timeout h \<le> 0 then Inl MissingPingSettings else Inr h))"

text \<open>\<open>websocket.Dial\<close> is an argument: the text of its error, or the messages to come.\<close>

definition Dial :: "(string \<Rightarrow> string + ws_read list) \<Rightarrow> string \<Rightarrow> string list \<times> (eio_error + handshake \<times> ws_read list)" where
  "Dial ws_dial sessionURL =
     (case SocketURL sessionURL of
        Inl e \<Rightarrow> ([], Inl e)
      | Inr wsURL \<Rightarrow>
          (case ws_dial wsURL of
             Inl msg \<Rightarrow> ([], Inl (DialFailed (redactErr msg wsURL)))
           | Inr reads \<Rightarrow>
               (case read_text reads of
                  None \<Rightarrow> ([], Inl ReadingOpenPacket)
                | Some (frame, rs) \<Rightarrow>
                    (case open_packet frame of
                       Inl e \<Rightarrow> ([], Inl e)
                     | Inr h \<Rightarrow>
                         (case await_connect rs of
                            (sent, Inl e) \<Rightarrow> (sent, Inl e)
                          | (sent, Inr rest) \<Rightarrow> (sent, Inr (h, rest)))))))"

section \<open>Run\<close>

text \<open>Durations are int64 nanoseconds, and wrap.\<close>

definition wrap64 :: "int \<Rightarrow> int" where
  "wrap64 n = (n + 2 ^ 63) mod 2 ^ 64 - 2 ^ 63"

definition milliseconds :: "int \<Rightarrow> int" where
  "milliseconds n = wrap64 (n * 1000000)"

text \<open>A timer set at some time fires after its duration, at once when that is negative.\<close>

definition fires_at :: "int \<Rightarrow> int \<Rightarrow> int" where
  "fires_at now d = now + max 0 d"

record run_state =
  rs_ping :: "int option"
  rs_deadline :: int

datatype run_error = ContextEnded | ReadError | WriteError | ErrServerClosed | ErrHeartbeatTimeout

text \<open>
  What the \<open>select\<close> of the loop can take: the end of the context; a read error, with the context ended by
  then or not; the deadline; the ping timer, with the fate of the write; a frame.
\<close>

datatype run_event = CtxDone | ReadErr bool | DeadlineFires | PingFires bool | Frame string

definition run_start :: "handshake \<Rightarrow> int \<Rightarrow> run_state" where
  "run_start h now =
     (let interval = milliseconds (hs_interval h); timeout = milliseconds (hs_timeout h) in
      \<lparr>rs_ping = Some (fires_at now interval), rs_deadline = fires_at now (wrap64 (interval + timeout))\<rparr>)"

definition on_frame :: "handshake \<Rightarrow> int \<Rightarrow> string \<Rightarrow> run_state \<Rightarrow> run_state \<times> string list \<times> event list \<times> run_error option" where
  "on_frame h now frame st =
     (let interval = milliseconds (hs_interval h); timeout = milliseconds (hs_timeout h);
          st1 = st\<lparr>rs_deadline := fires_at now (wrap64 (interval + timeout))\<rparr> in
      case frame of [] \<Rightarrow> (st1, [], [], None)
      | c # p \<Rightarrow>
          if c = CHR ''3'' then (st1\<lparr>rs_ping := Some (fires_at now interval)\<rparr>, [], [], None)
          else if c = CHR ''2'' then (st1, [CHR ''3'' # p], [], None)
          else if c = CHR ''1'' then (st1, [], [], Some ErrServerClosed)
          else if c = CHR ''4'' then
            (case parseSocketPacket p of
               Disconnected \<Rightarrow> (st1, [], [], Some ErrServerClosed)
             | Delivered ev \<Rightarrow> (st1, [], [ev], None)
             | Ignored \<Rightarrow> (st1, [], [], None))
          else (st1, [], [], None))"

text \<open>One turn: the state, the frames written, the events handed over, and the error \<open>Run\<close> returns.\<close>

fun run_step :: "handshake \<Rightarrow> int \<Rightarrow> run_event \<Rightarrow> run_state \<Rightarrow> run_state \<times> string list \<times> event list \<times> run_error option" where
  "run_step h now CtxDone st = (st, [], [], Some ContextEnded)"
| "run_step h now (ReadErr ended) st = (st, [], [], Some (if ended then ContextEnded else ReadError))"
| "run_step h now DeadlineFires st = (st, [], [], Some ErrHeartbeatTimeout)"
| "run_step h now (PingFires ok) st =
     (if \<not> ok then (st\<lparr>rs_ping := None\<rparr>, [''2''], [], Some WriteError)
      else (st\<lparr>rs_ping := None, rs_deadline := fires_at now (milliseconds (hs_timeout h))\<rparr>, [''2''], [], None))"
| "run_step h now (Frame frame) st = on_frame h now frame st"

text \<open>Which of the cases can be taken at a time.\<close>

fun run_ready :: "int \<Rightarrow> run_state \<Rightarrow> run_event \<Rightarrow> bool" where
  "run_ready now st DeadlineFires \<longleftrightarrow> rs_deadline st \<le> now"
| "run_ready now st (PingFires ok) \<longleftrightarrow> (case rs_ping st of None \<Rightarrow> False | Some a \<Rightarrow> a \<le> now)"
| "run_ready now st e \<longleftrightarrow> True"

text \<open>
  The turns of a session so far, the time, and the state: time passes between turns, but never beyond a
  timer that is due, which is then served (the loop is idle between turns).
\<close>

definition prompt :: "int \<Rightarrow> run_state \<Rightarrow> bool" where
  "prompt now st \<longleftrightarrow> now \<le> rs_deadline st \<and> (\<forall>a. rs_ping st = Some a \<longrightarrow> now \<le> a)"

inductive session_trace :: "handshake \<Rightarrow> int \<Rightarrow> (int \<times> run_event) list \<Rightarrow> int \<Rightarrow> run_state \<Rightarrow> bool" for h start where
  begin_session: "session_trace h start [] start (run_start h start)"
| turn: "session_trace h start evs now st \<Longrightarrow> now \<le> t \<Longrightarrow> prompt t st \<Longrightarrow> run_ready t st e \<Longrightarrow>
    run_step h t e st = (st', sent, handed, None) \<Longrightarrow> session_trace h start (evs @ [(t, e)]) t st'"

text \<open>When the client last heard from the server, the start of the session included.\<close>

definition last_heard :: "int \<Rightarrow> (int \<times> run_event) list \<Rightarrow> int" where
  "last_heard start evs =
     fold (\<lambda>(t, e) l. case e of Frame f \<Rightarrow> t | _ \<Rightarrow> l) evs start"

text \<open>The settings of the handshake are positive and their sum fits into a duration.\<close>

definition sane :: "handshake \<Rightarrow> bool" where
  "sane h \<longleftrightarrow> 0 < hs_interval h \<and> 0 < hs_timeout h \<and> (hs_interval h + hs_timeout h) * 1000000 < 2 ^ 63"

definition interval_ns :: "handshake \<Rightarrow> int" where "interval_ns h = hs_interval h * 1000000"
definition timeout_ns :: "handshake \<Rightarrow> int" where "timeout_ns h = hs_timeout h * 1000000"

lemma wrap64_id: "0 \<le> n \<Longrightarrow> n < 2 ^ 63 \<Longrightarrow> wrap64 n = n"
  by (simp add: wrap64_def)

lemma sane_durations:
  assumes "sane h"
  shows "milliseconds (hs_interval h) = interval_ns h" "milliseconds (hs_timeout h) = timeout_ns h"
    "wrap64 (interval_ns h + timeout_ns h) = interval_ns h + timeout_ns h"
    "0 < interval_ns h" "0 < timeout_ns h"
  using assms unfolding sane_def milliseconds_def interval_ns_def timeout_ns_def
  by (auto intro!: wrap64_id simp: algebra_simps)

lemma last_heard_snoc:
  "last_heard start (evs @ [(t, e)]) = (case e of Frame f \<Rightarrow> t | _ \<Rightarrow> last_heard start evs)"
  by (simp add: last_heard_def split: run_event.split)

text \<open>What the deadline and the ping timer are, in terms of what was heard and when.\<close>

definition heartbeat_inv :: "handshake \<Rightarrow> int \<Rightarrow> (int \<times> run_event) list \<Rightarrow> int \<Rightarrow> run_state \<Rightarrow> bool" where
  "heartbeat_inv h start evs now st \<longleftrightarrow>
     (let l = last_heard start evs in
      l \<le> now \<and> l + timeout_ns h \<le> rs_deadline st \<and> rs_deadline st \<le> l + interval_ns h + timeout_ns h
      \<and> (\<forall>a. rs_ping st = Some a \<longrightarrow> a \<le> l + interval_ns h))"

lemma on_frame_timers:
  assumes "on_frame h t f st = (st', sent, handed, r)" "sane h"
  shows "rs_deadline st' = t + interval_ns h + timeout_ns h" "rs_ping st' \<in> {rs_ping st, Some (t + interval_ns h)}"
  using assms(1) sane_durations[OF assms(2)]
  by (auto simp: on_frame_def Let_def fires_at_def split: list.splits if_splits packet.splits)

lemma heartbeat_holds:
  assumes "session_trace h start evs now st" "sane h"
  shows "heartbeat_inv h start evs now st"
  using assms(1)
proof induction
  case begin_session
  show ?case using sane_durations[OF assms(2)]
    by (simp add: heartbeat_inv_def last_heard_def run_start_def fires_at_def Let_def)
next
  case (turn evs now st t e st' sent handed)
  note d = sane_durations[OF assms(2)]
  note inv = turn.IH[unfolded heartbeat_inv_def Let_def]
  show ?case
  proof (cases e)
    case (Frame f)
    have s: "on_frame h t f st = (st', sent, handed, None)" using turn Frame by simp
    show ?thesis using on_frame_timers[OF s assms(2)] inv turn.hyps(2) d Frame
      by (auto simp: heartbeat_inv_def last_heard_snoc)
  next
    case (PingFires ok)
    then have "st' = st\<lparr>rs_ping := None, rs_deadline := t + timeout_ns h\<rparr>" "rs_ping st \<noteq> None"
      using turn d by (auto simp: fires_at_def split: if_splits option.splits)
    moreover have "t \<le> last_heard start evs + interval_ns h"
      using turn.hyps(3) inv \<open>rs_ping st \<noteq> None\<close> by (auto simp: prompt_def)
    ultimately show ?thesis using inv turn.hyps(2) PingFires by (auto simp: heartbeat_inv_def last_heard_snoc)
  next
    case DeadlineFires
    then show ?thesis using turn by simp
  next
    case CtxDone
    then show ?thesis using turn by simp
  next
    case (ReadErr b)
    then show ?thesis using turn by simp
  qed
qed

text \<open>
  C29: The heartbeat. As long as timers that are due are served, a session whose settings are sane never
  outlives \<open>pingInterval + pingTimeout\<close> of silence, and it is given up for a timeout only after at least
  \<open>pingTimeout\<close> without a frame: any next turn happens at most that long after the last frame (or the
  start), and a timeout at least \<open>pingTimeout\<close> after it.
\<close>

theorem heartbeat_detection:
  assumes "session_trace h start evs now st" "sane h" "now \<le> t" "prompt t st" "run_ready t st e"
  shows "t \<le> last_heard start evs + interval_ns h + timeout_ns h
    \<and> (e = DeadlineFires \<longrightarrow> last_heard start evs + timeout_ns h \<le> t)
    \<and> (rs_ping st = None \<or> t \<le> last_heard start evs + interval_ns h)"
proof -
  note inv = heartbeat_holds[OF assms(1,2), unfolded heartbeat_inv_def Let_def]
  have "e = DeadlineFires \<longrightarrow> last_heard start evs + timeout_ns h \<le> t" using inv assms(5) by auto
  moreover have "rs_ping st = None \<or> t \<le> last_heard start evs + interval_ns h"
    using inv assms(4) unfolding prompt_def by (cases "rs_ping st") force+
  ultimately show ?thesis using inv assms(4) unfolding prompt_def by auto
qed

text \<open>The settings Chzzk sends; a ping nobody answers.\<close>

definition chzzk_handshake :: handshake where
  "chzzk_handshake = \<lparr>hs_sid = ''x'', hs_upgrades = [], hs_interval = 25000, hs_timeout = 60000\<rparr>"

theorem heartbeat_detection_witness:
  "last_heard 0 [(25000000000, PingFires True)] + timeout_ns chzzk_handshake \<le> 85000000000
   \<and> (85000000000::int) \<le> last_heard 0 [(25000000000, PingFires True)] + interval_ns chzzk_handshake + timeout_ns chzzk_handshake"
proof -
  define st where "st = \<lparr>rs_ping = None, rs_deadline = 85000000000\<rparr>"
  have m: "milliseconds 25000 = 25000000000" "milliseconds 60000 = 60000000000" "wrap64 85000000000 = 85000000000"
    by (simp_all add: milliseconds_def wrap64_def)
  have s: "run_start chzzk_handshake 0 = \<lparr>rs_ping = Some 25000000000, rs_deadline = 85000000000\<rparr>"
    by (simp add: run_start_def chzzk_handshake_def m fires_at_def Let_def)
  have "session_trace chzzk_handshake 0 ([] @ [(25000000000, PingFires True)]) 25000000000 st"
    using begin_session[of chzzk_handshake 0] unfolding s
    by (rule turn) (simp_all add: prompt_def st_def m chzzk_handshake_def fires_at_def)
  moreover have "sane chzzk_handshake" by (simp add: sane_def chzzk_handshake_def)
  ultimately show ?thesis
    using heartbeat_detection[of chzzk_handshake 0 "[(25000000000, PingFires True)]" 25000000000 st 85000000000 DeadlineFires]
    by (simp add: prompt_def st_def)
qed

section \<open>Events on the wire\<close>

lemma raw_elems_print:
  "\<forall>x\<in>set xs. json_ok 10000 x \<Longrightarrow> xs \<noteq> [] \<Longrightarrow> length xs \<le> n \<Longrightarrow>
   raw_elems n (commas (map json_print xs) @ CHR '']'' # rest) = map json_print xs"
proof (induction xs arbitrary: n)
  case (Cons x xs)
  obtain m where n: "n = Suc m" using Cons.prems(3) by (cases n) simp_all
  define r where "r = (if xs = [] then [] else CHR '','' # commas (map json_print xs)) @ CHR '']'' # rest"
  have s: "commas (map json_print (x # xs)) @ CHR '']'' # rest = json_print x @ r"
    by (simp add: r_def commas_Cons)
  have ws: "\<not> json_ws (CHR '','')" "\<not> json_ws (CHR '']'')" by (simp_all add: json_ws_def)
  have "value_end r" by (simp add: r_def value_end_def)
  then have pv: "parse_value 10000 (2 * length (json_print x @ r) + 2) (json_print x @ r) = Some (x, r)"
    using Cons.prems(1) by (intro parse_print) simp_all
  show ?case
  proof (cases xs)
    case Nil
    then have "r = CHR '']'' # rest" by (simp add: r_def)
    then show ?thesis unfolding s n raw_elems.simps pv by (simp add: ws Nil)
  next
    case (Cons y ys)
    obtain c u where c: "json_print y = c # u" "\<not> json_ws c"
      using Cons.prems(1) Cons by (metis json_print_head list.set_intros)
    have r: "r = CHR '','' # commas (map json_print xs) @ CHR '']'' # rest" using Cons by (simp add: r_def)
    have "skip_ws (commas (map json_print xs) @ CHR '']'' # rest) = commas (map json_print xs) @ CHR '']'' # rest"
      using c Cons by (simp add: commas_Cons)
    then show ?thesis unfolding s n raw_elems.simps pv using Cons.prems Cons.IH[of m] n
      by (simp add: r ws Cons)
  qed
qed simp

declare raw_elems.simps [simp del]

text \<open>The text of an EVENT packet after Engine.IO's type: the packet type, an optional id, the array.\<close>

definition event_packet :: "string \<Rightarrow> string \<Rightarrow> json list \<Rightarrow> string" where
  "event_packet ids name args = CHR ''2'' # ids @ json_print (JArr (JStr name # args))"

lemma unmarshal_string_quote: "utf8_ok s \<Longrightarrow> unmarshal_string (json_print (JStr s)) = Some s"
  using json_roundtrip[of "JStr s"] by (simp add: unmarshal_string_def)

lemma parse_event_packet:
  assumes "list_all digit ids" "utf8_ok name" "\<forall>x\<in>set args. json_ok 9999 x"
  shows "parseSocketPacket (event_packet ids name args) = Delivered \<lparr>ev_name = name, ev_args = map json_print args\<rparr>"
proof -
  define j where "j = JArr (JStr name # args)"
  have ok: "json_ok 10000 j" using assms by (simp add: j_def)
  have body: "json_print j = CHR ''['' # commas (map json_print (JStr name # args)) @ '']''" by (simp add: j_def)
  have nd: "\<not> digit (CHR ''['')" by (simp add: digit_def between_def byte_def)
  then have dw: "dropWhile digit (ids @ json_print j) = json_print j"
    using assms(1) unfolding body by (simp add: dropWhile_append3 dropWhile_append list_all_iff)
  have ws: "\<not> json_ws (CHR ''['')" "\<not> json_ws (CHR 0x22)" by (simp_all add: json_ws_def)
  have sk: "skip_ws (commas (map json_print (JStr name # args)) @ '']'') = commas (map json_print (JStr name # args)) @ '']''"
    by (simp add: commas_Cons json_quote_def ws)
  have len: "length (JStr name # args) \<le> length (json_print j)"
  proof -
    have "length ys \<le> length (commas (map json_print ys)) + 1" for ys :: "json list"
      by (induction ys) (auto simp: commas_Cons)
    from this[of "JStr name # args"] show ?thesis unfolding body by simp
  qed
  have el: "\<forall>x\<in>set (JStr name # args). json_ok 10000 x"
    using assms(2,3) json_ok_mono[of 9999 _ 10000] by auto
  have "unmarshal_raws (json_print j) = Some (map json_print (JStr name # args))"
    using json_roundtrip[OF ok] raw_elems_print[OF el _ len, of "[]"] sk
    unfolding unmarshal_raws_def body by (simp add: j_def ws)
  then have raws: "unmarshal_raws (dropWhile digit (ids @ json_print j)) = Some (json_print (JStr name) # map json_print args)"
    using dw by simp
  have pd: "packet_data (ids @ json_print j) = Some (ids @ json_print j)"
  proof -
    have "\<not> digit (CHR ''/'')" by (simp add: digit_def between_def byte_def)
    then have "ids @ json_print j \<noteq> []" "hd (ids @ json_print j) \<noteq> CHR ''/''"
      using assms(1) by (cases ids; force simp: body)+
    then show ?thesis by (cases "ids @ json_print j") (simp_all add: packet_data_def)
  qed
  have "CHR ''2'' \<noteq> CHR ''1''" "CHR ''2'' \<noteq> CHR ''4''" by simp_all
  then show ?thesis unfolding event_packet_def j_def[symmetric] parseSocketPacket_def list.case pd option.case raws
    by (simp add: unmarshal_string_quote[OF assms(2)] del: json_print.simps)
qed

lemma DecodeArg_object:
  assumes "json_ok 10000 (JObj ms)" "floats_ok (JObj ms)" "utf8_ok (json_print (JObj ms))"
  shows "DecodeArg (json_print (JObj ms)) = to_map ms"
    "DecodeArg (json_print (JStr (json_print (JObj ms)))) = to_map ms"
proof -
  have rt: "json_parse (json_print (JObj ms)) = Some (JObj ms)" by (rule json_roundtrip[OF assms(1)])
  then have "unmarshal_string (json_print (JObj ms)) = None" by (simp add: unmarshal_string_def)
  with rt assms(2) show "DecodeArg (json_print (JObj ms)) = to_map ms" by (simp add: DecodeArg_def)
  show "DecodeArg (json_print (JStr (json_print (JObj ms)))) = to_map ms"
    using rt assms(2) by (simp add: DecodeArg_def unmarshal_string_quote[OF assms(3)] del: json_print.simps)
qed

text \<open>
  Events arrive as sent. An EVENT packet of the default namespace, with or without an acknowledgement
  id, is delivered under its name with the texts of its arguments; and an argument that is an object
  decodes to it, whether the server sent it as an object or as a string holding one.
\<close>

theorem event_roundtrip:
  assumes "list_all digit ids" "utf8_ok name" "\<forall>x\<in>set args. json_ok 9999 x"
    and "json_ok 10000 (JObj ms)" "floats_ok (JObj ms)" "utf8_ok (json_print (JObj ms))"
  shows "parseSocketPacket (event_packet ids name args) = Delivered \<lparr>ev_name = name, ev_args = map json_print args\<rparr>
    \<and> (args \<noteq> [] \<and> hd args \<in> {JObj ms, JStr (json_print (JObj ms))} \<longrightarrow> DecodeArg (hd (map json_print args)) = to_map ms)"
proof -
  have "DecodeArg (hd (map json_print args)) = to_map ms"
    if "args \<noteq> []" "hd args \<in> {JObj ms, JStr (json_print (JObj ms))}"
    using DecodeArg_object[OF assms(4-6)] that by (auto simp: hd_map simp del: json_print.simps)
  then show ?thesis using parse_event_packet[OF assms(1-3)] by blast
qed

theorem event_roundtrip_witness:
  "parseSocketPacket (event_packet ''7'' ''CHAT'' [JStr (json_print (JObj [(''content'', JStr ''hi'')]))])
     = Delivered \<lparr>ev_name = ''CHAT'', ev_args = [json_print (JStr (json_print (JObj [(''content'', JStr ''hi'')])))]\<rparr>
   \<and> DecodeArg (json_print (JStr (json_print (JObj [(''content'', JStr ''hi'')])))) = [(''content'', JStr ''hi'')]"
proof -
  define ms where "ms = [(''content'', JStr ''hi'')]"
  have u: "utf8_ok (json_print (JObj ms))" "utf8_ok ''CHAT''" "list_all digit ''7''" unfolding ms_def by code_simp+
  have j: "json_ok 9999 (JStr (json_print (JObj ms)))" "json_ok 10000 (JObj ms)" "floats_ok (JObj ms)"
    using u by (simp_all add: ms_def) code_simp+
  have "to_map ms = ms" by (simp add: ms_def to_map_def)
  then show ?thesis
    using event_roundtrip[of "''7''" "''CHAT''" "[JStr (json_print (JObj ms))]" ms] u j
    by (simp add: ms_def[symmetric] del: json_print.simps)
qed

section \<open>The endpoint keeps host and query\<close>

definition host_text :: "string \<Rightarrow> bool" where
  "host_text h \<longleftrightarrow> h \<noteq> '''' \<and> list_all (\<lambda>c. alnum c \<or> c = CHR ''-'' \<or> c = CHR ''.'') h"

definition query_text :: "string \<Rightarrow> bool" where
  "query_text q \<longleftrightarrow> list_all (\<lambda>c. c \<noteq> CHR ''#'' \<and> \<not> ctl_byte c) q"

definition authority_char :: "char \<Rightarrow> bool" where
  "authority_char c \<longleftrightarrow> alnum c \<or> c = CHR ''-'' \<or> c = CHR ''.'' \<or> c = CHR '':''"

lemma authority_char_facts:
  assumes "authority_char c"
  shows "c \<noteq> CHR ''%''" "c \<noteq> CHR ''/''" "c \<noteq> CHR ''?''" "c \<noteq> CHR ''#''" "c \<noteq> CHR ''@''" "c \<noteq> CHR ''[''"
    "c \<noteq> CHR ''+''" "\<not> should_escape InHost c" "\<not> ctl_byte c"
  using assms by (auto simp: authority_char_def alnum_def digit_def between_def byte_def should_escape_def ctl_byte_def)

lemma unescape_authority: "list_all authority_char a \<Longrightarrow> url_unescape InHost a = Some a"
proof (induction a)
  case (Cons c a)
  then show ?case using authority_char_facts[of c] by (simp add: unescape_lit)
qed simp

lemma escape_authority: "list_all authority_char a \<Longrightarrow> url_escape InHost a = a"
  by (induction a) (auto simp: url_escape_def authority_char_facts)

lemma parse_plain_authority:
  assumes "host_text h" "valid_optional_port p"
  shows "parse_authority (h @ p) = Some (None, h @ p)" "list_all authority_char (h @ p)"
proof -
  have hc: "list_all authority_char h" "CHR '':'' \<notin> set h"
    using assms(1) by (auto simp: host_text_def authority_char_def list_all_iff alnum_def digit_def between_def byte_def)
  have "list_all authority_char p"
    using assms(2) by (cases p) (auto simp: valid_optional_port_def authority_char_def alnum_def list_all_iff)
  with hc show ac: "list_all authority_char (h @ p)" by simp
  then have n: "CHR ''@'' \<notin> set (h @ p)" "CHR ''['' \<notin> set (h @ p)"
    using authority_char_facts(5,6) unfolding list_all_iff by blast+
  have "parse_host (h @ p) = Some (h @ p)"
  proof (cases p)
    case Nil
    then show ?thesis using hc(2) n(2) unescape_authority[OF ac]
      by (simp add: parse_host_def last_index_byte_None index_byte_def)
  next
    case (Cons c ds)
    then have "c = CHR '':''" using assms(2) by (simp add: valid_optional_port_def)
    then have "index_byte CHR '':'' (h @ p) = Some (length h)" using index_byte_append[OF hc(2)] Cons by simp
    then show ?thesis using n(2) unescape_authority[OF ac] assms(2)
      by (simp add: parse_host_def last_index_byte_None)
  qed
  then show "parse_authority (h @ p) = Some (None, h @ p)"
    using n(1) by (simp add: parse_authority_def last_index_byte_None)
qed

lemma schemes:
  assumes "sch \<in> {''https'', ''wss'', ''http'', ''ws''}"
  shows "get_scheme (sch @ CHR '':'' # r) = Some (sch, r)" "map lower_char sch = sch" "list_all (\<lambda>c. \<not> ctl_byte c) sch"
    "CHR ''#'' \<notin> set sch" "sch \<noteq> ''''"
  using assms
  by (auto simp: get_scheme_def letter_def digit_def between_def byte_def lower_char_def ctl_byte_def)

lemma url_parse_plain:
  assumes "sch \<in> {''https'', ''wss'', ''http'', ''ws''}" "host_text h" "valid_optional_port p" "query_text q"
  shows "url_parse (sch @ ''://'' @ h @ p @ ''?'' @ q) = Some
    \<lparr>url_scheme = sch, url_opaque = '''', url_user = None, url_host = h @ p, url_path = '''', url_raw_path = '''',
     url_omit_host = False, url_query = q, url_fragment = ''''\<rparr>"
proof -
  note s = schemes[OF assms(1)]
  note a = parse_plain_authority[OF assms(2,3)]
  have ac: "c \<noteq> CHR ''/''" "c \<noteq> CHR ''?''" "c \<noteq> CHR ''#''" "\<not> ctl_byte c" if "c \<in> set (h @ p)" for c
  proof -
    have "authority_char c" using a(2) that unfolding list_all_iff by blast
    then show "c \<noteq> CHR ''/''" "c \<noteq> CHR ''?''" "c \<noteq> CHR ''#''" "\<not> ctl_byte c"
      by (simp_all only: authority_char_facts not_False_eq_True)
  qed
  define rest where "rest = ''//'' @ h @ p"
  define w where "w = sch @ CHR '':'' # rest @ CHR ''?'' # q"
  have w: "sch @ ''://'' @ h @ p @ ''?'' @ q = w" by (simp add: w_def rest_def)
  have "CHR ''#'' \<notin> set w" using s(4) ac(3) assms(4) by (auto simp: w_def rest_def query_text_def list_all_iff)
  then have c1: "cut CHR ''#'' w = (w, None)" by (simp add: cut_def index_byte_def)
  have "\<not> list_ex ctl_byte w"
    using s(3) ac(4) assms(4) by (auto simp: w_def rest_def query_text_def list_all_iff list_ex_iff ctl_byte_def byte_def)
  moreover have "w \<noteq> ''*''" using s(5) by (cases sch) (simp_all add: w_def)
  moreover have "get_scheme w = Some (sch, rest @ CHR ''?'' # q)" unfolding w_def by (rule s(1))
  moreover have "cut CHR ''?'' (rest @ CHR ''?'' # q) = (rest, Some q)"
  proof -
    have "CHR ''?'' \<notin> set rest" using ac(2) by (auto simp: rest_def)
    then show ?thesis by (simp add: cut_def index_byte_append)
  qed
  moreover have "parse_rest_of sch rest q = Some
    \<lparr>url_scheme = sch, url_opaque = '''', url_user = None, url_host = h @ p, url_path = '''', url_raw_path = '''',
     url_omit_host = False, url_query = q, url_fragment = ''''\<rparr>"
  proof -
    have "CHR ''/'' \<notin> set (h @ p)" using ac(1) by blast
    then have "index_byte CHR ''/'' (h @ p) = None" by (simp add: index_byte_def)
    then show ?thesis using a(1) s(5) by (simp add: parse_rest_of_def rest_def Let_def url_escape_def)
  qed
  ultimately show ?thesis unfolding w url_parse_def c1 using s(2) by simp
qed

text \<open>
  The endpoint. A session URL made of a scheme, a host name, an optional port and any query becomes the
  websocket endpoint on the same host and port, with the query, and so the token in it, unchanged, followed
  by the transport parameters; the scheme is secure exactly when the given one was.
\<close>

theorem SocketURL_endpoint:
  assumes "sch \<in> {''https'', ''wss'', ''http'', ''ws''}" "host_text h" "valid_optional_port p" "query_text q"
  shows "SocketURL (sch @ ''://'' @ h @ p @ ''?'' @ q) =
    Inr ((if sch \<in> {''https'', ''wss''} then ''wss'' else ''ws'') @ ''://'' @ h @ p @ ''/socket.io/?''
      @ (if q = '''' then '''' else q @ ''&'') @ ''transport=websocket&EIO=3'')"
proof -
  have pe: "url_escape InPath ''/socket.io/'' = ''/socket.io/''" by code_simp
  have he: "url_escape InHost (h @ p) = h @ p" by (rule escape_authority[OF parse_plain_authority(2)[OF assms(2,3)]])
  have hne: "h \<noteq> ''''" using assms(2) by (simp add: host_text_def)
  define ws where "ws = (if sch \<in> {''https'', ''wss''} then ''wss'' else ''ws'')"
  have sch: "ws_scheme sch = Some ws" "ws \<noteq> ''''"
    using assms(1) by (auto simp: ws_scheme_def ws_def)
  define a where "a = h @ p"
  have a: "a \<noteq> ''''" "url_escape InHost a = a" using he hne by (simp_all add: a_def)
  have "url_string \<lparr>url_scheme = ws, url_opaque = '''', url_user = None, url_host = a, url_path = ''/socket.io/'', url_raw_path = '''',
     url_omit_host = False, url_query = x @ ''transport=websocket&EIO=3'', url_fragment = ''''\<rparr>
     = ws @ ''://'' @ a @ ''/socket.io/?'' @ x @ ''transport=websocket&EIO=3''" for x
    unfolding url_string_def escaped_path_def using sch(2) a by (simp add: Let_def pe)
  note str = this
  show ?thesis
    unfolding SocketURL_def url_parse_plain[OF assms] ws_def[symmetric] a_def[symmetric] using sch(1) str
    by (cases "q = ''''") (simp_all add: a_def)
qed

theorem SocketURL_endpoint_witness:
  "SocketURL ''https://ssio08.nchat.naver.com:443?auth=abc''
     = Inr ''wss://ssio08.nchat.naver.com:443/socket.io/?auth=abc&transport=websocket&EIO=3''"
proof -
  have "host_text ''ssio08.nchat.naver.com''" "valid_optional_port '':443''" "query_text ''auth=abc''" by code_simp+
  then show ?thesis
    using SocketURL_endpoint[of "''https''" "''ssio08.nchat.naver.com''" "'':443''" "''auth=abc''"] by simp
qed

end
