(* ===== verification/Ingest.thy ===== *)
theory Ingest
  imports Hub Tokens Eio3
begin

text \<open>
  \<open>internal/realtime/ingest.go\<close>: the worker that keeps one session open for a channel. The waits between
  sessions, one session from token to error, and the retries of the subscription; what a session puts into
  the channel's buffer is given as the messages pushed, in order.
\<close>

section \<open>Back-off\<close>

definition healthyAfter :: int where "healthyAfter = 60000000000"
definition subscribeAttempts :: nat where "subscribeAttempts = 3"
definition defaultMinBackoff :: int where "defaultMinBackoff = 1000000000"
definition defaultMaxBackoff :: int where "defaultMaxBackoff = 60000000000"

text \<open>
  The loop of \<open>ingest\<close> while its context lives: the lengths of the sessions, and the wait after each.
\<close>

fun ingest_waits :: "int \<Rightarrow> int \<Rightarrow> int \<Rightarrow> int list \<Rightarrow> int list" where
  "ingest_waits minb maxb backoff [] = []"
| "ingest_waits minb maxb backoff (d # ds) =
     (let b = (if healthyAfter \<le> d then minb else backoff) in
      b # ingest_waits minb maxb (min (wrap64 (b * 2)) maxb) ds)"

section \<open>Subscribing\<close>

text \<open>
  \<open>subscribe\<close> from an attempt on: attempt \<open>n\<close> meets the network \<open>https n\<close> and, when it fails, finds the
  context ended or not. The result holds the waits in between and the error passed to \<open>fail\<close>, if any.
  Attempts start at 1, so that the test for the last one is never passed by.
\<close>

function subscribe_from ::
  "client \<Rightarrow> (nat \<Rightarrow> api_http) \<Rightarrow> (nat \<Rightarrow> bool) \<Rightarrow> int \<Rightarrow> string \<Rightarrow> string \<Rightarrow> nat \<Rightarrow> int list \<times> api_error option" where
  "subscribe_from c https ended minb access key attempt =
     (case SubscribeChat c (https attempt) access key of
        Inr u \<Rightarrow> ([], None)
      | Inl e \<Rightarrow>
          if ended attempt then ([], None)
          else if subscribeAttempts \<le> attempt then ([], Some e)
          else (let (waits, r) = subscribe_from c https ended minb access key (attempt + 1)
                in (int attempt * minb # waits, r)))"
  by pat_completeness auto
termination
  by (relation "measure (\<lambda>(c, https, ended, minb, access, key, attempt). subscribeAttempts - attempt)") auto

declare subscribe_from.simps [simp del]

definition subscribe ::
  "client \<Rightarrow> (nat \<Rightarrow> api_http) \<Rightarrow> (nat \<Rightarrow> bool) \<Rightarrow> int \<Rightarrow> string \<Rightarrow> string \<Rightarrow> int list \<times> api_error option" where
  "subscribe c https ended minb access key = subscribe_from c https ended minb access key 1"

section \<open>Events of a session\<close>

datatype session_effect =
    PushChat chat_message
  | StartSubscribe string
  | FailNoSessionKey
  | LogConfirmed
  | LogErrorEvent string

text \<open>The closure passed to \<open>Run\<close>.\<close>

definition handle_event :: "string \<Rightarrow> event \<Rightarrow> session_effect list" where
  "handle_event channelID ev =
     (let data = (case ev_args ev of [] \<Rightarrow> [] | a # _ \<Rightarrow> DecodeArg a) in
      if ev_name ev = ''CHAT'' then [PushChat (ExtractChat data channelID)]
      else if ev_name ev = ''SYSTEM'' then
        (if get_any data ''type'' = JStr ''connected'' then
           (case get_any (as_map (get_any data ''data'')) ''sessionKey'' of
              JStr key \<Rightarrow> if key = '''' then [FailNoSessionKey] else [StartSubscribe key]
            | _ \<Rightarrow> [FailNoSessionKey])
         else if get_any data ''type'' = JStr ''subscribed'' then [LogConfirmed]
         else [])
      else if ev_name ev = ''error'' then
        [LogErrorEvent (case ev_args ev of [] \<Rightarrow> '''' | a # _ \<Rightarrow> a)]
      else [])"

text \<open>The loop of \<open>Run\<close> with that closure, over the turns it takes: what it did and the error it returned.\<close>

fun run_session ::
  "handshake \<Rightarrow> string \<Rightarrow> run_state \<Rightarrow> (int \<times> run_event) list \<Rightarrow> session_effect list \<times> run_error option" where
  "run_session h channelID st [] = ([], None)"
| "run_session h channelID st ((t, e) # es) =
     (case run_step h t e st of
        (st', sent, handed, r) \<Rightarrow>
          (let here = concat (map (handle_event channelID) handed) in
           case r of Some x \<Rightarrow> (here, Some x)
           | None \<Rightarrow> (let (later, r') = run_session h channelID st' es in (here @ later, r'))))"

text \<open>
  The session: the error it returns, the database after it, and the effects of its events. \<open>turns\<close> are the
  turns of \<open>Run\<close> on the connection that was dialled; \<open>subscribe_failed\<close> is what the first subscription
  to fail passed to \<open>fail\<close>, \<open>ctx_ended\<close> whether the worker's context had ended by the end.
\<close>

datatype session_error =
    SessionToken token_error
  | SessionURL api_error
  | SessionDial eio_error
  | SessionRun "run_error option"
  | SessionNoKey
  | SessionSubscribe api_error

text \<open>\<open>context.Cause\<close>: the first failure recorded; a failing subscription came before or after a missing key.\<close>

definition session_cause :: "session_effect list \<Rightarrow> (nat \<times> api_error) option \<Rightarrow> session_error option" where
  "session_cause effects subscribe_failed =
     (case subscribe_failed of
        None \<Rightarrow> if FailNoSessionKey \<in> set effects then Some SessionNoKey else None
      | Some (n, e) \<Rightarrow> if FailNoSessionKey \<in> set (take n effects) then Some SessionNoKey else Some (SessionSubscribe e))"

record session_input =
  si_client :: client
  si_key :: box
  si_nonces :: "octet list \<times> octet list"
  si_later :: int
  si_refresh_http :: api_http
  si_url_http :: api_http
  si_dial :: "string \<Rightarrow> string + ws_read list"
  si_start :: int
  si_turns :: "(int \<times> run_event) list"
  si_subscribe_failed :: "(nat \<times> api_error) option"
  si_ctx_ended :: bool

definition session :: "session_input \<Rightarrow> string \<Rightarrow> world \<Rightarrow> session_error \<times> world \<times> session_effect list" where
  "session i channelID w =
     (case AccessToken (si_client i) (si_refresh_http i) (si_key i) (fst (si_nonces i)) (snd (si_nonces i)) (si_later i) channelID w of
        (Inl e, w1) \<Rightarrow> (SessionToken e, w1, [])
      | (Inr access, w1) \<Rightarrow>
        (case UserSessionURL (si_client i) (si_url_http i) access of
           Inl e \<Rightarrow> (SessionURL e, w1, [])
         | Inr url \<Rightarrow>
           (case Dial (si_dial i) url of
              (sent, Inl e) \<Rightarrow> (SessionDial e, w1, [])
            | (sent, Inr (h, reads)) \<Rightarrow>
              (let (effects, r) = run_session h channelID (run_start h (si_start i)) (si_turns i) in
               case session_cause effects (si_subscribe_failed i) of
                 Some cause \<Rightarrow> if \<not> si_ctx_ended i then (cause, w1, effects) else (SessionRun r, w1, effects)
               | None \<Rightarrow> (SessionRun r, w1, effects)))))"

section \<open>The waits between sessions\<close>

lemma length_ingest_waits: "length (ingest_waits minb maxb b ds) = length ds"
  by (induction ds arbitrary: b) (simp_all add: Let_def)

lemma wrap64_double: "0 \<le> b \<Longrightarrow> b < 2 ^ 62 \<Longrightarrow> wrap64 (b * 2) = b * 2"
  by (intro wrap64_id) simp_all

lemma ingest_waits_bounds:
  assumes "0 < minb" "minb \<le> maxb" "maxb < 2 ^ 62"
  shows "minb \<le> b \<Longrightarrow> b \<le> maxb \<Longrightarrow> i < length ds \<Longrightarrow>
    minb \<le> ingest_waits minb maxb b ds ! i \<and> ingest_waits minb maxb b ds ! i \<le> maxb"
proof (induction ds arbitrary: b i)
  case (Cons d ds)
  define b' where "b' = (if healthyAfter \<le> d then minb else b)"
  have b': "minb \<le> b'" "b' \<le> maxb" using Cons.prems assms(2) by (auto simp: b'_def)
  then have "wrap64 (b' * 2) = b' * 2" using assms by (intro wrap64_double) simp_all
  then have "minb \<le> min (wrap64 (b' * 2)) maxb" "min (wrap64 (b' * 2)) maxb \<le> maxb" using b' assms by simp_all
  then show ?case using Cons.IH Cons.prems(3) b' by (cases i) (auto simp: b'_def[symmetric] Let_def)
qed simp

lemma ingest_waits_reset:
  "i < length ds \<Longrightarrow> healthyAfter \<le> ds ! i \<Longrightarrow> ingest_waits minb maxb b ds ! i = minb"
proof (induction ds arbitrary: b i)
  case (Cons d ds)
  then show ?case by (cases i) (simp_all add: Let_def)
qed simp

lemma ingest_waits_double:
  "Suc i < length ds \<Longrightarrow> ds ! Suc i < healthyAfter \<Longrightarrow>
   ingest_waits minb maxb b ds ! Suc i = min (wrap64 (ingest_waits minb maxb b ds ! i * 2)) maxb"
proof (induction ds arbitrary: b i)
  case (Cons d ds)
  show ?case
  proof (cases i)
    case 0
    then obtain d' ds' where "ds = d' # ds'" using Cons.prems by (cases ds) auto
    then show ?thesis using 0 Cons.prems by (simp add: Let_def)
  next
    case (Suc k)
    then show ?thesis using Cons by (simp add: Let_def)
  qed
qed simp

text \<open>
  The back-off. After a session that stayed up for a minute, and before the first, the wait starts at
  the minimum; each further short session doubles it up to the maximum, so the wait after the \<open>n\<close>-th short
  session in a row is the minimum times \<open>2 ^ n\<close> or the maximum. It never leaves the two bounds.
\<close>

theorem backoff_schedule:
  assumes "0 < minb" "minb \<le> maxb" "maxb < 2 ^ 62"
    and "j + n < length ds" "j = 0 \<or> healthyAfter \<le> ds ! j" "\<forall>m. j < m \<and> m \<le> j + n \<longrightarrow> ds ! m < healthyAfter"
  shows "ingest_waits minb maxb minb ds ! (j + n) = min (minb * 2 ^ n) maxb"
  using assms(4,6)
proof (induction n)
  case 0
  have "ingest_waits minb maxb minb ds ! 0 = minb" if "0 < length ds" using that by (cases ds) (simp_all add: Let_def)
  then have "ingest_waits minb maxb minb ds ! j = minb" using assms(5) 0 ingest_waits_reset by auto
  then show ?case using assms(2) by simp
next
  case (Suc n)
  define w where "w = ingest_waits minb maxb minb ds ! (j + n)"
  have w: "w = min (minb * 2 ^ n) maxb" using Suc by (simp add: w_def)
  then have "0 \<le> w" "w < 2 ^ 62" using assms(1-3) by auto
  then have "wrap64 (w * 2) = w * 2" by (rule wrap64_double)
  moreover have "ingest_waits minb maxb minb ds ! Suc (j + n) = min (wrap64 (w * 2)) maxb"
    unfolding w_def using Suc.prems by (intro ingest_waits_double) auto
  ultimately show ?case using w assms(1,2) by auto
qed

theorem backoff_schedule_witness:
  "ingest_waits defaultMinBackoff defaultMaxBackoff defaultMinBackoff [5, 60000000000, 7, 8, 9] ! (1 + 3) = 8000000000"
proof -
  have "m = 2 \<or> m = 3 \<or> m = 4" if "1 < m" "m \<le> 4" for m :: nat using that by linarith
  then have "\<forall>m. 1 < m \<and> m \<le> 1 + 3 \<longrightarrow> [5, 60000000000, 7, 8, 9] ! m < healthyAfter"
    by (fastforce simp: healthyAfter_def)
  then show ?thesis
    using backoff_schedule[of defaultMinBackoff defaultMaxBackoff 1 3 "[5, 60000000000, 7, 8, 9]"]
    by (simp add: defaultMinBackoff_def defaultMaxBackoff_def healthyAfter_def)
qed

section \<open>Subscription attempts\<close>

lemma subscribe_last:
  "subscribe_from c https ended minb access key 3 =
     (case SubscribeChat c (https 3) access key of
        Inl e \<Rightarrow> ([], if ended 3 then None else Some e) | Inr u \<Rightarrow> ([], None))"
  by (simp add: subscribe_from.simps[of _ _ _ _ _ _ 3] subscribeAttempts_def split: sum.split)

lemma subscribe_earlier:
  assumes "n < 3" "m = n + 1"
  shows "subscribe_from c https ended minb access key n =
     (case SubscribeChat c (https n) access key of
        Inl e \<Rightarrow> if ended n then ([], None)
                 else (case subscribe_from c https ended minb access key m of (ws, r) \<Rightarrow> (int n * minb # ws, r))
      | Inr u \<Rightarrow> ([], None))"
  using assms by (simp add: subscribe_from.simps[of _ _ _ _ _ _ n] subscribeAttempts_def split: sum.split)

text \<open>
  Subscribing gives up, and ends the session, exactly when three attempts have failed and the session was
  alive after each; it passes on the error of the third. It waits one and two minimal back-offs in between,
  and never makes a fourth attempt.
\<close>

theorem subscribe_outcome:
  "subscribe c https ended minb access key =
     (let failed = (\<lambda>n. \<exists>e. SubscribeChat c (https n) access key = Inl e \<and> \<not> ended n) in
      (if failed 1 then (if failed 2 then [minb, 2 * minb] else [minb]) else [],
       if failed 1 \<and> failed 2 \<and> failed 3
       then (case SubscribeChat c (https 3) access key of Inl e \<Rightarrow> Some e | Inr u \<Rightarrow> None) else None))"
proof -
  have "(1::nat) < 3" "(2::nat) = 1 + 1" "(2::nat) < 3" "(3::nat) = 2 + 1" by simp_all
  note unroll = subscribe_earlier[OF this(1,2)] subscribe_earlier[OF this(3,4)] subscribe_last
  show ?thesis
    unfolding subscribe_def unroll Let_def
    by (cases "SubscribeChat c (https 1) access key"; cases "SubscribeChat c (https 2) access key";
        cases "SubscribeChat c (https 3) access key") (simp_all del: One_nat_def)
qed

section \<open>From frames to the buffer\<close>

text \<open>
  What a server sends for a chat message: an EVENT frame whose argument is the payload, as an object or as
  a string holding it. The payload is one both sides can write down.
\<close>

definition chat_frame :: "bool \<Rightarrow> (string \<times> json) list \<Rightarrow> string" where
  "chat_frame quoted ms =
     CHR ''4'' # event_packet '''' ''CHAT'' [if quoted then JStr (json_print (JObj ms)) else JObj ms]"

definition wire_ok :: "(string \<times> json) list \<Rightarrow> bool" where
  "wire_ok ms \<longleftrightarrow> json_ok 9999 (JObj ms) \<and> floats_ok (JObj ms) \<and> utf8_ok (json_print (JObj ms))"

text \<open>Turns that carry no event: pings sent, pongs, pings and no-ops received.\<close>

definition quiet :: "run_event \<Rightarrow> bool" where
  "quiet e \<longleftrightarrow> e = PingFires True \<or> (\<exists>f. e = Frame f \<and> (f = '''' \<or> hd f \<in> {CHR ''2'', CHR ''3'', CHR ''6''}))"

definition turn_of :: "run_event + bool \<times> (string \<times> json) list \<Rightarrow> run_event" where
  "turn_of x = (case x of Inl e \<Rightarrow> e | Inr (quoted, ms) \<Rightarrow> Frame (chat_frame quoted ms))"

definition payloads :: "(int \<times> (run_event + bool \<times> (string \<times> json) list)) list \<Rightarrow> (string \<times> json) list list" where
  "payloads items = concat (map (\<lambda>(t, x). case x of Inl e \<Rightarrow> [] | Inr (quoted, ms) \<Rightarrow> [ms]) items)"

lemma quiet_step:
  assumes "quiet e"
  obtains st' sent where "run_step h t e st = (st', sent, [], None)"
proof -
  have "\<exists>st' sent. run_step h t e st = (st', sent, [], None)"
    using assms by (auto simp: quiet_def on_frame_def Let_def split: list.split)
  then show thesis using that by blast
qed

lemma chat_step:
  assumes "wire_ok ms"
  obtains st' ev where "run_step h t (Frame (chat_frame quoted ms)) st = (st', [], [ev], None)"
    "handle_event channelID ev = [PushChat (ExtractChat (to_map ms) channelID)]"
proof -
  define arg where "arg = (if quoted then JStr (json_print (JObj ms)) else JObj ms)"
  have w: "json_ok 9999 (JObj ms)" "floats_ok (JObj ms)" "utf8_ok (json_print (JObj ms))"
    using assms by (simp_all only: wire_ok_def)
  have j: "json_ok 10000 (JObj ms)" by (rule json_ok_mono[OF w(1)]) simp
  have a: "json_ok 9999 arg" using w by (simp add: arg_def del: json_print.simps json_ok.simps(6))
  have u: "utf8_ok ''CHAT''" by code_simp
  have p: "parseSocketPacket (event_packet '''' ''CHAT'' [arg]) = Delivered \<lparr>ev_name = ''CHAT'', ev_args = [json_print arg]\<rparr>"
    using parse_event_packet[of "''''" "''CHAT''" "[arg]"] u a by (simp del: json_print.simps)
  have d: "DecodeArg (json_print arg) = to_map ms"
    using DecodeArg_object[OF j w(2,3)] by (simp add: arg_def del: json_print.simps)
  show thesis
    by (rule that[of _ "\<lparr>ev_name = ''CHAT'', ev_args = [json_print arg]\<rparr>"])
       (simp_all add: chat_frame_def arg_def[symmetric] on_frame_def p handle_event_def d Let_def)
qed

text \<open>
  C6: From the wire to the buffer. In a session in which the server sends chat messages, each as an object or
  as a string holding one, with keep-alive traffic in between at whatever times, the worker pushes exactly
  the normalised messages, in the order sent, none lost, none doubled, and the session goes on.
\<close>

theorem chat_pipeline:
  assumes "\<forall>p\<in>set items. case snd p of Inl e \<Rightarrow> quiet e | Inr x \<Rightarrow> wire_ok (snd x)"
  shows "run_session h channelID st (map (\<lambda>(t, x). (t, turn_of x)) items)
    = (map (\<lambda>ms. PushChat (ExtractChat (to_map ms) channelID)) (payloads items), None)"
  using assms
proof (induction items arbitrary: st)
  case (Cons p items)
  obtain t x where p: "p = (t, x)" by fastforce
  show ?case
  proof (cases x)
    case (Inl e)
    then have "quiet e" using Cons.prems p by simp
    then obtain st' sent where "run_step h t e st = (st', sent, [], None)" by (rule quiet_step)
    then show ?thesis using Cons Inl p by (simp add: turn_of_def payloads_def)
  next
    case (Inr y)
    obtain quoted ms where y: "y = (quoted, ms)" by fastforce
    have "wire_ok ms" using Cons.prems p Inr y by simp
    then obtain st' ev where "run_step h t (Frame (chat_frame quoted ms)) st = (st', [], [ev], None)"
      "handle_event channelID ev = [PushChat (ExtractChat (to_map ms) channelID)]"
      by (rule chat_step)
    then show ?thesis using Cons Inr p y by (simp add: turn_of_def payloads_def del: run_step.simps)
  qed
qed (simp add: payloads_def)

theorem chat_pipeline_witness:
  "run_session chzzk_handshake ''ch'' (run_start chzzk_handshake 0)
     [(1, Frame (chat_frame True [(''content'', JStr ''hi'')])), (25000000000, PingFires True), (25000000001, Frame ''3''),
      (25000000002, Frame (chat_frame False [(''content'', JStr ''yo'')]))]
   = ([PushChat (ExtractChat [(''content'', JStr ''hi'')] ''ch''), PushChat (ExtractChat [(''content'', JStr ''yo'')] ''ch'')], None)"
proof -
  have u: "utf8_ok ''content''" "utf8_ok ''hi''" "utf8_ok ''yo''"
    "utf8_ok (json_print (JObj [(''content'', JStr ''hi'')]))" "utf8_ok (json_print (JObj [(''content'', JStr ''yo'')]))"
    by code_simp+
  then have w: "wire_ok [(''content'', JStr ''hi'')]" "wire_ok [(''content'', JStr ''yo'')]"
    by (simp_all add: wire_ok_def)
  have "quiet (PingFires True)" "quiet (Frame ''3'')" by (simp_all add: quiet_def)
  then show ?thesis
    using chat_pipeline[of "[(1, Inr (True, [(''content'', JStr ''hi'')])), (25000000000, Inl (PingFires True)),
        (25000000001, Inl (Frame ''3'')), (25000000002, Inr (False, [(''content'', JStr ''yo'')]))]" chzzk_handshake "''ch''"] w
    by (simp add: turn_of_def payloads_def to_map_def)
qed

end
