(* ===== verification/WebBase.thy ===== *)
theory WebBase
  imports Url JsonOut RateLimit
begin

text \<open>
  What the handlers of \<open>internal/web\<close> share: the response they build, the cookies as \<open>net/http\<close> writes and
  reads them, \<open>http.Redirect\<close> with the cleaning of its target, the check of a login target, and the headers
  of \<open>middleware.go\<close>.
\<close>

section \<open>Requests and responses\<close>

text \<open>
  A request with its \<open>Host\<close>, the path as it was sent where that differs from its standard encoding
  (\<open>URL.RawPath\<close>), and the query text; the cookies are the raw pairs of the \<open>Cookie\<close> header.
\<close>

record web_request = request +
  rq_host :: string
  rq_raw_path :: string
  rq_raw_query :: string

record set_cookie =
  sc_name :: string
  sc_value :: string
  sc_path :: string
  sc_max_age :: int
  sc_http_only :: bool
  sc_secure :: bool
  sc_lax :: bool

text \<open>\<open>'b\<close> is the type of bodies: the templates with the data they are given.\<close>

record 'b response =
  rp_status :: int
  rp_header :: "(string \<times> string) list"
  rp_cookies :: "set_cookie list"
  rp_body :: 'b

definition set_header :: "string \<Rightarrow> string \<Rightarrow> 'b response \<Rightarrow> 'b response" where
  "set_header k v r = r\<lparr>rp_header := AList.update k v (rp_header r)\<rparr>"

definition add_cookie :: "set_cookie \<Rightarrow> 'b response \<Rightarrow> 'b response" where
  "add_cookie c r = r\<lparr>rp_cookies := rp_cookies r @ [c]\<rparr>"

section \<open>Cookies\<close>

definition cookie_byte :: "char \<Rightarrow> bool" where
  "cookie_byte c \<longleftrightarrow> 0x20 \<le> byte c \<and> byte c < 0x7F \<and> c \<noteq> CHR 0x22 \<and> c \<noteq> CHR '';'' \<and> c \<noteq> CHR 0x5C"

text \<open>\<open>sanitizeCookieValue\<close>: what \<open>SetCookie\<close> writes; a browser sends it back as it is.\<close>

definition written_value :: "string \<Rightarrow> string" where
  "written_value v =
     (let u = filter cookie_byte v in
      if u \<noteq> '''' \<and> (CHR '' '' \<in> set u \<or> CHR '','' \<in> set u) then [CHR 0x22] @ u @ [CHR 0x22] else u)"

text \<open>\<open>parseCookieValue\<close>: None for a value with a byte that is not allowed.\<close>

definition read_value :: "string \<Rightarrow> string option" where
  "read_value raw =
     (let v = (if 1 < length raw \<and> hd raw = CHR 0x22 \<and> last raw = CHR 0x22 then butlast (tl raw) else raw) in
      if list_all cookie_byte v then Some v else None)"

text \<open>\<open>Request.Cookie\<close>: the first pair of that name that can be read.\<close>

fun first_cookie :: "string \<Rightarrow> (string \<times> string) list \<Rightarrow> string option" where
  "first_cookie name [] = None"
| "first_cookie name ((k, raw) # ps) =
     (if k = name then (case read_value raw of Some v \<Rightarrow> Some v | None \<Rightarrow> first_cookie name ps)
      else first_cookie name ps)"

definition Cookie :: "'a request_scheme \<Rightarrow> string \<Rightarrow> string option" where
  "Cookie r name = first_cookie name (req_cookie r)"

section \<open>Redirects\<close>

text \<open>\<open>path.Clean\<close>: \<open>stack\<close> holds the elements kept so far, last first.\<close>

fun clean_elems :: "bool \<Rightarrow> string list \<Rightarrow> string list \<Rightarrow> string list" where
  "clean_elems rooted stack [] = rev stack"
| "clean_elems rooted stack (e # es) =
     (if e = '''' \<or> e = ''.'' then clean_elems rooted stack es
      else if e = ''..'' then
        (case stack of
           [] \<Rightarrow> clean_elems rooted (if rooted then [] else [''..'']) es
         | s # ss \<Rightarrow> if s = ''..'' then clean_elems rooted (''..'' # stack) es else clean_elems rooted ss es)
      else clean_elems rooted (e # stack) es)"

fun join_slash :: "string list \<Rightarrow> string" where
  "join_slash [] = ''''"
| "join_slash [e] = e"
| "join_slash (e # es) = e @ CHR ''/'' # join_slash es"

definition path_clean :: "string \<Rightarrow> string" where
  "path_clean p =
     (let rooted = prefix ''/'' p;
          out = (if rooted then ''/'' else '''') @ join_slash (clean_elems rooted [] (split_on CHR ''/'' p))
      in if out = '''' then ''.'' else out)"

text \<open>\<open>http.Redirect\<close>: the \<open>Location\<close> for a target, seen from the path of the request.\<close>

definition hex_escape_non_ascii :: "string \<Rightarrow> string" where
  "hex_escape_non_ascii s = concat (map (\<lambda>c.
     if 0x80 \<le> byte c then [CHR ''%'', lower_hex (byte c div 16), lower_hex (byte c mod 16)] else [c]) s)"

definition clean_target :: "string \<Rightarrow> string" where
  "clean_target target =
     (let (p, q) = cut CHR ''?'' target;
          c = path_clean p;
          c1 = (if suffix ''/'' p \<and> \<not> suffix ''/'' c then c @ ''/'' else c)
      in c1 @ (case q of None \<Rightarrow> '''' | Some x \<Rightarrow> CHR ''?'' # x))"

definition location_of :: "string \<Rightarrow> string \<Rightarrow> string" where
  "location_of old_path target =
     (hex_escape_non_ascii
       (case url_parse target of
          Some u \<Rightarrow>
            if url_scheme u = '''' \<and> url_host u = '''' then
              clean_target
                (if target = '''' \<or> hd target \<noteq> CHR ''/'' then
                   (case last_index_byte CHR ''/'' (if old_path = '''' then ''/'' else old_path) of
                      Some i \<Rightarrow> take (Suc i) (if old_path = '''' then ''/'' else old_path) | None \<Rightarrow> '''') @ target
                 else target)
            else target
        | None \<Rightarrow> target))"

definition redirect :: "'a request_scheme \<Rightarrow> string \<Rightarrow> int \<Rightarrow> 'b response \<Rightarrow> 'b response" where
  "redirect r target code rsp =
     (let typed = map_of (rp_header rsp) ''Content-Type'' \<noteq> None;
          r1 = set_header ''Location'' (location_of (req_path r) target) rsp;
          r2 = (if \<not> typed \<and> req_method r \<in> {''GET'', ''HEAD''}
                then set_header ''Content-Type'' ''text/html; charset=utf-8'' r1 else r1)
      in r2\<lparr>rp_status := code\<rparr>)"

section \<open>Login targets\<close>

definition safeNextPath :: "string \<Rightarrow> string \<Rightarrow> string" where
  "safeNextPath target fallback =
     (if \<not> prefix ''/'' target \<or> prefix ''//'' target \<or> prefix [CHR ''/'', CHR 0x5C] target then fallback
      else if list_ex ctl_byte target then fallback
      else target)"

section \<open>Headers\<close>

definition csp :: string where
  "csp =
     ''default-src 'self'; '' @
     ''script-src 'self' 'unsafe-eval' https://cdn.jsdelivr.net; '' @
     ''style-src 'self' 'unsafe-inline' https://cdn.jsdelivr.net; '' @
     ''img-src 'self' https://chzzk-djclass-assets.pages.dev https://*.pstatic.net https://*.naver.net data:; '' @
     ''font-src https://cdn.jsdelivr.net; '' @
     ''connect-src 'self'; '' @
     ''frame-ancestors 'none'; base-uri 'self'; form-action 'self'' @ [CHR 0x27]"

definition widgetCSP :: string where
  "widgetCSP =
     ''default-src 'self'; script-src 'self'; '' @
     ''style-src 'self' 'unsafe-inline' https://cdn.jsdelivr.net; '' @
     ''img-src 'self' https://*.pstatic.net https://*.naver.net; '' @
     ''font-src https://cdn.jsdelivr.net; connect-src 'self'; '' @
     ''frame-ancestors 'none'; base-uri 'self'; form-action 'none'' @ [CHR 0x27]"

text \<open>\<open>securityHeaders\<close>, on the headers a handler starts from.\<close>

definition securityHeaders :: "bool \<Rightarrow> 'b response \<Rightarrow> 'b response" where
  "securityHeaders https rsp =
     (let r = set_header ''Permissions-Policy'' ''geolocation=(), microphone=(), camera=()''
              (set_header ''Cross-Origin-Opener-Policy'' ''same-origin''
              (set_header ''Referrer-Policy'' ''same-origin''
              (set_header ''X-Content-Type-Options'' ''nosniff''
              (set_header ''X-Frame-Options'' ''DENY''
              (set_header ''Content-Security-Policy'' csp rsp)))))
      in if https then set_header ''Strict-Transport-Security'' ''max-age=31536000; includeSubDomains'' r else r)"

section \<open>Where a redirect leads\<close>

text \<open>
  A browser stays on the origin when the target starts with one slash that no slash or backslash follows,
  and has no control characters (which it would drop).
\<close>

definition same_origin :: "string \<Rightarrow> bool" where
  "same_origin l \<longleftrightarrow> prefix ''/'' l \<and> \<not> prefix ''//'' l \<and> \<not> prefix [CHR ''/'', CHR 0x5C] l \<and> \<not> list_ex ctl_byte l"

lemma same_origin_iff:
  "same_origin l \<longleftrightarrow> (\<exists>s. l = CHR ''/'' # s \<and> (s = [] \<or> hd s \<noteq> CHR ''/'' \<and> hd s \<noteq> CHR 0x5C) \<and> \<not> list_ex ctl_byte s)"
proof -
  have "\<not> ctl_byte CHR ''/''" by (simp add: ctl_byte_def byte_def)
  then show ?thesis unfolding same_origin_def by (cases l; cases "tl l") (auto simp: prefix_def)
qed

lemma safeNextPath_same_origin: "same_origin fallback \<Longrightarrow> same_origin (safeNextPath target fallback)"
  by (auto simp: safeNextPath_def same_origin_def)

lemma split_on_set: "e \<in> set (split_on c s) \<Longrightarrow> c \<notin> set e \<and> set e \<subseteq> set s"
proof (induction s arbitrary: e)
  case (Cons x s)
  show ?case
  proof (cases "x = c")
    case False
    obtain w ws where w: "split_on c s = w # ws" by (cases s; cases "split_on c s") (auto split: if_splits list.splits)
    then show ?thesis using Cons.IH[of w] Cons.IH[of e] Cons.prems False by auto
  qed (use Cons in auto)
qed simp

lemma clean_elems_set:
  "e \<in> set (clean_elems rooted stack es) \<Longrightarrow> '''' \<notin> set stack \<Longrightarrow> e \<noteq> '''' \<and> (e \<in> set stack \<union> set es \<or> e = ''..'')"
proof (induction es arbitrary: stack)
  case (Cons x es)
  consider "x = '''' \<or> x = ''.''" | "x = ''..''" "stack = []" | s ss where "x = ''..''" "stack = s # ss"
    | "x \<noteq> ''''" "x \<noteq> ''.''" "x \<noteq> ''..''" by (cases stack) auto
  then show ?case
  proof cases
    case 1
    then show ?thesis using Cons.IH[of stack] Cons.prems by auto
  next
    case 2
    then show ?thesis using Cons.IH[of "if rooted then [] else [''..'']"] Cons.prems by (auto split: if_splits)
  next
    case 3
    then show ?thesis using Cons.IH[of "''..'' # stack"] Cons.IH[of ss] Cons.prems by (auto split: if_splits)
  next
    case 4
    then show ?thesis using Cons.IH[of "x # stack"] Cons.prems by auto
  qed
qed auto

lemma join_slash_hd: "e \<noteq> '''' \<Longrightarrow> join_slash (e # es) \<noteq> '''' \<and> hd (join_slash (e # es)) = hd e"
  by (cases es) (auto simp: hd_append)

lemma join_slash_set: "set (join_slash es) \<subseteq> {CHR ''/''} \<union> \<Union> (set ` set es)"
  by (induction es rule: join_slash.induct) auto

text \<open>Cleaning keeps a rooted path without backslashes and control characters what it is.\<close>

lemma path_clean_same_origin:
  assumes "prefix ''/'' p" "CHR 0x5C \<notin> set p" "\<not> list_ex ctl_byte p"
  shows "\<exists>s. path_clean p = CHR ''/'' # s \<and> (s = [] \<or> hd s \<noteq> CHR ''/'' \<and> hd s \<noteq> CHR 0x5C)
    \<and> set s \<subseteq> set p \<union> {CHR ''.'', CHR ''/''}"
proof -
  define es where "es = clean_elems True [] (split_on CHR ''/'' p)"
  have es: "e \<noteq> ''''" "CHR ''/'' \<notin> set e" "set e \<subseteq> set p \<union> {CHR ''.''}" if "e \<in> set es" for e
  proof -
    have e: "e \<noteq> '''' \<and> (e \<in> set (split_on CHR ''/'' p) \<or> e = ''..'')"
      using clean_elems_set[of e True "[]" "split_on CHR ''/'' p"] that by (simp add: es_def)
    then show "e \<noteq> ''''" "CHR ''/'' \<notin> set e" "set e \<subseteq> set p \<union> {CHR ''.''}"
      using split_on_set[of e "CHR ''/''" p] by auto
  qed
  have "path_clean p = CHR ''/'' # join_slash es" using assms(1) by (simp add: path_clean_def es_def Let_def)
  moreover have "join_slash es = [] \<or> hd (join_slash es) \<noteq> CHR ''/'' \<and> hd (join_slash es) \<noteq> CHR 0x5C"
  proof (cases es)
    case (Cons e es')
    then have e: "e \<noteq> ''''" "CHR ''/'' \<notin> set e" "set e \<subseteq> set p \<union> {CHR ''.''}" using es[of e] by auto
    have "hd e \<in> set e" using e(1) by simp
    then have "hd e \<noteq> CHR ''/''" "hd e \<noteq> CHR 0x5C" using e(2,3) assms(2) by auto
    then show ?thesis using join_slash_hd[OF e(1), of es'] Cons by simp
  qed simp
  moreover have "set (join_slash es) \<subseteq> set p \<union> {CHR ''.'', CHR ''/''}"
    using join_slash_set[of es] es(3) by fastforce
  ultimately show ?thesis by blast
qed

lemma hex_escape_ascii_ctl: "list_ex ctl_byte (hex_escape_non_ascii s) = list_ex ctl_byte s"
proof (induction s)
  case (Cons c s)
  have lt: "byte c div 16 < 16" "byte c mod 16 < 16" using byte_less[of c] by simp_all
  have "list_all (\<lambda>n. \<not> ctl_byte (lower_hex n)) [0..<16]" by code_simp
  then have "\<not> ctl_byte (lower_hex n)" if "n < 16" for n using that by (simp add: list_all_iff)
  then show ?case using Cons lt
    by (auto simp: hex_escape_non_ascii_def ctl_byte_def byte_def)
qed (simp add: hex_escape_non_ascii_def)

lemma hex_escape_same_origin: "same_origin s \<Longrightarrow> same_origin (hex_escape_non_ascii s)"
proof -
  assume "same_origin s"
  then obtain t where t: "s = CHR ''/'' # t" "t = [] \<or> hd t \<noteq> CHR ''/'' \<and> hd t \<noteq> CHR 0x5C" "\<not> list_ex ctl_byte t"
    unfolding same_origin_iff by blast
  have h: "hex_escape_non_ascii s = CHR ''/'' # hex_escape_non_ascii t" unfolding t(1) by (simp add: hex_escape_non_ascii_def byte_def)
  moreover have "hex_escape_non_ascii t = [] \<or> hd (hex_escape_non_ascii t) \<noteq> CHR ''/'' \<and> hd (hex_escape_non_ascii t) \<noteq> CHR 0x5C"
    using t(2) by (cases t) (auto simp: hex_escape_non_ascii_def)
  ultimately show ?thesis using t(3) hex_escape_ascii_ctl[of t] unfolding same_origin_iff by auto
qed

text \<open>A redirect to a checked target without backslashes stays on the origin, whatever the cleaning makes of it.\<close>

lemma location_same_origin:
  assumes "same_origin target" "CHR 0x5C \<notin> set target"
  shows "same_origin (location_of old target)"
proof -
  have "same_origin (clean_target target)"
  proof -
    obtain p q where c: "cut CHR ''?'' target = (p, q)" by fastforce
    note ct = cut_text[OF c]
    obtain t where t: "target = CHR ''/'' # t" "\<not> list_ex ctl_byte t" using assms(1) unfolding same_origin_iff by blast
    have nc: "\<not> list_ex ctl_byte target" using assms(1) by (simp add: same_origin_def)
    have "prefix ''/'' p" using ct t(1) by (cases p; cases q) auto
    moreover have "CHR 0x5C \<notin> set p" "\<not> list_ex ctl_byte p" using ct assms(2) nc by auto
    ultimately obtain s where s: "path_clean p = CHR ''/'' # s" "s = [] \<or> hd s \<noteq> CHR ''/'' \<and> hd s \<noteq> CHR 0x5C"
      "set s \<subseteq> set p \<union> {CHR ''.'', CHR ''/''}" using path_clean_same_origin by blast
    define c1 where "c1 = (if suffix ''/'' p \<and> \<not> suffix ''/'' (path_clean p) then path_clean p @ ''/'' else path_clean p)"
    define rest where "rest = (case q of None \<Rightarrow> '''' | Some x \<Rightarrow> CHR ''?'' # x)"
    have "\<exists>s'. c1 = CHR ''/'' # s' \<and> (s' = [] \<or> hd s' \<noteq> CHR ''/'' \<and> hd s' \<noteq> CHR 0x5C) \<and> set s' \<subseteq> set p \<union> {CHR ''.'', CHR ''/''}"
    proof (cases "suffix ''/'' p \<and> \<not> suffix ''/'' (path_clean p)")
      case True
      then have "s \<noteq> []" using s(1) by auto
      then show ?thesis using True s by (auto simp: c1_def)
    next
      case False
      then show ?thesis using s by (auto simp: c1_def)
    qed
    then obtain s' where s': "c1 = CHR ''/'' # s'" "s' = [] \<or> hd s' \<noteq> CHR ''/'' \<and> hd s' \<noteq> CHR 0x5C"
      "set s' \<subseteq> set p \<union> {CHR ''.'', CHR ''/''}" by blast
    have "\<not> ctl_byte CHR ''.''" "\<not> ctl_byte CHR ''/''" "\<not> ctl_byte CHR ''?''" by (simp_all add: ctl_byte_def byte_def)
    then have "\<not> list_ex ctl_byte (s' @ rest)"
      using s'(3) nc ct by (auto simp: list_ex_iff rest_def split: option.splits)
    moreover have "s' @ rest = [] \<or> hd (s' @ rest) \<noteq> CHR ''/'' \<and> hd (s' @ rest) \<noteq> CHR 0x5C"
      using s'(2) by (cases s'; cases q) (auto simp: rest_def)
    moreover have "clean_target target = CHR ''/'' # s' @ rest"
      using s'(1) c by (simp add: clean_target_def c1_def rest_def Let_def)
    ultimately show ?thesis unfolding same_origin_iff by blast
  qed
  moreover have "target \<noteq> ''''" "hd target = CHR ''/''" using assms(1) unfolding same_origin_iff by auto
  ultimately show ?thesis
    using assms(1) by (auto simp: location_of_def intro!: hex_escape_same_origin split: option.split)
qed

lemma read_value_bytes: "read_value raw = Some v \<Longrightarrow> list_all cookie_byte v"
  by (auto simp: read_value_def Let_def split: if_splits)

lemma Cookie_bytes: "Cookie r name = Some v \<Longrightarrow> list_all cookie_byte v"
proof -
  have "first_cookie name ps = Some v \<Longrightarrow> list_all cookie_byte v" for ps
    by (induction name ps rule: first_cookie.induct) (auto split: if_splits option.splits dest: read_value_bytes)
  then show "Cookie r name = Some v \<Longrightarrow> list_all cookie_byte v" by (simp add: Cookie_def)
qed

end
