(* ===== verification/Web.thy ===== *)
theory Web
  imports WebBase Tokens Chat LinkSync
begin

text \<open>
  The handlers of \<open>internal/web\<close>: login and logout (\<open>auth.go\<close>), the pages (\<open>pages.go\<close>), the link card
  (\<open>link.go\<close>) and the dev page (\<open>dev.go\<close>), with the session user and the login check of
  \<open>middleware.go\<close>. A handler is given the response as the middleware has prepared it. What a session is
  stays with the session manager: a handler sees the user id in it and emits session operations. Templates
  are named by constructors that carry the data the code gives them.
\<close>

section \<open>Texts\<close>

text \<open>The messages of the code, as the bytes of their UTF-8 text.\<close>

definition msg_too_many :: string where
  "msg_too_many =
     [CHR 0xEC, CHR 0x9A, CHR 0x94, CHR 0xEC, CHR 0xB2, CHR 0xAD, CHR 0xEC, CHR 0x9D, CHR 0xB4] @ '' '' @
     [CHR 0xEB, CHR 0x84, CHR 0x88, CHR 0xEB, CHR 0xAC, CHR 0xB4] @ '' '' @ [CHR 0xEB, CHR 0xA7, CHR 0x8E,
     CHR 0xEC, CHR 0x8A, CHR 0xB5, CHR 0xEB, CHR 0x8B, CHR 0x88, CHR 0xEB, CHR 0x8B, CHR 0xA4] @ ''. '' @
     [CHR 0xEC, CHR 0x9E, CHR 0xA0, CHR 0xEC, CHR 0x8B, CHR 0x9C] @ '' '' @ [CHR 0xED, CHR 0x9B, CHR 0x84] @
     '' '' @ [CHR 0xEB, CHR 0x8B, CHR 0xA4, CHR 0xEC, CHR 0x8B, CHR 0x9C] @ '' '' @ [CHR 0xEC, CHR 0x8B,
     CHR 0x9C, CHR 0xEB, CHR 0x8F, CHR 0x84, CHR 0xED, CHR 0x95, CHR 0xB4, CHR 0xEC, CHR 0xA3, CHR 0xBC,
     CHR 0xEC, CHR 0x84, CHR 0xB8, CHR 0xEC, CHR 0x9A, CHR 0x94] @ ''.''"

definition msg_cross_origin :: string where
  "msg_cross_origin =
     [CHR 0xEB, CHR 0x8B, CHR 0xA4, CHR 0xEB, CHR 0xA5, CHR 0xB8] @ '' '' @ [CHR 0xEC, CHR 0x82, CHR 0xAC,
     CHR 0xEC, CHR 0x9D, CHR 0xB4, CHR 0xED, CHR 0x8A, CHR 0xB8, CHR 0xEC, CHR 0x97, CHR 0x90, CHR 0xEC,
     CHR 0x84, CHR 0x9C] @ '' '' @ [CHR 0xEB, CHR 0xB3, CHR 0xB4, CHR 0xEB, CHR 0x82, CHR 0xB8] @ '' '' @
     [CHR 0xEC, CHR 0x9A, CHR 0x94, CHR 0xEC, CHR 0xB2, CHR 0xAD, CHR 0xEC, CHR 0x9D, CHR 0x80] @ '' '' @
     [CHR 0xEC, CHR 0xB2, CHR 0x98, CHR 0xEB, CHR 0xA6, CHR 0xAC, CHR 0xED, CHR 0x95, CHR 0xA0] @ '' '' @
     [CHR 0xEC, CHR 0x88, CHR 0x98] @ '' '' @ [CHR 0xEC, CHR 0x97, CHR 0x86, CHR 0xEC, CHR 0x8A, CHR 0xB5,
     CHR 0xEB, CHR 0x8B, CHR 0x88, CHR 0xEB, CHR 0x8B, CHR 0xA4] @ ''.''"

definition msg_server_error :: string where
  "msg_server_error =
     [CHR 0xEC, CHR 0x84, CHR 0x9C, CHR 0xEB, CHR 0xB2, CHR 0x84] @ '' '' @ [CHR 0xEC, CHR 0x98, CHR 0xA4,
     CHR 0xEB, CHR 0xA5, CHR 0x98]"

definition msg_enter_token :: string where
  "msg_enter_token =
     [CHR 0xEC, CHR 0xA1, CHR 0xB0, CHR 0xED, CHR 0x9A, CHR 0x8C, CHR 0xED, CHR 0x86, CHR 0xA0, CHR 0xED,
     CHR 0x81, CHR 0xB0, CHR 0xEC, CHR 0x9D, CHR 0x84] @ '' '' @ [CHR 0xEC, CHR 0x9E, CHR 0x85, CHR 0xEB,
     CHR 0xA0, CHR 0xA5, CHR 0xED, CHR 0x95, CHR 0x98, CHR 0xEC, CHR 0x84, CHR 0xB8, CHR 0xEC, CHR 0x9A,
     CHR 0x94] @ ''.''"

definition msg_invalid_token :: string where
  "msg_invalid_token =
     [CHR 0xEC, CHR 0xA1, CHR 0xB0, CHR 0xED, CHR 0x9A, CHR 0x8C, CHR 0xED, CHR 0x86, CHR 0xA0, CHR 0xED,
     CHR 0x81, CHR 0xB0, CHR 0xEC, CHR 0x9D, CHR 0xB4] @ '' '' @ [CHR 0xEC, CHR 0x9C, CHR 0xA0, CHR 0xED,
     CHR 0x9A, CHR 0xA8, CHR 0xED, CHR 0x95, CHR 0x98, CHR 0xEC, CHR 0xA7, CHR 0x80] @ '' '' @ [CHR 0xEC,
     CHR 0x95, CHR 0x8A, CHR 0xEC, CHR 0x8A, CHR 0xB5, CHR 0xEB, CHR 0x8B, CHR 0x88, CHR 0xEB, CHR 0x8B,
     CHR 0xA4] @ ''. '' @ [CHR 0xEB, CHR 0x8B, CHR 0xA4, CHR 0xEC, CHR 0x8B, CHR 0x9C] @ '' '' @ [CHR 0xED,
     CHR 0x99, CHR 0x95, CHR 0xEC, CHR 0x9D, CHR 0xB8, CHR 0xED, CHR 0x95, CHR 0xB4, CHR 0xEC, CHR 0xA3,
     CHR 0xBC, CHR 0xEC, CHR 0x84, CHR 0xB8, CHR 0xEC, CHR 0x9A, CHR 0x94] @ ''.''"

definition msg_network :: string where
  "msg_network =
     [CHR 0xEB, CHR 0x84, CHR 0xA4, CHR 0xED, CHR 0x8A, CHR 0xB8, CHR 0xEC, CHR 0x9B, CHR 0x8C, CHR 0xED,
     CHR 0x81, CHR 0xAC] @ '' '' @ [CHR 0xEC, CHR 0x98, CHR 0xA4, CHR 0xEB, CHR 0xA5, CHR 0x98, CHR 0xEA,
     CHR 0xB0, CHR 0x80] @ '' '' @ [CHR 0xEB, CHR 0xB0, CHR 0x9C, CHR 0xEC, CHR 0x83, CHR 0x9D, CHR 0xED,
     CHR 0x96, CHR 0x88, CHR 0xEC, CHR 0x8A, CHR 0xB5, CHR 0xEB, CHR 0x8B, CHR 0x88, CHR 0xEB, CHR 0x8B,
     CHR 0xA4] @ ''.''"

definition msg_connect_error :: string where
  "msg_connect_error =
     [CHR 0xEC, CHR 0x97, CHR 0xB0, CHR 0xEB, CHR 0x8F, CHR 0x99] @ '' '' @ [CHR 0xEC, CHR 0xA4, CHR 0x91] @
     '' '' @ [CHR 0xEC, CHR 0x98, CHR 0xA4, CHR 0xEB, CHR 0xA5, CHR 0x98, CHR 0xEA, CHR 0xB0, CHR 0x80] @
     '' '' @ [CHR 0xEB, CHR 0xB0, CHR 0x9C, CHR 0xEC, CHR 0x83, CHR 0x9D, CHR 0xED, CHR 0x96, CHR 0x88,
     CHR 0xEC, CHR 0x8A, CHR 0xB5, CHR 0xEB, CHR 0x8B, CHR 0x88, CHR 0xEB, CHR 0x8B, CHR 0xA4] @ ''.''"

definition msg_connected :: string where
  "msg_connected =
     [CHR 0xEC, CHR 0x97, CHR 0xB0, CHR 0xEB, CHR 0x8F, CHR 0x99] @ '' '' @ [CHR 0xEC, CHR 0x99, CHR 0x84,
     CHR 0xEB, CHR 0xA3, CHR 0x8C] @ ''! '' @ [CHR 0xEC, CHR 0x9D, CHR 0xB4, CHR 0xEC, CHR 0xA0, CHR 0x9C] @
     '' '' @ [CHR 0xEC, CHR 0xB1, CHR 0x84, CHR 0xED, CHR 0x8C, CHR 0x85, CHR 0xEC, CHR 0x97, CHR 0x90,
     CHR 0xEC, CHR 0x84, CHR 0x9C] @ '' DJ CLASS'' @ [CHR 0xEA, CHR 0xB0, CHR 0x80] @ '' '' @ [CHR 0xED,
     CHR 0x91, CHR 0x9C, CHR 0xEC, CHR 0x8B, CHR 0x9C, CHR 0xEB, CHR 0x90, CHR 0xA9, CHR 0xEB, CHR 0x8B,
     CHR 0x88, CHR 0xEB, CHR 0x8B, CHR 0xA4] @ ''.''"

definition msg_not_linked :: string where
  "msg_not_linked =
     [CHR 0xEB, CHR 0xA8, CHR 0xBC, CHR 0xEC, CHR 0xA0, CHR 0x80] @ '' V-ARCHIVE'' @ [CHR 0xEB, CHR 0xA5,
     CHR 0xBC] @ '' '' @ [CHR 0xEC, CHR 0x97, CHR 0xB0, CHR 0xEB, CHR 0x8F, CHR 0x99, CHR 0xED, CHR 0x95,
     CHR 0xB4, CHR 0xEC, CHR 0xA3, CHR 0xBC, CHR 0xEC, CHR 0x84, CHR 0xB8, CHR 0xEC, CHR 0x9A, CHR 0x94] @
     ''.''"

definition msg_sync_error :: string where
  "msg_sync_error =
     [CHR 0xEB, CHR 0x8F, CHR 0x99, CHR 0xEA, CHR 0xB8, CHR 0xB0, CHR 0xED, CHR 0x99, CHR 0x94] @ '' '' @
     [CHR 0xEC, CHR 0xA4, CHR 0x91] @ '' '' @ [CHR 0xEC, CHR 0x98, CHR 0xA4, CHR 0xEB, CHR 0xA5, CHR 0x98,
     CHR 0xEA, CHR 0xB0, CHR 0x80] @ '' '' @ [CHR 0xEB, CHR 0xB0, CHR 0x9C, CHR 0xEC, CHR 0x83, CHR 0x9D,
     CHR 0xED, CHR 0x96, CHR 0x88, CHR 0xEC, CHR 0x8A, CHR 0xB5, CHR 0xEB, CHR 0x8B, CHR 0x88, CHR 0xEB,
     CHR 0x8B, CHR 0xA4] @ ''.''"

definition msg_nickname_changed :: string where
  "msg_nickname_changed =
     ''DJ CLASS '' @ [CHR 0xEC, CHR 0xA0, CHR 0x95, CHR 0xEB, CHR 0xB3, CHR 0xB4, CHR 0xEB, CHR 0xA5,
     CHR 0xBC] @ '' '' @ [CHR 0xEC, CHR 0xB0, CHR 0xBE, CHR 0xEC, CHR 0x9D, CHR 0x84] @ '' '' @ [CHR 0xEC,
     CHR 0x88, CHR 0x98] @ '' '' @ [CHR 0xEC, CHR 0x97, CHR 0x86, CHR 0xEC, CHR 0x8A, CHR 0xB5, CHR 0xEB,
     CHR 0x8B, CHR 0x88, CHR 0xEB, CHR 0x8B, CHR 0xA4] @ ''. V-ARCHIVE '' @ [CHR 0xEB, CHR 0x8B, CHR 0x89,
     CHR 0xEB, CHR 0x84, CHR 0xA4, CHR 0xEC, CHR 0x9E, CHR 0x84, CHR 0xEC, CHR 0x9D, CHR 0xB4] @ '' '' @
     [CHR 0xEB, CHR 0xB0, CHR 0x94, CHR 0xEB, CHR 0x80, CHR 0x8C, CHR 0xEC, CHR 0x97, CHR 0x88, CHR 0xEB,
     CHR 0x8B, CHR 0xA4, CHR 0xEB, CHR 0xA9, CHR 0xB4] @ '' '' @ [CHR 0xEB, CHR 0x8B, CHR 0xA4, CHR 0xEC,
     CHR 0x8B, CHR 0x9C] @ '' '' @ [CHR 0xEC, CHR 0x97, CHR 0xB0, CHR 0xEB, CHR 0x8F, CHR 0x99, CHR 0xED,
     CHR 0x95, CHR 0xB4, CHR 0xEC, CHR 0xA3, CHR 0xBC, CHR 0xEC, CHR 0x84, CHR 0xB8, CHR 0xEC, CHR 0x9A,
     CHR 0x94] @ ''.''"

definition msg_nothing_to_sync :: string where
  "msg_nothing_to_sync =
     [CHR 0xEB, CHR 0x8F, CHR 0x99, CHR 0xEA, CHR 0xB8, CHR 0xB0, CHR 0xED, CHR 0x99, CHR 0x94, CHR 0xED,
     CHR 0x95, CHR 0xA0] @ '' DJ CLASS '' @ [CHR 0xEC, CHR 0xA0, CHR 0x95, CHR 0xEB, CHR 0xB3, CHR 0xB4,
     CHR 0xEA, CHR 0xB0, CHR 0x80] @ '' '' @ [CHR 0xEC, CHR 0x97, CHR 0x86, CHR 0xEC, CHR 0x8A, CHR 0xB5,
     CHR 0xEB, CHR 0x8B, CHR 0x88, CHR 0xEB, CHR 0x8B, CHR 0xA4] @ ''.''"

definition msg_synced :: string where
  "msg_synced =
     ''DJ CLASS '' @ [CHR 0xEB, CHR 0x8F, CHR 0x99, CHR 0xEA, CHR 0xB8, CHR 0xB0, CHR 0xED, CHR 0x99,
     CHR 0x94] @ '' '' @ [CHR 0xEC, CHR 0x99, CHR 0x84, CHR 0xEB, CHR 0xA3, CHR 0x8C] @ '': ''"

definition msg_unlink_error :: string where
  "msg_unlink_error =
     [CHR 0xEC, CHR 0x97, CHR 0xB0, CHR 0xEB, CHR 0x8F, CHR 0x99] @ '' '' @ [CHR 0xED, CHR 0x95, CHR 0xB4,
     CHR 0xEC, CHR 0xA0, CHR 0x9C] @ '' '' @ [CHR 0xEC, CHR 0xA4, CHR 0x91] @ '' '' @ [CHR 0xEC, CHR 0x98,
     CHR 0xA4, CHR 0xEB, CHR 0xA5, CHR 0x98, CHR 0xEA, CHR 0xB0, CHR 0x80] @ '' '' @ [CHR 0xEB, CHR 0xB0,
     CHR 0x9C, CHR 0xEC, CHR 0x83, CHR 0x9D, CHR 0xED, CHR 0x96, CHR 0x88, CHR 0xEC, CHR 0x8A, CHR 0xB5,
     CHR 0xEB, CHR 0x8B, CHR 0x88, CHR 0xEB, CHR 0x8B, CHR 0xA4] @ ''.''"

definition msg_unlinked :: string where
  "msg_unlinked =
     ''V-ARCHIVE '' @ [CHR 0xEC, CHR 0x97, CHR 0xB0, CHR 0xEB, CHR 0x8F, CHR 0x99, CHR 0xEC, CHR 0x9D,
     CHR 0x84] @ '' '' @ [CHR 0xED, CHR 0x95, CHR 0xB4, CHR 0xEC, CHR 0xA0, CHR 0x9C, CHR 0xED, CHR 0x96,
     CHR 0x88, CHR 0xEC, CHR 0x8A, CHR 0xB5, CHR 0xEB, CHR 0x8B, CHR 0x88, CHR 0xEB, CHR 0x8B, CHR 0xA4] @
     ''.''"

definition msg_bad_button :: string where
  "msg_bad_button =
     [CHR 0xEC, CHR 0x9E, CHR 0x98, CHR 0xEB, CHR 0xAA, CHR 0xBB, CHR 0xEB, CHR 0x90, CHR 0x9C] @ '' '' @
     [CHR 0xEB, CHR 0xB2, CHR 0x84, CHR 0xED, CHR 0x8A, CHR 0xBC] @ '' '' @ [CHR 0xEC, CHR 0x84, CHR 0xA0,
     CHR 0xED, CHR 0x83, CHR 0x9D, CHR 0xEC, CHR 0x9E, CHR 0x85, CHR 0xEB, CHR 0x8B, CHR 0x88, CHR 0xEB,
     CHR 0x8B, CHR 0xA4] @ ''.''"

definition msg_save_error :: string where
  "msg_save_error =
     [CHR 0xEC, CHR 0xA0, CHR 0x80, CHR 0xEC, CHR 0x9E, CHR 0xA5] @ '' '' @ [CHR 0xEC, CHR 0xA4, CHR 0x91] @
     '' '' @ [CHR 0xEC, CHR 0x98, CHR 0xA4, CHR 0xEB, CHR 0xA5, CHR 0x98, CHR 0xEA, CHR 0xB0, CHR 0x80] @
     '' '' @ [CHR 0xEB, CHR 0xB0, CHR 0x9C, CHR 0xEC, CHR 0x83, CHR 0x9D, CHR 0xED, CHR 0x96, CHR 0x88,
     CHR 0xEC, CHR 0x8A, CHR 0xB5, CHR 0xEB, CHR 0x8B, CHR 0x88, CHR 0xEB, CHR 0x8B, CHR 0xA4] @ ''.''"

definition msg_too_many_widgets :: string where
  "msg_too_many_widgets =
     [CHR 0xEC, CHR 0x9C, CHR 0x84, CHR 0xEC, CHR 0xA0, CHR 0xAF] @ '' '' @ [CHR 0xEC, CHR 0x97, CHR 0xB0,
     CHR 0xEA, CHR 0xB2, CHR 0xB0, CHR 0xEC, CHR 0x9D, CHR 0xB4] @ '' '' @ [CHR 0xEB, CHR 0x84, CHR 0x88,
     CHR 0xEB, CHR 0xAC, CHR 0xB4] @ '' '' @ [CHR 0xEB, CHR 0xA7, CHR 0x8E, CHR 0xEC, CHR 0x8A, CHR 0xB5,
     CHR 0xEB, CHR 0x8B, CHR 0x88, CHR 0xEB, CHR 0x8B, CHR 0xA4] @ ''.''"

definition msg_shutting_down :: string where
  "msg_shutting_down =
     [CHR 0xEC, CHR 0x84, CHR 0x9C, CHR 0xEB, CHR 0xB2, CHR 0x84, CHR 0xEA, CHR 0xB0, CHR 0x80] @ '' '' @
     [CHR 0xEC, CHR 0xA2, CHR 0x85, CHR 0xEB, CHR 0xA3, CHR 0x8C] @ '' '' @ [CHR 0xEC, CHR 0xA4, CHR 0x91,
     CHR 0xEC, CHR 0x9E, CHR 0x85, CHR 0xEB, CHR 0x8B, CHR 0x88, CHR 0xEB, CHR 0x8B, CHR 0xA4]"

definition ctx_dashboard :: string where
  "ctx_dashboard =
     [CHR 0xEC, CHR 0x9C, CHR 0x84, CHR 0xEC, CHR 0xA0, CHR 0xAF] @ '' '' @ [CHR 0xEC, CHR 0x84, CHR 0xA4,
     CHR 0xEC, CHR 0xA0, CHR 0x95, CHR 0xEC, CHR 0x9D, CHR 0x84] @ '' '' @ [CHR 0xEC, CHR 0x9C, CHR 0x84,
     CHR 0xED, CHR 0x95, CHR 0xB4]"

definition ctx_link :: string where
  "ctx_link =
     ''DJ CLASS '' @ [CHR 0xEC, CHR 0x97, CHR 0xB0, CHR 0xEB, CHR 0x8F, CHR 0x99, CHR 0xEC, CHR 0x9D,
     CHR 0x84] @ '' '' @ [CHR 0xEC, CHR 0x9C, CHR 0x84, CHR 0xED, CHR 0x95, CHR 0xB4]"

definition flash_closed :: string where
  "flash_closed =
     [CHR 0xEC, CHR 0x9C, CHR 0x84, CHR 0xEC, CHR 0xA0, CHR 0xAF, CHR 0xEC, CHR 0x9D, CHR 0xB4] @ '' '' @
     [CHR 0xEC, CHR 0x97, CHR 0xB4, CHR 0xEB, CHR 0xA0, CHR 0xA4] @ '' '' @ [CHR 0xEC, CHR 0x9E, CHR 0x88,
     CHR 0xEC, CHR 0xA7, CHR 0x80] @ '' '' @ [CHR 0xEC, CHR 0x95, CHR 0x8A, CHR 0xEC, CHR 0x9D, CHR 0x80] @
     '' '' @ [CHR 0xEC, CHR 0xB1, CHR 0x84, CHR 0xEB, CHR 0x84, CHR 0x90, CHR 0xEC, CHR 0x9E, CHR 0x85,
     CHR 0xEB, CHR 0x8B, CHR 0x88, CHR 0xEB, CHR 0x8B, CHR 0xA4] @ ''. '' @ [CHR 0xEB, CHR 0xA8, CHR 0xBC,
     CHR 0xEC, CHR 0xA0, CHR 0x80] @ '' '' @ [CHR 0xEC, CHR 0x9C, CHR 0x84, CHR 0xEC, CHR 0xA0, CHR 0xAF,
     CHR 0xEC, CHR 0x9D, CHR 0x84] @ '' '' @ [CHR 0xEC, CHR 0x97, CHR 0xAC, CHR 0xEC, CHR 0x84, CHR 0xB8,
     CHR 0xEC, CHR 0x9A, CHR 0x94] @ ''.''"

definition flash_sent :: string where
  "flash_sent =
     '' '' @ [CHR 0xEC, CHR 0x9D, CHR 0xB4, CHR 0xEB, CHR 0xA6, CHR 0x84, CHR 0xEC, CHR 0x9C, CHR 0xBC,
     CHR 0xEB, CHR 0xA1, CHR 0x9C] @ '' '' @ [CHR 0xEB, CHR 0xB3, CHR 0xB4, CHR 0xEB, CHR 0x83, CHR 0x88,
     CHR 0xEC, CHR 0x8A, CHR 0xB5, CHR 0xEB, CHR 0x8B, CHR 0x88, CHR 0xEB, CHR 0x8B, CHR 0xA4] @ ''.''"

record dev_sender =
  ds_id :: string
  ds_nickname :: string
  ds_label :: string

definition devSenders :: "dev_sender list" where
  "devSenders = [
     \<lparr>ds_id = ''dev-showstopper'',
      ds_nickname =
        ''DEV '' @ [CHR 0xEC, CHR 0x87, CHR 0xBC, CHR 0xEC, CHR 0x8A, CHR 0xA4, CHR 0xED, CHR 0x86, CHR 0xA0,
        CHR 0xED, CHR 0x8D, CHR 0xBC],
      ds_label =
        [CHR 0xEC, CHR 0x97, CHR 0xB0, CHR 0xEB, CHR 0x8F, CHR 0x99, CHR 0xEB, CHR 0x90, CHR 0xA8] @
        '': 4B SS II / 8B HL I ('' @ [CHR 0xEC, CHR 0x84, CHR 0xA0, CHR 0xED, CHR 0x98, CHR 0xB8] @ '' 8B)''\<rparr>,
     \<lparr>ds_id = ''dev-theory'',
      ds_nickname =
        ''DEV '' @ [CHR 0xEC, CHR 0x9D, CHR 0xB4, CHR 0xEB, CHR 0xA1, CHR 0xA0, CHR 0xEC, CHR 0xB9, CHR 0x98],
      ds_label =
        [CHR 0xEC, CHR 0x97, CHR 0xB0, CHR 0xEB, CHR 0x8F, CHR 0x99, CHR 0xEB, CHR 0x90, CHR 0xA8] @
        '': 5B LoD '' @ [CHR 0xEC, CHR 0x9D, CHR 0xB4, CHR 0xEB, CHR 0xA1, CHR 0xA0, CHR 0xEC, CHR 0xB9,
        CHR 0x98]\<rparr>,
     \<lparr>ds_id = ''dev-beginner'',
      ds_nickname =
        ''DEV '' @ [CHR 0xEB, CHR 0xB9, CHR 0x84, CHR 0xEA, CHR 0xB8, CHR 0xB0, CHR 0xEB, CHR 0x84, CHR 0x88],
      ds_label =
        [CHR 0xEC, CHR 0x97, CHR 0xB0, CHR 0xEB, CHR 0x8F, CHR 0x99, CHR 0xEB, CHR 0x90, CHR 0xA8] @
        '': 6B BEGINNER''\<rparr>,
     \<lparr>ds_id = ''dev-unsynced'',
      ds_nickname =
        ''DEV '' @ [CHR 0xEB, CHR 0x8F, CHR 0x99, CHR 0xEA, CHR 0xB8, CHR 0xB0, CHR 0xED, CHR 0x99, CHR 0x94,
        CHR 0xEC, CHR 0xA0, CHR 0x84],
      ds_label =
        [CHR 0xEC, CHR 0x97, CHR 0xB0, CHR 0xEB, CHR 0x8F, CHR 0x99, CHR 0xEB, CHR 0x90, CHR 0xA8] @ '',
        DJ CLASS '' @ [CHR 0xEC, CHR 0x97, CHR 0x86, CHR 0xEC, CHR 0x9D, CHR 0x8C]\<rparr>,
     \<lparr>ds_id = ''dev-unlinked'',
      ds_nickname =
        ''DEV '' @ [CHR 0xEB, CHR 0xAF, CHR 0xB8, CHR 0xEC, CHR 0x9D, CHR 0xB8, CHR 0xEC, CHR 0xA6, CHR 0x9D],
      ds_label =
        [CHR 0xEB, CHR 0xAF, CHR 0xB8, CHR 0xEC, CHR 0x9D, CHR 0xB8, CHR 0xEC, CHR 0xA6, CHR 0x9D] @ '' (DB'' @
        [CHR 0xEC, CHR 0x97, CHR 0x90] @ '' '' @ [CHR 0xEC, CHR 0x97, CHR 0x86, CHR 0xEC, CHR 0x9D, CHR 0x8C] @
        '')''\<rparr>]"

section \<open>Server, environment, state\<close>

record server =
  sv_client :: client
  sv_key :: box
  sv_base_url :: string
  sv_https :: bool
  sv_dev :: bool

text \<open>
  What a request meets outside: the user id in its session (0 for none) and whether the session manager can
  renew its token, the random bytes, the networks of Chzzk and V-ARCHIVE, the outcome of pinging the database.
\<close>

record environment =
  en_session_user :: int
  en_renew_ok :: bool
  en_state_bytes :: "octet list"
  en_nonces :: "octet list \<times> octet list"
  en_exchange :: api_http
  en_me :: api_http
  en_lookup :: "string \<Rightarrow> va_error + va_user"
  en_fetch :: "string \<Rightarrow> va_class list"
  en_ping_ok :: bool

record web_state =
  wb_app :: app
  wb_limiter :: limiter
  wb_hub :: hub

definition web_now :: "web_state \<Rightarrow> int" where
  "web_now st = w_now (snd (wb_app st))"

datatype session_op = RenewToken | PutUser int | DestroySession

datatype body =
    NoBody
  | Text string
  | LandingPage
  | LoginPage string string
  | DashboardPage string string bool
  | LinkPage user_row card
  | LinkCard card string string
  | WidgetPage string
  | WidgetStream nat
  | DevPage string string
  | StaticFile string

type_synonym outcome = "(body response \<times> session_op list \<times> web_state) option"
type_synonym handler = "environment \<Rightarrow> user_row option \<Rightarrow> web_request \<Rightarrow> body response \<Rightarrow> web_state \<Rightarrow> outcome"

definition blank :: "body response" where
  "blank = \<lparr>rp_status = 200, rp_header = [], rp_cookies = [], rp_body = NoBody\<rparr>"

definition http_error :: "string \<Rightarrow> int \<Rightarrow> body response \<Rightarrow> body response" where
  "http_error text code rsp =
     (set_header ''X-Content-Type-Options'' ''nosniff'' (set_header ''Content-Type'' ''text/plain; charset=utf-8'' rsp))
       \<lparr>rp_status := code, rp_body := Text (text @ [CHR 0x0A])\<rparr>"

definition not_found :: "body response \<Rightarrow> body response" where
  "not_found rsp = http_error ''404 page not found'' 404 rsp"

text \<open>\<open>renderPage\<close> and \<open>render\<close>.\<close>

definition render :: "int \<Rightarrow> body \<Rightarrow> body response \<Rightarrow> body response" where
  "render status b rsp = (set_header ''Content-Type'' ''text/html; charset=utf-8'' rsp)\<lparr>rp_status := status, rp_body := b\<rparr>"

definition query :: "web_request \<Rightarrow> string \<Rightarrow> string" where
  "query r k = get_or_empty (req_query r) k"

definition FormValue :: "web_request \<Rightarrow> string \<Rightarrow> string" where
  "FormValue r k = get_or_empty (req_form r) k"

text \<open>\<open>Limiter.Allow\<close> with the window of a minute, on the server's limiter.\<close>

definition allow :: "web_request \<Rightarrow> string \<Rightarrow> int \<Rightarrow> web_state \<Rightarrow> bool \<times> web_state" where
  "allow r scope limit st =
     (case Allow (request.truncate r) scope limit 60000000000 (web_now st) (wb_limiter st) of
        (ok, l) \<Rightarrow> (ok, st\<lparr>wb_limiter := l\<rparr>))"

definition reading :: "'a stmt \<Rightarrow> web_state \<Rightarrow> (db_error + 'a) \<times> web_state" where
  "reading q st = (case read_op q (wb_app st) of (r, a) \<Rightarrow> (r, st\<lparr>wb_app := a\<rparr>))"

section \<open>Session user and login check\<close>

definition withUser :: "handler \<Rightarrow> environment \<Rightarrow> web_request \<Rightarrow> body response \<Rightarrow> web_state \<Rightarrow> outcome" where
  "withUser h env r rsp0 st =
     (let rsp = set_header ''Cache-Control'' ''no-store'' rsp0 in
      if en_session_user env = 0 then h env None r rsp st
      else (case reading (GetUserByID (en_session_user env)) st of
              (Inr u, st1) \<Rightarrow> h env (Some u) r rsp st1
            | (Inl e, st1) \<Rightarrow>
                if e = ErrNoRows then
                  (case h env None r rsp st1 of None \<Rightarrow> None
                   | Some (rsp1, ops, st2) \<Rightarrow> Some (rsp1, DestroySession # ops, st2))
                else Some (http_error msg_server_error 500 rsp, [], st1)))"

definition login_target :: "web_request \<Rightarrow> string" where
  "login_target r =
     (let header = get_or_empty (req_header r);
          next_path =
            (if header ''HX-Request'' = ''true'' \<and> header ''HX-Boosted'' \<noteq> ''true'' then
               (case url_parse (header ''HX-Current-URL'') of
                  Some cur \<Rightarrow> if url_path cur \<noteq> '''' then url_path cur else req_path r
                | None \<Rightarrow> req_path r)
             else req_path r)
      in ''/login/?next='' @ QueryEscape next_path)"

definition requireLogin :: "handler \<Rightarrow> handler" where
  "requireLogin h env cur r rsp st =
     (if cur \<noteq> None then h env cur r rsp st
      else if get_or_empty (req_header r) ''HX-Request'' = ''true''
      then Some ((set_header ''HX-Redirect'' (login_target r) rsp)\<lparr>rp_status := 200\<rparr>, [], st)
      else Some (redirect r (login_target r) 302 rsp, [], st))"

section \<open>Login and logout\<close>

definition stateCookie :: string where "stateCookie = ''oauth_state''"
definition nextCookie :: string where "nextCookie = ''oauth_next''"
definition oauthPath :: string where "oauthPath = ''/api/auth/chzzk/''"

definition oauthCookie :: "server \<Rightarrow> string \<Rightarrow> string \<Rightarrow> int \<Rightarrow> set_cookie" where
  "oauthCookie sv name val maxAge =
     \<lparr>sc_name = name, sc_value = written_value val, sc_path = oauthPath, sc_max_age = maxAge,
      sc_http_only = True, sc_secure = sv_https sv, sc_lax = True\<rparr>"

definition hex_encode :: "octet list \<Rightarrow> string" where
  "hex_encode bs = concat (map (\<lambda>b. [lower_hex (unat b div 16), lower_hex (unat b mod 16)]) bs)"

definition startLogin :: "server \<Rightarrow> handler" where
  "startLogin sv env cur r rsp st =
     (let state = hex_encode (en_state_bytes env);
          rsp1 = add_cookie (oauthCookie sv stateCookie state 300) rsp;
          rsp2 = add_cookie (oauthCookie sv nextCookie (safeNextPath (query r ''next'') ''/dashboard/'') 300) rsp1
      in Some (redirect r (AuthorizeURL (sv_client sv) state) 302 rsp2, [], st))"

text \<open>The user and the channel with the encrypted tokens, in one transaction; its result is the user.\<close>

definition save_login :: "string \<Rightarrow> string \<Rightarrow> string \<Rightarrow> string \<Rightarrow> int \<Rightarrow> bool \<Rightarrow> user_row act" where
  "save_login channelID nickname access refresh expires held =
     and_then (run_stmt (UpsertUser channelID nickname)) (\<lambda>u.
     and_then (run_stmt (UpsertChannel (u_id u) channelID (Some access) (Some refresh) (Some expires))) (\<lambda>x.
     return_ok u))"

definition callback :: "server \<Rightarrow> handler" where
  "callback sv env cur r rsp0 st0 =
     (case allow r ''auth'' 10 st0 of
        (False, st) \<Rightarrow> Some (http_error msg_too_many 429 rsp0, [], st)
      | (True, st) \<Rightarrow>
        (let code = query r ''code''; state = query r ''state'';
             stored = Cookie r stateCookie;
             next_path = (case Cookie r nextCookie of Some v \<Rightarrow> safeNextPath v ''/dashboard/'' | None \<Rightarrow> ''/dashboard/'');
             rsp = add_cookie (oauthCookie sv nextCookie '''' (- 1)) (add_cookie (oauthCookie sv stateCookie '''' (- 1)) rsp0);
             fail = (\<lambda>ops st. Some (redirect r ''/?error=auth_failed'' 302 rsp, ops, st)) in
         if stored = None \<or> code = '''' \<or> state = '''' \<or> the stored \<noteq> state then fail [] st
         else
           (case ExchangeCode (sv_client sv) (en_exchange env) code state of
              Inl e \<Rightarrow> fail [] st
            | Inr tok \<Rightarrow>
              (case Me (sv_client sv) (en_me env) (tk_access tok) of
                 Inl e \<Rightarrow> fail [] st
               | Inr me \<Rightarrow>
                 (let access = Encrypt (sv_key sv) (fst (en_nonces env)) (tk_access tok);
                      refresh = Encrypt (sv_key sv) (snd (en_nonces env)) (tk_refresh tok);
                      expires = unixepoch (web_now st) + tk_expires_in tok in
                  (case WriteTx False (save_login (cz_channel_id me) (cz_nickname me) access refresh expires) (snd (wb_app st)) of
                     (Inl e, w) \<Rightarrow> fail [] (st\<lparr>wb_app := (fst (wb_app st), w)\<rparr>)
                   | (Inr user, w) \<Rightarrow>
                     (let st1 = st\<lparr>wb_app := (fst (wb_app st), w)\<rparr> in
                      if \<not> en_renew_ok env then fail [RenewToken] st1
                      else Some (redirect r next_path 302 rsp, [RenewToken, PutUser (u_id user)], st1))))))))"

definition logout :: handler where
  "logout env cur r rsp st = Some (redirect r ''/'' 303 rsp, [DestroySession], st)"

section \<open>Pages\<close>

definition landing :: handler where
  "landing env cur r rsp st = Some (render 200 LandingPage rsp, [], st)"

definition loginContext :: "(string \<times> string) list" where
  "loginContext = [(''/dashboard/'', ctx_dashboard), (''/link/'', ctx_link)]"

definition loginPage :: handler where
  "loginPage env cur r rsp st =
     (if cur \<noteq> None then Some (redirect r ''/dashboard/'' 302 rsp, [], st)
      else Some (render 200 (LoginPage (safeNextPath (query r ''next'') ''/dashboard/'')
                   (get_or_empty loginContext (query r ''next''))) rsp, [], st))"

definition dashboard :: "server \<Rightarrow> handler" where
  "dashboard sv env cur r rsp st =
     (case cur of None \<Rightarrow> None
      | Some u \<Rightarrow>
        (case reading (GetChannelByChzzkID (u_chzzk_id u)) st of
           (Inr ch, st1) \<Rightarrow>
             Some (render 200 (DashboardPage (sv_base_url sv @ ''/widget/'' @ ch_chzzk_id ch @ ''/'') (ch_chzzk_id ch) (sv_dev sv)) rsp,
                   [], st1)
         | (Inl e, st1) \<Rightarrow>
             if e \<noteq> ErrNoRows then Some (http_error msg_server_error 500 rsp, [], st1)
             else Some (render 200 (DashboardPage '''' '''' (sv_dev sv)) rsp, [], st1)))"

definition healthz :: "environment \<Rightarrow> body response \<Rightarrow> web_state \<Rightarrow> outcome" where
  "healthz env rsp st =
     (if en_ping_ok env then Some (rsp\<lparr>rp_body := Text ''ok''\<rparr>, [], st)
      else Some (http_error ''db unavailable'' 503 rsp, [], st))"

definition widgetPage :: "string \<Rightarrow> body response \<Rightarrow> web_state \<Rightarrow> outcome" where
  "widgetPage channelID rsp st =
     Some (render 200 (WidgetPage channelID) (set_header ''Content-Security-Policy'' widgetCSP rsp), [], st)"

section \<open>The link card\<close>

definition on_app :: "'a op \<Rightarrow> web_state \<Rightarrow> ((link_error + 'a) \<times> web_state) option" where
  "on_app f st = (case f (wb_app st) of None \<Rightarrow> None | Some (r, a) \<Rightarrow> Some (r, st\<lparr>wb_app := a\<rparr>))"

definition linkPage :: handler where
  "linkPage env cur r rsp st =
     (case cur of None \<Rightarrow> None
      | Some u \<Rightarrow>
        (case Card (u_id u) (u_preferred u) (wb_app st) of
           (Inl e, a) \<Rightarrow> Some (http_error msg_server_error 500 rsp, [], st\<lparr>wb_app := a\<rparr>)
         | (Inr crd, a) \<Rightarrow> Some (render 200 (LinkPage u crd) rsp, [], st\<lparr>wb_app := a\<rparr>)))"

definition renderCardStatus :: "user_row \<Rightarrow> int \<Rightarrow> string \<Rightarrow> string \<Rightarrow> body response \<Rightarrow> web_state \<Rightarrow> outcome" where
  "renderCardStatus u0 status msg msgType rsp st =
     (case reading (GetUserByID (u_id u0)) st of
        (Inl e, st1) \<Rightarrow> Some (http_error msg_server_error 500 rsp, [], st1)
      | (Inr u, st1) \<Rightarrow>
        (case Card (u_id u) (u_preferred u) (wb_app st1) of
           (Inl e, a) \<Rightarrow> Some (http_error msg_server_error 500 rsp, [], st1\<lparr>wb_app := a\<rparr>)
         | (Inr crd, a) \<Rightarrow> Some (render status (LinkCard crd msg msgType) rsp, [], st1\<lparr>wb_app := a\<rparr>)))"

definition renderCard :: "user_row \<Rightarrow> string \<Rightarrow> string \<Rightarrow> body response \<Rightarrow> web_state \<Rightarrow> outcome" where
  "renderCard u msg msgType rsp st = renderCardStatus u 200 msg msgType rsp st"

definition tooMany :: "user_row \<Rightarrow> body response \<Rightarrow> web_state \<Rightarrow> outcome" where
  "tooMany u rsp st = renderCardStatus u 429 msg_too_many ''error'' rsp st"

definition linkConnect :: handler where
  "linkConnect env cur r rsp st0 =
     (case cur of None \<Rightarrow> None
      | Some u \<Rightarrow>
        (case allow r ''link'' 5 st0 of
           (False, st) \<Rightarrow> tooMany u rsp st
         | (True, st) \<Rightarrow>
           (let token = trim_space (FormValue r ''token'') in
            if token = '''' then renderCard u msg_enter_token ''error'' rsp st
            else (case on_app (Connect (en_lookup env) (en_fetch env) (u_id u) (u_chzzk_id u) token) st of
                    None \<Rightarrow> None
                  | Some (Inl e, st1) \<Rightarrow>
                      if e = LVArchive ErrInvalidToken then renderCard u msg_invalid_token ''error'' rsp st1
                      else if e = LVArchive ErrUnavailable then renderCard u msg_network ''error'' rsp st1
                      else renderCard u msg_connect_error ''error'' rsp st1
                  | Some (Inr x, st1) \<Rightarrow> renderCard u msg_connected ''success'' rsp st1))))"

definition linkSync :: handler where
  "linkSync env cur r rsp st0 =
     (case cur of None \<Rightarrow> None
      | Some u \<Rightarrow>
        (case allow r ''sync'' 3 st0 of
           (False, st) \<Rightarrow> tooMany u rsp st
         | (True, st) \<Rightarrow>
           (case on_app (Sync (en_fetch env) (u_id u) (u_chzzk_id u)) st of
              None \<Rightarrow> None
            | Some (Inl e, st1) \<Rightarrow>
                if e = ErrNotLinked then renderCard u msg_not_linked ''error'' rsp st1
                else renderCard u msg_sync_error ''error'' rsp st1
            | Some (Inr res, st1) \<Rightarrow>
                if \<not> sr_ok res \<and> sr_stale res then renderCard u msg_nickname_changed ''error'' rsp st1
                else if \<not> sr_ok res then renderCard u msg_nothing_to_sync ''error'' rsp st1
                else (case sr_highest res of None \<Rightarrow> None
                      | Some h \<Rightarrow> renderCard u (msg_synced @ itoa (row_button h) @ ''B '' @ row_class h) ''success'' rsp st1))))"

definition linkUnlink :: handler where
  "linkUnlink env cur r rsp st =
     (case cur of None \<Rightarrow> None
      | Some u \<Rightarrow>
        (case on_app (Unlink (u_id u) (u_chzzk_id u)) st of
           None \<Rightarrow> None
         | Some (Inl e, st1) \<Rightarrow> renderCard u msg_unlink_error ''error'' rsp st1
         | Some (Inr x, st1) \<Rightarrow> renderCard u msg_unlinked ''success'' rsp st1))"

definition linkPreferredButton :: handler where
  "linkPreferredButton env cur r rsp st0 =
     (case cur of None \<Rightarrow> None
      | Some u \<Rightarrow>
        (case allow r ''pref'' 10 st0 of
           (False, st) \<Rightarrow> tooMany u rsp st
         | (True, st) \<Rightarrow>
           (case on_app (SetPreferredButton (u_id u) (u_chzzk_id u) (FormValue r ''button'')) st of
              None \<Rightarrow> None
            | Some (Inl e, st1) \<Rightarrow>
                if e = ErrInvalidButton then renderCard u msg_bad_button ''error'' rsp st1
                else renderCard u msg_save_error ''error'' rsp st1
            | Some (Inr x, st1) \<Rightarrow> renderCard u '''' '''' rsp st1)))"

section \<open>Dev mode\<close>

definition dev_classes :: "(string \<times> (int \<times> string \<times> rat) list) list" where
  "dev_classes =
     [(''dev-showstopper'', [(4, ''SHOWSTOPPER II'', 9810), (8, ''HEADLINER I'', 9660)]),
      (''dev-theory'', [(5, ''THE LORD OF DJMAX'', the (f64_round 9999.9847))]),
      (''dev-beginner'', [(6, ''BEGINNER'', 120.5)]),
      (''dev-unsynced'', [])]"

fun seed_rows :: "int \<Rightarrow> (int \<times> string \<times> rat) list \<Rightarrow> unit act" where
  "seed_rows uid [] = return_ok ()"
| "seed_rows uid ((b, c, x) # rows) =
     and_then (run_stmt (UpsertDjClass uid b c None None (Some x))) (\<lambda>u. seed_rows uid rows)"

fun seed_senders :: "dev_sender list \<Rightarrow> unit act" where
  "seed_senders [] = return_ok ()"
| "seed_senders (d # ds) =
     (case map_of dev_classes (ds_id d) of
        None \<Rightarrow> seed_senders ds
      | Some rows \<Rightarrow>
          and_then (run_stmt (UpsertUser (ds_id d) (ds_nickname d))) (\<lambda>u.
          and_then (run_stmt (UpsertVarchiveLink (u_id u) (ds_nickname d) None)) (\<lambda>x.
          and_then (seed_rows (u_id u) rows) (\<lambda>x.
          and_then (if ds_id d = ''dev-showstopper'' then run_stmt (set_preferred_button (Some 8) (u_id u)) else return_ok ())
            (\<lambda>x. seed_senders ds)))))"

definition SeedDev :: "unit act" where
  "SeedDev w = WriteTx False (\<lambda>held. seed_senders devSenders) w"

definition devPage :: handler where
  "devPage env cur r rsp st = Some (render 200 (DevPage (query r ''channel'') (query r ''flash'')) rsp, [], st)"

text \<open>The loop over the senders: the flash text and the hub.\<close>

fun dev_inject :: "string \<Rightarrow> string \<Rightarrow> string \<Rightarrow> int \<Rightarrow> dev_sender list \<Rightarrow> string \<Rightarrow> hub \<Rightarrow> string \<times> hub" where
  "dev_inject ch senderID text ms [] flash h = (flash, h)"
| "dev_inject ch senderID text ms (d # ds) flash h =
     (if ds_id d \<noteq> senderID then dev_inject ch senderID text ms ds flash h
      else (case Inject ch \<lparr>cm_channel = ch, cm_sender = ds_id d, cm_nickname = ds_nickname d, cm_content = text,
                            cm_time = ms, cm_emojis = Some []\<rparr> h of
              (ok, h1) \<Rightarrow> dev_inject ch senderID text ms ds (if ok then ds_nickname d @ flash_sent else flash) h1))"

definition devChat :: handler where
  "devChat env cur r rsp st =
     (let ch = FormValue r ''channel'' in
      case dev_inject ch (FormValue r ''sender'') (FormValue r ''text'') (web_now st div 1000000) devSenders flash_closed (wb_hub st) of
        (flash, h) \<Rightarrow>
          Some (redirect r (''/dev?'' @ encode_values [(''channel'', ch), (''flash'', flash)]) 303 rsp, [], st\<lparr>wb_hub := h\<rparr>))"

end
