(* ===== verification/Widget.thy ===== *)
theory Widget
  imports Web HubProps
begin

text \<open>
  \<open>internal/web/widget.go\<close>, and the JSON of a batch (\<open>hub.go\<close>, the struct tags): how the batches of a
  subscription become the event stream a widget reads. The reader is the event-stream format of the HTML
  standard, as a reference.
\<close>

section \<open>The JSON of a batch\<close>

definition optional_int :: "int option \<Rightarrow> json" where
  "optional_int x = (case x of None \<Rightarrow> JNull | Some i \<Rightarrow> JNum (itoa i))"

definition badge_json :: "badge \<Rightarrow> json" where
  "badge_json b = JObj
     [(''button'', JNum (itoa (badge_button b))), (''class'', JStr (badge_class b)), (''rank'', JStr (badge_rank b)),
      (''power'', optional_int (badge_power b)), (''threshold'', optional_int (badge_threshold b)),
      (''isTheory'', JBool (badge_is_theory b))]"

definition badges_json :: "badges option \<Rightarrow> json" where
  "badges_json x = (case x of None \<Rightarrow> JNull
     | Some bs \<Rightarrow> JObj [(''auto'', badge_json (bs_auto bs)), (''viewer'', badge_json (bs_viewer bs))])"

definition status_text :: "status \<Rightarrow> string" where
  "status_text s = (case s of Linked \<Rightarrow> ''linked'' | Unsynced \<Rightarrow> ''unsynced'' | Unlinked \<Rightarrow> ''unlinked'')"

text \<open>\<open>json.Marshal\<close> writes the keys of a map in order.\<close>

definition message_json :: "batch_message \<Rightarrow> json" where
  "message_json m = JObj
     [(''id'', JNum (itoa (bm_id m))), (''text'', JStr (bm_text m)),
      (''emojis'', JObj (map (\<lambda>(k, u). (k, JStr u)) (sort_key fst (bm_emojis m)))),
      (''status'', JStr (status_text (bm_status m))), (''badge'', badges_json (bm_badge m)),
      (''nickname'', JStr (bm_nickname m))]"

definition batch_json :: "batch_message list \<Rightarrow> json" where
  "batch_json ms = JObj [(''messages'', JArr (map message_json ms))]"

definition encode_batch :: "batch_message list \<Rightarrow> string" where
  "encode_batch ms = json_print (batch_json ms)"

section \<open>The stream\<close>

definition keepaliveInterval :: int where "keepaliveInterval = 15000000000"
definition writeTimeout :: int where "writeTimeout = 10000000000"

text \<open>
  Up to the first write: the channel must be one of a streamer who has logged in, and the hub must take the
  subscription. Some is the subscription the stream reads from.
\<close>

definition open_stream :: "string \<Rightarrow> body response \<Rightarrow> web_state \<Rightarrow> body response \<times> nat option \<times> web_state" where
  "open_stream channelID rsp st =
     (case reading (GetChannelByChzzkID channelID) st of
        (Inl e, st1) \<Rightarrow>
          (if e = ErrNoRows then not_found rsp else http_error msg_server_error 500 rsp, None, st1)
      | (Inr ch, st1) \<Rightarrow>
          (case Subscribe channelID (wb_hub st1) of
             (Inl e, h) \<Rightarrow>
               (if e = ErrTooManySubscribers then http_error msg_too_many_widgets 503 rsp
                else http_error msg_shutting_down 503 rsp, None, st1\<lparr>wb_hub := h\<rparr>)
           | (Inr s, h) \<Rightarrow>
               (set_header ''X-Accel-Buffering'' ''no'' (set_header ''Cache-Control'' ''no-cache''
                  (set_header ''Content-Type'' ''text/event-stream'' rsp)), Some s, st1\<lparr>wb_hub := h\<rparr>)))"

text \<open>What the \<open>select\<close> takes: the end of the request, a batch, the closed channel, the ticker.\<close>

datatype stream_event = RequestDone | BatchReady string | ChannelClosed | KeepaliveTick

abbreviation LF :: char where "LF \<equiv> CHR 0x0A"

definition connected_chunk :: string where "connected_chunk = '': connected'' @ [LF, LF]"
definition keepalive_chunk :: string where "keepalive_chunk = '': keepalive'' @ [LF, LF]"

definition chat_chunk :: "string \<Rightarrow> string" where
  "chat_chunk data = ''event: chat'' @ [LF] @ ''data: '' @ data @ [LF, LF]"

text \<open>The chunks sent, each with whether the write and the flush succeeded; the first failure ends the loop.\<close>

fun stream_loop :: "(stream_event \<times> bool) list \<Rightarrow> (string \<times> bool) list" where
  "stream_loop [] = []"
| "stream_loop ((RequestDone, ok) # es) = []"
| "stream_loop ((ChannelClosed, ok) # es) = []"
| "stream_loop ((BatchReady data, ok) # es) = (chat_chunk data, ok) # (if ok then stream_loop es else [])"
| "stream_loop ((KeepaliveTick, ok) # es) = (keepalive_chunk, ok) # (if ok then stream_loop es else [])"

definition widget_chunks :: "bool \<Rightarrow> (stream_event \<times> bool) list \<Rightarrow> (string \<times> bool) list" where
  "widget_chunks ok es = (connected_chunk, ok) # (if ok then stream_loop es else [])"

text \<open>Leaving the handler always unsubscribes.\<close>

definition close_stream :: "nat \<Rightarrow> web_state \<Rightarrow> web_state" where
  "close_stream s st = st\<lparr>wb_hub := Unsubscribe s (wb_hub st)\<rparr>"

section \<open>Reading an event stream\<close>

text \<open>Lines end in a line feed; a comment starts with a colon; an empty line dispatches.\<close>

fun join_lines :: "string list \<Rightarrow> string" where
  "join_lines [] = ''''"
| "join_lines [l] = l"
| "join_lines (l # ls) = l @ LF # join_lines ls"

definition field_value :: "string option \<Rightarrow> string" where
  "field_value v = (case v of None \<Rightarrow> '''' | Some x \<Rightarrow> (if prefix '' '' x then tl x else x))"

fun sse_lines :: "string \<Rightarrow> string list \<Rightarrow> string list \<Rightarrow> (string \<times> string) list" where
  "sse_lines ev data [] = []"
| "sse_lines ev data (l # ls) =
     (if l = '''' then
        (if data = [] then sse_lines '''' [] ls
         else (if ev = '''' then ''message'' else ev, join_lines data) # sse_lines '''' [] ls)
      else if hd l = CHR '':'' then sse_lines ev data ls
      else (case cut CHR '':'' l of (f, v) \<Rightarrow>
              if f = ''event'' then sse_lines (field_value v) data ls
              else if f = ''data'' then sse_lines ev (data @ [field_value v]) ls
              else sse_lines ev data ls))"

definition sse_events :: "string \<Rightarrow> (string \<times> string) list" where
  "sse_events s = sse_lines '''' [] (butlast (split_on LF s))"

section \<open>JSON text has no line breaks\<close>

definition printable :: "string \<Rightarrow> bool" where
  "printable s \<longleftrightarrow> (\<forall>c\<in>set s. 0x20 \<le> byte c)"

lemma printable_simps [simp]:
  "printable []" "printable (c # s) \<longleftrightarrow> 0x20 \<le> byte c \<and> printable s" "printable (s @ t) \<longleftrightarrow> printable s \<and> printable t"
  by (auto simp: printable_def)

lemma printable_no_LF: "printable s \<Longrightarrow> LF \<notin> set s"
  by (auto simp: printable_def byte_def)

lemma printable_escape_ascii:
  assumes "byte c < 0x80"
  shows "printable (escape_ascii c)"
proof -
  have "list_all (\<lambda>n. 0x20 \<le> byte (lower_hex n)) [0..<16]" by code_simp
  then have "0x20 \<le> byte (lower_hex n)" if "n < 16" for n using that by (simp add: list_all_iff)
  then show ?thesis using byte_less[of c] by (auto simp: escape_ascii_def byte_def)
qed

lemma printable_escape: "printable (json_escape s)"
proof (induction s rule: json_escape.induct)
  case (2 c s)
  show ?case
  proof (cases "byte c < 0x80")
    case True
    then show ?thesis using 2 by (simp add: json_escape.simps(2) printable_escape_ascii)
  next
    case False
    show ?thesis
    proof (cases "utf8_len (c # s)")
      case 0
      then show ?thesis using 2(2) False by (simp add: json_escape.simps(2) byte_def)
    next
      case (Suc n)
      have "\<forall>x\<in>set (c # take n s). 0x20 \<le> byte x" using utf8_len_rune[OF Suc False] by (fastforce simp: list_all_iff)
      then have "printable (c # take n s)" by (simp add: printable_def)
      then have "printable (escape_rune (c # take n s))" by (auto simp: escape_rune_def byte_def)
      then show ?thesis using 2(3)[OF False Suc] False Suc by (simp add: json_escape.simps(2))
    qed
  qed
qed (simp add: json_escape.simps)

lemma printable_quote: "printable (json_quote s)"
  using printable_escape[of s] by (simp add: json_quote_def byte_def)

lemma printable_commas: "\<forall>s\<in>set ss. printable s \<Longrightarrow> printable (commas ss)"
  by (induction ss) (auto simp: commas_Cons byte_def)

lemma printable_digits: "list_all digit ds \<Longrightarrow> printable ds"
  by (auto simp: printable_def list_all_iff digit_def between_def)

lemma printable_itoa: "printable (itoa i)"
proof -
  have "printable (nat_str n)" for n using nat_str_digits[of n] by (intro printable_digits) simp
  then show ?thesis by (simp add: itoa_def byte_def)
qed

lemma printable_json: "json_ok d j \<Longrightarrow> printable (json_print j)"
proof (induction j arbitrary: d)
  case (JNum l)
  then show ?case using printable_itoa by (auto simp: int_literal_def)
next
  case (JArr xs)
  then have "\<forall>s\<in>set (map json_print xs). printable s" by auto
  then show ?case using printable_commas by (simp add: byte_def)
next
  case (JObj ms)
  have "printable (json_quote k @ CHR '':'' # json_print v)" if "(k, v) \<in> set ms" for k v
    using JObj.IH[OF that, of v "d - 1"] JObj.prems that printable_quote by (auto simp: byte_def)
  then have "\<forall>s\<in>set (map (\<lambda>(k, v). json_quote k @ CHR '':'' # json_print v) ms). printable s" by auto
  then show ?case using printable_commas by (simp add: byte_def)
qed (simp_all add: byte_def printable_quote)

section \<open>Batches are valid JSON\<close>

definition badge_text_ok :: "badge \<Rightarrow> bool" where
  "badge_text_ok b \<longleftrightarrow> utf8_ok (badge_class b) \<and> utf8_ok (badge_rank b)"

text \<open>The texts of a message are UTF-8, as every string decoded from JSON or read from SQLite text is.\<close>

definition message_ok :: "batch_message \<Rightarrow> bool" where
  "message_ok m \<longleftrightarrow> utf8_ok (bm_text m) \<and> utf8_ok (bm_nickname m)
     \<and> list_all (\<lambda>(k, u). utf8_ok k \<and> utf8_ok u) (bm_emojis m)
     \<and> (case bm_badge m of None \<Rightarrow> True | Some bs \<Rightarrow> badge_text_ok (bs_auto bs) \<and> badge_text_ok (bs_viewer bs))"

lemma json_keys: "utf8_ok ''messages''" "utf8_ok ''id''" "utf8_ok ''text''" "utf8_ok ''emojis''" "utf8_ok ''status''"
  "utf8_ok ''badge''" "utf8_ok ''nickname''" "utf8_ok ''auto''" "utf8_ok ''viewer''" "utf8_ok ''button''" "utf8_ok ''class''"
  "utf8_ok ''rank''" "utf8_ok ''power''" "utf8_ok ''threshold''" "utf8_ok ''isTheory''"
  "utf8_ok ''linked''" "utf8_ok ''unsynced''" "utf8_ok ''unlinked''"
  by code_simp+

lemma badge_json_ok: "badge_text_ok b \<Longrightarrow> json_ok 1 (badge_json b)"
  by (auto simp: badge_json_def optional_int_def badge_text_ok_def json_keys int_literal_def split: option.split)

lemma message_json_ok: "message_ok m \<Longrightarrow> json_ok 3 (message_json m)"
proof -
  assume m: "message_ok m"
  then have "json_ok 2 (badges_json (bm_badge m))"
    by (auto simp: badges_json_def message_ok_def json_keys badge_json_ok[unfolded One_nat_def] split: option.splits)
  moreover have "json_ok 1 (JObj (map (\<lambda>(k, u). (k, JStr u)) (sort_key fst (bm_emojis m))))"
    using m by (auto simp: message_ok_def list_all_iff)
  then have "json_ok 2 (JObj (map (\<lambda>(k, u). (k, JStr u)) (sort_key fst (bm_emojis m))))"
    by (rule json_ok_mono) simp
  moreover have "utf8_ok (status_text (bm_status m))" by (cases "bm_status m") (simp_all add: status_text_def json_keys)
  moreover have "json_ok 2 (JNum (itoa (bm_id m)))" "json_ok 2 (JStr (bm_text m))" "json_ok 2 (JStr (bm_nickname m))"
    "json_ok 2 (JStr (status_text (bm_status m)))"
    using m \<open>utf8_ok (status_text (bm_status m))\<close> by (auto simp: int_literal_def message_ok_def)
  ultimately have "\<forall>(k, v)\<in>set [(''id'', JNum (itoa (bm_id m))), (''text'', JStr (bm_text m)),
      (''emojis'', JObj (map (\<lambda>(k, u). (k, JStr u)) (sort_key fst (bm_emojis m)))),
      (''status'', JStr (status_text (bm_status m))), (''badge'', badges_json (bm_badge m)),
      (''nickname'', JStr (bm_nickname m))]. utf8_ok k \<and> json_ok 2 v"
    by (simp only: list.set insert_iff empty_iff ball_simps prod.case json_keys simp_thms)
  moreover have "(3::nat) - 1 = 2" by simp
  ultimately show ?thesis by (simp only: message_json_def json_ok.simps) simp
qed

lemma batch_json_ok:
  assumes "list_all message_ok ms"
  shows "json_ok 10000 (batch_json ms)"
proof -
  have "json_ok 9998 (message_json m)" if "m \<in> set ms" for m
    using assms that by (intro json_ok_mono[OF message_json_ok]) (auto simp: list_all_iff)
  then show ?thesis by (simp add: batch_json_def json_keys)
qed

section \<open>What the widget reads\<close>

text \<open>A stream whose writes succeed: the batches it is given, and ticks of the keep-alive in between.\<close>

definition stream_turn :: "batch_message list option \<Rightarrow> stream_event \<times> bool" where
  "stream_turn x = (case x of Some ms \<Rightarrow> (BatchReady (encode_batch ms), True) | None \<Rightarrow> (KeepaliveTick, True))"

definition sent_batches :: "batch_message list option list \<Rightarrow> batch_message list list" where
  "sent_batches xs = concat (map (\<lambda>x. case x of Some ms \<Rightarrow> [ms] | None \<Rightarrow> []) xs)"

lemma stream_turn_simps:
  "stream_turn None = (KeepaliveTick, True)" "stream_turn (Some ms) = (BatchReady (encode_batch ms), True)"
  by (simp_all add: stream_turn_def)

lemma split_on_not_Nil: "split_on c s \<noteq> []"
  by (cases s) (auto split: list.splits)

lemma chunk_lines:
  assumes "LF \<notin> set data"
  shows "split_on LF (chat_chunk data @ rest) = ''event: chat'' # (''data: '' @ data) # '''' # split_on LF rest"
proof -
  have n: "LF \<notin> set ''event: chat''" "LF \<notin> set (''data: '' @ data)" using assms by simp_all
  show ?thesis
    using split_on_append[OF n(1), of "''data: '' @ data @ LF # LF # rest"] split_on_append[OF n(2), of "LF # rest"]
    by (simp add: chat_chunk_def)
qed

lemma keepalive_lines:
  "split_on LF (keepalive_chunk @ rest) = '': keepalive'' # '''' # split_on LF rest"
  "split_on LF (connected_chunk @ rest) = '': connected'' # '''' # split_on LF rest"
  by (simp_all add: keepalive_chunk_def connected_chunk_def)

lemma sse_chat:
  "sse_lines '''' [] (''event: chat'' # (''data: '' @ data) # '''' # ls) = (''chat'', data) # sse_lines '''' [] ls"
proof -
  have "cut CHR '':'' (''event'' @ CHR '':'' # '' chat'') = (''event'', Some '' chat'')"
    unfolding cut_def by (subst index_byte_append) simp_all
  moreover have "cut CHR '':'' (''data'' @ CHR '':'' # '' '' @ data) = (''data'', Some ('' '' @ data))"
    unfolding cut_def by (subst index_byte_append) simp_all
  ultimately show ?thesis by (simp add: field_value_def)
qed

lemma sse_stream:
  assumes "\<forall>ms\<in>set (sent_batches xs). LF \<notin> set (encode_batch ms)"
  shows "sse_lines '''' [] (butlast (split_on LF (concat (map fst (stream_loop (map stream_turn xs))))))
    = map (\<lambda>ms. (''chat'', encode_batch ms)) (sent_batches xs)"
  using assms
proof (induction xs)
  case (Cons x xs)
  define rest where "rest = concat (map fst (stream_loop (map stream_turn xs)))"
  have ih: "sse_lines '''' [] (butlast (split_on LF rest)) = map (\<lambda>ms. (''chat'', encode_batch ms)) (sent_batches xs)"
    unfolding rest_def using Cons by (simp add: sent_batches_def)
  show ?case
  proof (cases x)
    case None
    have "butlast (split_on LF (keepalive_chunk @ rest)) = '': keepalive'' # '''' # butlast (split_on LF rest)"
      unfolding keepalive_lines using split_on_not_Nil[of LF rest] by simp
    then show ?thesis using None ih by (simp add: stream_turn_simps rest_def[symmetric] sent_batches_def)
  next
    case (Some ms)
    then have "LF \<notin> set (encode_batch ms)" using Cons.prems by (simp add: sent_batches_def)
    note cl = chunk_lines[OF this, of rest]
    have "butlast (split_on LF (chat_chunk (encode_batch ms) @ rest))
        = ''event: chat'' # (''data: '' @ encode_batch ms) # '''' # butlast (split_on LF rest)"
      unfolding cl using split_on_not_Nil[of LF rest] by simp
    then have "sse_lines '''' [] (butlast (split_on LF (chat_chunk (encode_batch ms) @ rest)))
        = (''chat'', encode_batch ms) # sse_lines '''' [] (butlast (split_on LF rest))"
      by (simp only: sse_chat)
    then show ?thesis using Some ih by (simp add: stream_turn_simps rest_def[symmetric] sent_batches_def)
  qed
qed (simp add: sent_batches_def)

text \<open>
  C9: What a widget sees. The event stream a widget reads, over whatever keep-alives, is one \<open>chat\<close> event per
  batch its subscription received, in order; the data of each is JSON that parses to exactly that batch; and
  the message ids increase strictly from event to event and within each.
\<close>

theorem widget_reads_batches:
  assumes "reachable mc mt h" "s < length (hb_subs h)" "sent_batches xs = sb_got (hb_subs h ! s)"
    and "list_all (list_all message_ok) (sb_got (hb_subs h ! s))"
  shows "sse_events (concat (map fst (widget_chunks True (map stream_turn xs))))
      = map (\<lambda>ms. (''chat'', encode_batch ms)) (sb_got (hb_subs h ! s))
    \<and> map (\<lambda>e. json_parse (snd e)) (sse_events (concat (map fst (widget_chunks True (map stream_turn xs)))))
      = map (\<lambda>ms. Some (batch_json ms)) (sb_got (hb_subs h ! s))
    \<and> sorted_wrt (<) (map bm_id (concat (sb_got (hb_subs h ! s))))"
proof -
  have ok: "json_ok 10000 (batch_json ms)" if "ms \<in> set (sb_got (hb_subs h ! s))" for ms
    using assms(4) that by (intro batch_json_ok) (simp add: list_all_iff)
  have lf: "\<forall>ms\<in>set (sent_batches xs). LF \<notin> set (encode_batch ms)"
    unfolding encode_batch_def assms(3) using printable_no_LF[OF printable_json[OF ok]] by blast
  define rest where "rest = concat (map fst (stream_loop (map stream_turn xs)))"
  have ev: "sse_events (concat (map fst (widget_chunks True (map stream_turn xs)))) = map (\<lambda>ms. (''chat'', encode_batch ms)) (sb_got (hb_subs h ! s))"
    using sse_stream[OF lf] split_on_not_Nil[of LF rest] assms(3)
    by (simp add: sse_events_def widget_chunks_def keepalive_lines rest_def[symmetric])
  have "json_parse (encode_batch ms) = Some (batch_json ms)" if "ms \<in> set (sb_got (hb_subs h ! s))" for ms
    unfolding encode_batch_def by (rule json_roundtrip[OF ok[OF that]])
  then have "map (\<lambda>e. json_parse (snd e)) (map (\<lambda>ms. (''chat'', encode_batch ms)) (sb_got (hb_subs h ! s)))
      = map (\<lambda>ms. Some (batch_json ms)) (sb_got (hb_subs h ! s))" by simp
  moreover have "sub_flow (hb_next_id h) (hb_subs h ! s)"
    using flow_reachable[OF assms(1)] assms(2) by (simp add: flow_ok_def)
  then have "sorted_wrt (<) (map bm_id (concat (sb_got (hb_subs h ! s))))"
    by (simp add: sub_flow_def ids_of_def sorted_wrt_append)
  ultimately show ?thesis using ev by simp
qed

definition read_hub :: hub where
  "read_hub = the (hub_run (sample_events @ flush_events 0 [1, 0] [None, None] @ [EvReceive 0]) (hub_new 0 0))"

lemma read_hub_eval:
  "hub_run (sample_events @ flush_events 0 [1, 0] [None, None] @ [EvReceive 0]) (hub_new 0 0) = Some read_hub"
  "length (hb_subs read_hub) = 3" "list_all (list_all message_ok) (sb_got (hb_subs read_hub ! 0))"
  "map length (sb_got (hb_subs read_hub ! 0)) = [2]"
proof -
  have "hub_run (sample_events @ flush_events 0 [1, 0] [None, None] @ [EvReceive 0]) (hub_new 0 0) \<noteq> None" by code_simp
  then show "hub_run (sample_events @ flush_events 0 [1, 0] [None, None] @ [EvReceive 0]) (hub_new 0 0) = Some read_hub"
    by (auto simp: read_hub_def)
  show "length (hb_subs read_hub) = 3" by code_simp
  show "list_all (list_all message_ok) (sb_got (hb_subs read_hub ! 0))" by code_simp
  show "map length (sb_got (hb_subs read_hub ! 0)) = [2]" by code_simp
qed

theorem widget_reads_batches_witness:
  "\<exists>batch. length batch = 2 \<and>
    map (\<lambda>e. json_parse (snd e)) (sse_events (concat (map fst (widget_chunks True (map stream_turn [None, Some batch, None])))))
      = [Some (batch_json batch)]"
proof -
  obtain batch where b: "sb_got (hb_subs read_hub ! 0) = [batch]" "length batch = 2"
    using read_hub_eval(4) by auto
  have r: "reachable 0 0 read_hub" using reachable.start read_hub_eval(1) by (rule run_reachable)
  have "0 < length (hb_subs read_hub)" "sent_batches [None, Some batch, None] = sb_got (hb_subs read_hub ! 0)"
    using read_hub_eval(2) b by (simp_all add: sent_batches_def)
  note w = widget_reads_batches[OF r this read_hub_eval(3)]
  show ?thesis using w[THEN conjunct2, THEN conjunct1] b by (intro exI[of _ batch]) simp
qed

end
