(* ===== verification/Routes.thy ===== *)
theory Routes
  imports Widget
begin

text \<open>
  How a request reaches its handler: \<open>Server.Handler\<close> of \<open>web.go\<close> with its route table, the matching and
  path cleaning of \<open>http.ServeMux\<close>, \<open>http.CrossOriginProtection\<close> and the middleware of \<open>middleware.go\<close>.
  Two contracts on handlers, as locales, carry what a request may change.
\<close>

section \<open>Cross-origin requests\<close>

text \<open>\<open>CrossOriginProtection.Check\<close> fails; the code adds no trusted origins and no bypass patterns.\<close>

definition cross_origin :: "web_request \<Rightarrow> bool" where
  "cross_origin r =
     (if req_method r \<in> {''GET'', ''HEAD'', ''OPTIONS''} then False
      else (let site = get_or_empty (req_header r) ''Sec-Fetch-Site'';
                origin = get_or_empty (req_header r) ''Origin'' in
            if site = ''same-origin'' \<or> site = ''none'' then False
            else if site \<noteq> '''' then True
            else if origin = '''' then False
            else (case url_parse origin of Some o1 \<Rightarrow> url_host o1 \<noteq> rq_host r | None \<Rightarrow> True)))"

section \<open>The route table\<close>

text \<open>The segments of a pattern: \<open>End\<close> is \<open>{$}\<close>, \<open>Rest\<close> the open end of a pattern with a final slash.\<close>

datatype segment = Literal string | Wildcard | End | Rest

datatype endpoint =
    EpLanding | EpLoginPage | EpStartLogin | EpCallback | EpLogout | EpDashboard
  | EpLinkPage | EpLinkConnect | EpLinkSync | EpLinkUnlink | EpLinkPreferred
  | EpAppendSlash string
  | EpWidgetPage | EpWidgetStream | EpStatic | EpHealthz
  | EpDevPage | EpDevChat

type_synonym route = "string \<times> segment list \<times> endpoint"

definition routes :: "bool \<Rightarrow> route list" where
  "routes dev =
     [(''GET'', [End], EpLanding),
      (''GET'', [Literal ''login'', End], EpLoginPage),
      (''GET'', [Literal ''api'', Literal ''auth'', Literal ''chzzk''], EpStartLogin),
      (''GET'', [Literal ''api'', Literal ''auth'', Literal ''chzzk'', Literal ''callback''], EpCallback),
      (''POST'', [Literal ''logout'', End], EpLogout),
      (''GET'', [Literal ''dashboard'', End], EpDashboard),
      (''GET'', [Literal ''link'', End], EpLinkPage),
      (''POST'', [Literal ''link'', Literal ''connect'', End], EpLinkConnect),
      (''POST'', [Literal ''link'', Literal ''sync'', End], EpLinkSync),
      (''POST'', [Literal ''link'', Literal ''unlink'', End], EpLinkUnlink),
      (''POST'', [Literal ''link'', Literal ''preferred-button'', End], EpLinkPreferred),
      (''GET'', [Literal ''login''], EpAppendSlash ''/login''),
      (''GET'', [Literal ''dashboard''], EpAppendSlash ''/dashboard''),
      (''GET'', [Literal ''link''], EpAppendSlash ''/link''),
      (''GET'', [Literal ''widget'', Wildcard], EpWidgetPage),
      (''GET'', [Literal ''widget'', Wildcard, End], EpWidgetPage),
      (''GET'', [Literal ''widget'', Wildcard, Literal ''stream''], EpWidgetStream),
      (''GET'', [Literal ''static'', Rest], EpStatic),
      (''GET'', [Literal ''healthz''], EpHealthz)]
     @ (if dev then [(''GET'', [Literal ''dev''], EpDevPage), (''POST'', [Literal ''dev'', Literal ''chat''], EpDevChat)] else [])"

section \<open>http.ServeMux\<close>

definition segment_text :: "string \<Rightarrow> string" where
  "segment_text s = (case url_unescape InPath s of Some t \<Rightarrow> t | None \<Rightarrow> s)"

text \<open>The values of the wildcards, when the pattern matches the segments of an escaped path.\<close>

fun seg_match :: "segment list \<Rightarrow> string list \<Rightarrow> string list option" where
  "seg_match [] [] = Some []"
| "seg_match [End] [s] = (if s = '''' then Some [] else None)"
| "seg_match [Rest] (s # ss) = Some []"
| "seg_match (Literal l # ps) (s # ss) = (if segment_text s = l then seg_match ps ss else None)"
| "seg_match (Wildcard # ps) (s # ss) =
     (if s = '''' then None else map_option (Cons (segment_text s)) (seg_match ps ss))"
| "seg_match ps ss = None"

definition path_segments :: "string \<Rightarrow> string list" where
  "path_segments p = tl (split_on CHR ''/'' p)"

definition method_match :: "string \<Rightarrow> string \<Rightarrow> bool" where
  "method_match m pattern \<longleftrightarrow> m = pattern \<or> m = ''HEAD'' \<and> pattern = ''GET''"

text \<open>The patterns of the table do not overlap, so the order in which they are tried does not matter.\<close>

fun match_route :: "route list \<Rightarrow> string \<Rightarrow> string list \<Rightarrow> (segment list \<times> endpoint \<times> string list) option" where
  "match_route [] m ss = None"
| "match_route ((pm, ps, ep) # rs) m ss =
     (if method_match m pm then
        (case seg_match ps ss of Some vs \<Rightarrow> Some (ps, ep, vs) | None \<Rightarrow> match_route rs m ss)
      else match_route rs m ss)"

text \<open>\<open>exactMatch\<close>: the open end of the pattern, if it has one, took nothing.\<close>

definition exact_match :: "(segment list \<times> endpoint \<times> string list) option \<Rightarrow> string \<Rightarrow> bool" where
  "exact_match n path =
     (case n of None \<Rightarrow> False
      | Some (ps, ep, vs) \<Rightarrow>
          if last ps \<noteq> Rest then True
          else suffix ''/'' path \<and> length ps = length (filter (\<lambda>c. c = CHR ''/'') path))"

definition clean_path :: "string \<Rightarrow> string" where
  "clean_path p0 =
     (if p0 = '''' then ''/''
      else (let p = (if hd p0 = CHR ''/'' then p0 else CHR ''/'' # p0); np = path_clean p in
            if last p = CHR ''/'' \<and> np \<noteq> ''/'' then np @ ''/'' else np))"

definition allowed_methods :: "route list \<Rightarrow> string \<Rightarrow> string list" where
  "allowed_methods rs path =
     (let hits = (\<lambda>m p. match_route (filter (\<lambda>(pm, x). pm = m) rs) m (path_segments p) \<noteq> None);
          any = (\<lambda>m. hits m path \<or> \<not> suffix ''/'' path \<and> hits m (path @ ''/''))
      in (if any ''GET'' then [''GET'', ''HEAD''] else []) @ (if any ''POST'' then [''POST''] else []))"

definition comma_join :: "string list \<Rightarrow> string" where
  "comma_join ms = (case ms of [] \<Rightarrow> '''' | m # rest \<Rightarrow> m @ concat (map (\<lambda>x. '', '' @ x) rest))"

datatype mux_target =
    Serve endpoint "string list"
  | MovedTo string
  | NotAllowed "string list"
  | NoRoute

definition request_escaped_path :: "web_request \<Rightarrow> string" where
  "request_escaped_path r = escaped_path \<lparr>url_scheme = '''', url_opaque = '''', url_user = None, url_host = '''',
     url_path = req_path r, url_raw_path = rq_raw_path r, url_omit_host = False, url_query = '''', url_fragment = ''''\<rparr>"

definition mux_url :: "string \<Rightarrow> web_request \<Rightarrow> string" where
  "mux_url path r = url_string \<lparr>url_scheme = '''', url_opaque = '''', url_user = None, url_host = '''',
     url_path = path, url_raw_path = '''', url_omit_host = False, url_query = rq_raw_query r, url_fragment = ''''\<rparr>"

definition dispatch :: "bool \<Rightarrow> web_request \<Rightarrow> mux_target" where
  "dispatch dev r =
     (let escaped = request_escaped_path r;
          path = (if req_method r = ''CONNECT'' then escaped else clean_path escaped);
          n = match_route (routes dev) (req_method r) (path_segments path) in
      if \<not> exact_match n path \<and> \<not> suffix ''/'' path \<and> path \<noteq> ''''
         \<and> exact_match (match_route (routes dev) (req_method r) (path_segments (path @ ''/''))) (path @ ''/'')
      then MovedTo (mux_url (clean_path (req_path r) @ ''/'') r)
      else if path \<noteq> escaped then MovedTo (mux_url path r)
      else (case n of
              Some (ps, ep, vs) \<Rightarrow> Serve ep vs
            | None \<Rightarrow> (let ms = allowed_methods (routes dev) path in if ms = [] then NoRoute else NotAllowed ms)))"

section \<open>The handler of the server\<close>

text \<open>The file server over the embedded assets, given the stripped path, is a parameter.\<close>

type_synonym files = "string \<Rightarrow> body response \<Rightarrow> body response"

definition noDirListing :: "files \<Rightarrow> string \<Rightarrow> body response \<Rightarrow> body response" where
  "noDirListing files p rsp = (if suffix ''/'' p \<or> p = '''' then not_found rsp else files p rsp)"

definition StripPrefix :: "string \<Rightarrow> files \<Rightarrow> web_request \<Rightarrow> body response \<Rightarrow> body response" where
  "StripPrefix pre files r rsp =
     (if prefix pre (req_path r) \<and> (rq_raw_path r = '''' \<or> prefix pre (rq_raw_path r))
      then files (drop (length pre) (req_path r)) rsp else not_found rsp)"

definition widgetStream :: "string \<Rightarrow> body response \<Rightarrow> web_state \<Rightarrow> outcome" where
  "widgetStream channelID rsp st =
     (case open_stream channelID rsp st of
        (rsp1, None, st1) \<Rightarrow> Some (rsp1, [], st1)
      | (rsp1, Some s, st1) \<Rightarrow> Some (rsp1\<lparr>rp_body := WidgetStream s\<rparr>, [], st1))"

fun run_endpoint ::
  "server \<Rightarrow> files \<Rightarrow> environment \<Rightarrow> web_request \<Rightarrow> endpoint \<Rightarrow> string list \<Rightarrow> body response \<Rightarrow> web_state \<Rightarrow> outcome" where
  "run_endpoint sv fl env r EpLanding vs rsp st = withUser landing env r rsp st"
| "run_endpoint sv fl env r EpLoginPage vs rsp st = withUser loginPage env r rsp st"
| "run_endpoint sv fl env r EpStartLogin vs rsp st = withUser (startLogin sv) env r rsp st"
| "run_endpoint sv fl env r EpCallback vs rsp st = withUser (callback sv) env r rsp st"
| "run_endpoint sv fl env r EpLogout vs rsp st = withUser logout env r rsp st"
| "run_endpoint sv fl env r EpDashboard vs rsp st = withUser (requireLogin (dashboard sv)) env r rsp st"
| "run_endpoint sv fl env r EpLinkPage vs rsp st = withUser (requireLogin linkPage) env r rsp st"
| "run_endpoint sv fl env r EpLinkConnect vs rsp st = withUser (requireLogin linkConnect) env r rsp st"
| "run_endpoint sv fl env r EpLinkSync vs rsp st = withUser (requireLogin linkSync) env r rsp st"
| "run_endpoint sv fl env r EpLinkUnlink vs rsp st = withUser (requireLogin linkUnlink) env r rsp st"
| "run_endpoint sv fl env r EpLinkPreferred vs rsp st = withUser (requireLogin linkPreferredButton) env r rsp st"
| "run_endpoint sv fl env r (EpAppendSlash p) vs rsp st = Some (redirect r (p @ ''/'') 301 rsp, [], st)"
| "run_endpoint sv fl env r EpWidgetPage vs rsp st = widgetPage (hd vs) rsp st"
| "run_endpoint sv fl env r EpWidgetStream vs rsp st = widgetStream (hd vs) rsp st"
| "run_endpoint sv fl env r EpStatic vs rsp st = Some (StripPrefix ''/static/'' (noDirListing fl) r rsp, [], st)"
| "run_endpoint sv fl env r EpHealthz vs rsp st = healthz env rsp st"
| "run_endpoint sv fl env r EpDevPage vs rsp st = withUser devPage env r rsp st"
| "run_endpoint sv fl env r EpDevChat vs rsp st = withUser devChat env r rsp st"

definition serve_mux :: "server \<Rightarrow> files \<Rightarrow> environment \<Rightarrow> web_request \<Rightarrow> body response \<Rightarrow> web_state \<Rightarrow> outcome" where
  "serve_mux sv fl env r rsp st =
     (case dispatch (sv_dev sv) r of
        Serve ep vs \<Rightarrow> run_endpoint sv fl env r ep vs rsp st
      | MovedTo u \<Rightarrow> Some (redirect r u 307 rsp, [], st)
      | NotAllowed ms \<Rightarrow> Some (http_error ''Method Not Allowed'' 405 (set_header ''Allow'' (comma_join ms) rsp), [], st)
      | NoRoute \<Rightarrow> Some (not_found rsp, [], st))"

definition Handler :: "server \<Rightarrow> files \<Rightarrow> environment \<Rightarrow> web_request \<Rightarrow> web_state \<Rightarrow> outcome" where
  "Handler sv fl env r st =
     (let rsp = securityHeaders (sv_https sv) blank in
      if cross_origin r then Some (http_error msg_cross_origin 403 rsp, [], st)
      else serve_mux sv fl env r rsp st)"

text \<open>
  The line \<open>accessLog\<close> writes once a request is served, given the nanoseconds it took; there is none for a
  handler that panics.
\<close>

record access_entry =
  ae_method :: string
  ae_path :: string
  ae_status :: int
  ae_session_cookie :: bool
  ae_duration :: int

definition accessLog :: "web_request \<Rightarrow> int \<Rightarrow> outcome \<Rightarrow> access_entry option" where
  "accessLog r dur x =
     (case x of None \<Rightarrow> None
      | Some (rsp, ops, st) \<Rightarrow>
          Some \<lparr>ae_method = req_method r, ae_path = req_path r, ae_status = rp_status rsp,
                ae_session_cookie = (Cookie r ''session'' \<noteq> None), ae_duration = (dur + 500000) div 1000000 * 1000000\<rparr>)"

section \<open>Contracts on handlers\<close>

text \<open>The session user a handler is given is the row of the user id in the session.\<close>

definition session_ok :: "environment \<Rightarrow> user_row option \<Rightarrow> web_state \<Rightarrow> bool" where
  "session_ok env cur st \<longleftrightarrow> app_ok (wb_app st) \<and>
     (case cur of None \<Rightarrow> True
      | Some u \<Rightarrow> u \<in> set (db_users (app_db (wb_app st))) \<and> u_id u = en_session_user env)"

text \<open>The hub goes only where its own operations take it.\<close>

definition hub_moves :: "web_state \<Rightarrow> web_state \<Rightarrow> bool" where
  "hub_moves st st' \<longleftrightarrow> (\<forall>mc mt. reachable mc mt (wb_hub st) \<longrightarrow> reachable mc mt (wb_hub st'))"

definition touches :: "int \<Rightarrow> web_state \<Rightarrow> web_state \<Rightarrow> bool" where
  "touches uid st st' \<longleftrightarrow> op_step uid (wb_app st) (wb_app st') \<and> hub_moves st st'"

definition same_db :: "web_state \<Rightarrow> web_state \<Rightarrow> bool" where
  "same_db st st' \<longleftrightarrow> app_ok (wb_app st') \<and> app_db (wb_app st') = app_db (wb_app st) \<and> web_now st' = web_now st \<and> hub_moves st st'"

lemma hub_moves_same: "wb_hub st' = wb_hub st \<Longrightarrow> hub_moves st st'"
  by (simp add: hub_moves_def)

lemma hub_moves_refl [simp]: "hub_moves st st"
  by (rule hub_moves_same) simp

lemma hub_moves_app [simp]: "hub_moves st (st1\<lparr>wb_app := a\<rparr>) = hub_moves st st1"
  by (simp add: hub_moves_def)

lemma hub_moves_trans: "hub_moves st st1 \<Longrightarrow> hub_moves st1 st2 \<Longrightarrow> hub_moves st st2"
  by (simp add: hub_moves_def)

text \<open>A handler that reads only, one that changes rows of the session user only, and one that needs a session user.\<close>

locale read_handler =
  fixes h :: handler
  assumes reads: "session_ok env cur st \<Longrightarrow> \<exists>rsp' ops st'. h env cur r rsp st = Some (rsp', ops, st') \<and> same_db st st'"

locale own_handler =
  fixes h :: handler
  assumes own: "session_ok env cur st \<Longrightarrow> \<exists>rsp' ops st'. h env cur r rsp st = Some (rsp', ops, st')
    \<and> touches (en_session_user env) st st' \<and> (cur = None \<longrightarrow> same_db st st')"

locale user_handler =
  fixes h :: handler
  assumes acts: "session_ok env (Some u) st \<Longrightarrow> \<exists>rsp' ops st'. h env (Some u) r rsp st = Some (rsp', ops, st')
    \<and> touches (en_session_user env) st st'"

locale user_reader =
  fixes h :: handler
  assumes displays: "session_ok env (Some u) st \<Longrightarrow> \<exists>rsp' ops st'. h env (Some u) r rsp st = Some (rsp', ops, st') \<and> same_db st st'"

lemma same_db_touches: "same_db st st' \<Longrightarrow> touches uid st st'"
  by (simp add: same_db_def touches_def op_step_def web_now_def)

lemma same_db_refl: "app_ok (wb_app st) \<Longrightarrow> same_db st st"
  by (simp add: same_db_def)

lemma same_db_trans: "same_db st st1 \<Longrightarrow> same_db st1 st2 \<Longrightarrow> same_db st st2"
  by (auto simp: same_db_def intro: hub_moves_trans)

lemma touches_trans: "touches uid st st1 \<Longrightarrow> touches uid st1 st2 \<Longrightarrow> touches uid st st2"
  unfolding touches_def by (blast intro: op_step_trans hub_moves_trans)

text \<open>A query that only reads, on the state of the server.\<close>

lemma reading_step:
  assumes "app_ok (wb_app st)" "\<And>t d a d'. q t d = Inr (a, d') \<Longrightarrow> d' = d"
  obtains r st1 where "reading q st = (r, st1)" "same_db st st1" "wb_hub st1 = wb_hub st"
    "case r of Inl e \<Rightarrow> True | Inr a \<Rightarrow> q (web_now st) (app_db (wb_app st)) = Inr (a, app_db (wb_app st))"
proof -
  obtain r a where r: "read_op q (wb_app st) = (r, a)" "op_step 0 (wb_app st) a" "app_db a = app_db (wb_app st)"
    "case r of Inl e \<Rightarrow> e = ErrIO \<or> q (w_now (snd (wb_app st))) (app_db (wb_app st)) = Inl e
             | Inr x \<Rightarrow> q (w_now (snd (wb_app st))) (app_db (wb_app st)) = Inr (x, app_db (wb_app st))"
    by (rule read_op_step[OF assms(1) assms(2), where uid = 0]) assumption
  show ?thesis
  proof (rule that[of r "st\<lparr>wb_app := a\<rparr>"])
    show "reading q st = (r, st\<lparr>wb_app := a\<rparr>)" by (simp add: reading_def r(1))
    show "same_db st (st\<lparr>wb_app := a\<rparr>)" using r by (simp add: same_db_def op_step_def web_now_def)
    show "case r of Inl e \<Rightarrow> True | Inr x \<Rightarrow> q (web_now st) (app_db (wb_app st)) = Inr (x, app_db (wb_app st))"
      using r(4) by (auto simp: web_now_def split: sum.splits)
  qed simp
qed

lemma web_reads:
  "GetUserByID uid t d = Inr (a, d') \<Longrightarrow> d' = d" "GetChannelByChzzkID c t d = Inr (b, d') \<Longrightarrow> d' = d"
  by (auto simp: GetUserByID_def GetChannelByChzzkID_def one_def split: option.splits)

lemma GetUserByID_row:
  "GetUserByID uid t d = Inr (u, d') \<Longrightarrow> u \<in> set (db_users d) \<and> u_id u = uid"
  by (auto simp: GetUserByID_def one_def find_Some_iff in_set_conv_nth split: option.splits)

lemma session_keys: "session_ok env (Some u) st \<Longrightarrow> (u_id u, u_chzzk_id u) \<in> set (user_keys (app_db (wb_app st)))"
  by (force simp: session_ok_def user_keys_def)

lemma touches_keeps_session:
  "session_ok env (Some u) st \<Longrightarrow> touches uid st st' \<Longrightarrow> app_ok (wb_app st')"
  by (simp add: touches_def op_step_def)

section \<open>Handlers under the session\<close>

text \<open>The outcome of \<open>withUser\<close>: an error page, or that of the handler for the session user of the database.\<close>

lemma withUser_cases:
  assumes "app_ok (wb_app st)"
  obtains (error) rsp' st' where "withUser h env r rsp st = Some (rsp', [], st')" "same_db st st'"
  | (user) cur st1 ops where "session_ok env cur st1" "same_db st st1"
      "withUser h env r rsp st = map_option (\<lambda>(rsp', ops', st'). (rsp', ops @ ops', st'))
         (h env cur r (set_header ''Cache-Control'' ''no-store'' rsp) st1)"
      "cur = None \<longleftrightarrow> en_session_user env = 0 \<or> ops = [DestroySession]"
proof (cases "en_session_user env = 0")
  case True
  show ?thesis
    by (rule user[of None st "[]"]) (use True assms in \<open>auto simp: session_ok_def same_db_refl withUser_def option.map_id split: option.split\<close>)
next
  case False
  obtain q st1 where q: "reading (GetUserByID (en_session_user env)) st = (q, st1)" "same_db st st1" "wb_hub st1 = wb_hub st"
    "case q of Inl e \<Rightarrow> True | Inr a \<Rightarrow> GetUserByID (en_session_user env) (web_now st) (app_db (wb_app st)) = Inr (a, app_db (wb_app st))"
    by (rule reading_step[OF assms web_reads(1)])
  have ok: "app_ok (wb_app st1)" using q(2) by (simp add: same_db_def)
  show ?thesis
  proof (cases q)
    case (Inl e)
    show ?thesis
    proof (cases "e = ErrNoRows")
      case True
      show ?thesis
        by (rule user[of None st1 "[DestroySession]"])
          (use True False Inl q ok in \<open>auto simp: session_ok_def withUser_def Let_def split: option.split\<close>)
    qed (use error q Inl False in \<open>simp add: withUser_def Let_def\<close>)
  next
    case (Inr u)
    have "u \<in> set (db_users (app_db (wb_app st1)))" "u_id u = en_session_user env"
      using q(2,4) Inr GetUserByID_row[of "en_session_user env" "web_now st" "app_db (wb_app st)" u] by (auto simp: same_db_def)
    then show ?thesis
      by (intro user[of "Some u" st1 "[]"])
        (use Inr q ok False in \<open>auto simp: session_ok_def withUser_def Let_def option.map_id\<close>)
  qed
qed


text \<open>What the session and the login check add to a handler that meets its contract.\<close>

context read_handler
begin

lemma withUser_reads:
  assumes "app_ok (wb_app st)"
  shows "\<exists>rsp' ops st'. withUser h env r rsp st = Some (rsp', ops, st') \<and> same_db st st'"
proof (cases rule: withUser_cases[OF assms, where h = h and env = env and r = r and rsp = rsp])
  case (2 cur st1 ops)
  from reads[OF 2(1)] 2(2,3) show ?thesis by (fastforce intro: same_db_trans)
qed auto

end

sublocale read_handler \<subseteq> own_handler
  by unfold_locales (use reads same_db_touches in blast)

context own_handler
begin

lemma withUser_own:
  assumes "app_ok (wb_app st)"
  shows "\<exists>rsp' ops st'. withUser h env r rsp st = Some (rsp', ops, st') \<and> touches (en_session_user env) st st'
    \<and> (same_db st st' \<or> en_session_user env \<in> user_ids (app_db (wb_app st)))"
proof (cases rule: withUser_cases[OF assms, where h = h and env = env and r = r and rsp = rsp])
  case (1 rsp' st')
  then show ?thesis using same_db_touches by blast
next
  case (2 cur st1 ops)
  obtain rsp' ops' st' where h: "h env cur r (set_header ''Cache-Control'' ''no-store'' rsp) st1 = Some (rsp', ops', st')"
    "touches (en_session_user env) st1 st'" "cur = None \<longrightarrow> same_db st1 st'"
    using own[OF 2(1)] by blast
  have "same_db st st' \<or> en_session_user env \<in> user_ids (app_db (wb_app st))"
  proof (cases cur)
    case None
    then show ?thesis using same_db_trans[OF 2(2)] h(3) by simp
  next
    case (Some u)
    have "u_id u \<in> user_ids (app_db (wb_app st))" using 2(1,2) Some by (force simp: session_ok_def user_ids_def same_db_def)
    then show ?thesis using 2(1) Some by (auto simp: session_ok_def)
  qed
  with h 2(2,3) show ?thesis using touches_trans[OF same_db_touches[OF 2(2)] h(2)] by auto
qed

end

text \<open>\<open>requireLogin\<close> gives its handler a session user, and answers everybody else itself.\<close>

lemma requireLogin_anonymous: "\<exists>rsp'. requireLogin h env None r rsp st = Some (rsp', [], st)"
  by (simp add: requireLogin_def)

lemma requireLogin_user: "requireLogin h env (Some u) r rsp st = h env (Some u) r rsp st"
  by (simp add: requireLogin_def)

sublocale user_handler \<subseteq> guarded: own_handler "requireLogin h"
proof
  fix env cur st r rsp
  assume s: "session_ok env cur st"
  show "\<exists>rsp' ops st'. requireLogin h env cur r rsp st = Some (rsp', ops, st')
    \<and> touches (en_session_user env) st st' \<and> (cur = None \<longrightarrow> same_db st st')"
  proof (cases cur)
    case None
    have "same_db st st" using s by (simp add: same_db_refl session_ok_def)
    with None requireLogin_anonymous[of h env r rsp st] same_db_touches show ?thesis by blast
  next
    case (Some u)
    from acts[of env u st r rsp] s Some show ?thesis by (simp add: requireLogin_user)
  qed
qed

sublocale user_reader \<subseteq> guarded: read_handler "requireLogin h"
proof
  fix env cur st r rsp
  assume s: "session_ok env cur st"
  show "\<exists>rsp' ops st'. requireLogin h env cur r rsp st = Some (rsp', ops, st') \<and> same_db st st'"
  proof (cases cur)
    case None
    have "same_db st st" using s by (simp add: same_db_refl session_ok_def)
    with None requireLogin_anonymous[of h env r rsp st] show ?thesis by blast
  next
    case (Some u)
    from displays[of env u st r rsp] s Some show ?thesis by (simp add: requireLogin_user)
  qed
qed

section \<open>The handlers meet their contracts\<close>

lemma Card_step:
  assumes "app_ok s"
  obtains x a where "Card uid p s = (x, a)" "app_ok a" "app_db a = app_db s" "w_now (snd a) = w_now (snd s)"
proof -
  obtain q s1 where q: "read_op (GetActiveLink uid) s = (q, s1)" "op_step uid s s1" "app_db s1 = app_db s"
    by (rule read_op_step[OF assms read_queries(2), where uid = uid])
  then have ok1: "app_ok s1" by (simp add: op_step_def)
  obtain q2 s2 where q2: "read_op (ListDjClasses uid) s1 = (q2, s2)" "op_step uid s1 s2" "app_db s2 = app_db s1"
    by (rule read_op_step[OF ok1 read_queries(1), where uid = uid])
  show ?thesis
  proof (cases q)
    case (Inl e)
    then show ?thesis using q that[of "fst (Card uid p s)" s1] by (simp add: Card_def op_step_def)
  next
    case (Inr l)
    have "snd (Card uid p s) = s2" by (cases q2) (simp_all add: Card_def q(1) q2(1) Inr)
    then show ?thesis using q q2 that[of "fst (Card uid p s)" s2] by (cases "Card uid p s") (simp add: op_step_def)
  qed
qed

lemma renderCardStatus_step:
  assumes "app_ok (wb_app st)"
  shows "\<exists>rsp' st'. renderCardStatus u status msg t rsp st = Some (rsp', [], st') \<and> same_db st st'"
proof -
  obtain q st1 where q: "reading (GetUserByID (u_id u)) st = (q, st1)" "same_db st st1" "wb_hub st1 = wb_hub st"
    by (rule reading_step[OF assms web_reads(1)])
  show ?thesis
  proof (cases q)
    case (Inr v)
    have "app_ok (wb_app st1)" using q(2) by (simp add: same_db_def)
    then obtain x a where c: "Card (u_id v) (u_preferred v) (wb_app st1) = (x, a)" "app_ok a"
      "app_db a = app_db (wb_app st1)" "w_now (snd a) = w_now (snd (wb_app st1))"
      by (rule Card_step[where uid = "u_id v" and p = "u_preferred v"])
    then have "same_db st (st1\<lparr>wb_app := a\<rparr>)" using q(2) by (simp add: same_db_def web_now_def)
    with q Inr c(1) show ?thesis by (auto simp: renderCardStatus_def split: sum.split)
  qed (use q in \<open>simp add: renderCardStatus_def\<close>)
qed

lemma renderCard_step:
  "app_ok (wb_app st) \<Longrightarrow> \<exists>rsp' st'. renderCard u msg t rsp st = Some (rsp', [], st') \<and> same_db st st'"
  "app_ok (wb_app st) \<Longrightarrow> \<exists>rsp' st'. tooMany u rsp st = Some (rsp', [], st') \<and> same_db st st'"
  unfolding renderCard_def tooMany_def by (rule renderCardStatus_step, assumption)+

lemma allow_app: "allow r scope limit st = (ok, st1) \<Longrightarrow> wb_app st1 = wb_app st \<and> wb_hub st1 = wb_hub st"
  by (auto simp: allow_def split: prod.splits)

lemma on_app_step:
  assumes "\<exists>x a. f (wb_app st) = Some (x, a) \<and> op_step uid (wb_app st) a"
  obtains x st1 where "on_app f st = Some (x, st1)" "touches uid st st1"
  using assms by (auto simp: on_app_def touches_def)

lemma inject_moves: "reachable mc mt h \<Longrightarrow> reachable mc mt (snd (dev_inject ch senderID text ms ds flash h))"
proof (induction ds arbitrary: flash h)
  case (Cons d ds)
  have "reachable mc mt (snd (Inject ch m h))" for m
    by (rule reachable.step[OF Cons.prems, of "EvInject ch m"]) simp
  then have "reachable mc mt h'" if "Inject ch m h = (ok, h')" for m ok h' using that by (metis snd_conv)
  then show ?case using Cons by (auto split: prod.split)
qed simp

text \<open>A change of the session user's rows, and then the card.\<close>

lemma then_card:
  assumes "touches uid st st1"
  shows "\<exists>rsp' ops st'. renderCard u msg t rsp st1 = Some (rsp', ops, st') \<and> touches uid st st'"
proof -
  have "app_ok (wb_app st1)" using assms by (simp add: touches_def op_step_def)
  then obtain rsp' st' where "renderCard u msg t rsp st1 = Some (rsp', [], st')" "same_db st1 st'"
    using renderCard_step(1) by blast
  then show ?thesis using touches_trans[OF assms] same_db_touches by blast
qed


lemma session_allow:
  "session_ok env cur st \<Longrightarrow> allow r scope limit st = (ok, st1) \<Longrightarrow> session_ok env cur st1 \<and> same_db st st1"
  using allow_app[of r scope limit st ok st1] by (auto simp: session_ok_def same_db_def web_now_def hub_moves_def split: option.splits)

interpretation landing: read_handler landing
  by unfold_locales (simp add: landing_def session_ok_def same_db_refl)

interpretation loginPage: read_handler loginPage
  by unfold_locales (simp add: loginPage_def session_ok_def same_db_refl)

interpretation startLogin: read_handler "startLogin sv"
  by unfold_locales (simp add: startLogin_def Let_def session_ok_def same_db_refl)

interpretation logout: read_handler logout
  by unfold_locales (simp add: logout_def session_ok_def same_db_refl)

interpretation devPage: read_handler devPage
  by unfold_locales (simp add: devPage_def session_ok_def same_db_refl)

interpretation devChat: read_handler devChat
proof
  fix env cur st r rsp
  assume "session_ok env cur st"
  moreover have "hub_moves st (st\<lparr>wb_hub := h\<rparr>)" if "dev_inject ch sid body ms ds flash (wb_hub st) = (x, h)" for ch sid body ms ds flash x h
    using inject_moves[of _ _ "wb_hub st" ch sid body ms ds flash] that by (simp add: hub_moves_def)
  ultimately show "\<exists>rsp' ops st'. devChat env cur r rsp st = Some (rsp', ops, st') \<and> same_db st st'"
    by (auto simp: devChat_def Let_def session_ok_def same_db_def web_now_def split: prod.split)
qed

interpretation dashboard: user_reader "dashboard sv"
proof
  fix env u st r rsp
  assume s: "session_ok env (Some u) st"
  obtain q st1 where "reading (GetChannelByChzzkID (u_chzzk_id u)) st = (q, st1)" "same_db st st1" "wb_hub st1 = wb_hub st"
    by (rule reading_step[OF _ web_reads(2)]) (use s in \<open>auto simp: session_ok_def\<close>)
  then show "\<exists>rsp' ops st'. dashboard sv env (Some u) r rsp st = Some (rsp', ops, st') \<and> same_db st st'"
    by (cases q) (auto simp: dashboard_def)
qed

interpretation linkPage: user_reader linkPage
proof
  fix env u st r rsp
  assume s: "session_ok env (Some u) st"
  then have "app_ok (wb_app st)" by (simp add: session_ok_def)
  then obtain x a where c: "Card (u_id u) (u_preferred u) (wb_app st) = (x, a)" "app_ok a" "app_db a = app_db (wb_app st)"
    "w_now (snd a) = w_now (snd (wb_app st))" by (rule Card_step[where uid = "u_id u" and p = "u_preferred u"])
  then have "same_db st (st\<lparr>wb_app := a\<rparr>)" by (simp add: same_db_def web_now_def)
  with c(1) show "\<exists>rsp' ops st'. linkPage env (Some u) r rsp st = Some (rsp', ops, st') \<and> same_db st st'"
    by (cases x) (auto simp: linkPage_def)
qed

lemma Sync_highest: "Sync fetch uid k s = Some (Inr res, s') \<Longrightarrow> sr_ok res \<Longrightarrow> sr_highest res \<noteq> None"
  by (auto simp: Sync_def syncUser_def empty_sync_def Let_def split: prod.splits sum.splits if_splits option.splits)

text \<open>The limited actions of the card: over the limit the card says so, else the action runs and the card answers.\<close>

lemma limited_action:
  assumes "session_ok env (Some u) st0"
    and "\<And>st. session_ok env (Some u) st \<Longrightarrow>
      \<exists>rsp' ops st'. action st = Some (rsp', ops, st') \<and> touches (en_session_user env) st st'"
  shows "\<exists>rsp' ops st'. (case allow r scope limit st0 of (False, st) \<Rightarrow> tooMany u rsp st | (True, st) \<Rightarrow> action st)
      = Some (rsp', ops, st') \<and> touches (en_session_user env) st0 st'"
proof -
  obtain ok st where a: "allow r scope limit st0 = (ok, st)" by fastforce
  note s = session_allow[OF assms(1) a]
  show ?thesis
  proof (cases ok)
    case True
    then show ?thesis using assms(2)[of st] s a touches_trans[OF same_db_touches] by fastforce
  next
    case False
    have "app_ok (wb_app st)" using s by (simp add: session_ok_def)
    then obtain rsp' st' where t: "tooMany u rsp st = Some (rsp', [], st')" "same_db st st'" using renderCard_step(2) by blast
    then have "touches (en_session_user env) st0 st'" using s same_db_trans same_db_touches by blast
    with False a t show ?thesis by simp
  qed
qed

lemma session_user_op:
  "session_ok env (Some u) st \<Longrightarrow> app_ok (wb_app st) \<and> (u_id u, u_chzzk_id u) \<in> set (user_keys (app_db (wb_app st)))
    \<and> u_id u = en_session_user env"
  using session_keys[of env u st] by (simp add: session_ok_def)

lemma session_touches: "session_ok env (Some u) st \<Longrightarrow> touches uid st st"
  using session_user_op same_db_refl same_db_touches by blast

lemma session_app_op:
  assumes "session_ok env (Some u) st"
    and "\<And>s. app_ok s \<Longrightarrow> (u_id u, u_chzzk_id u) \<in> set (user_keys (app_db s)) \<Longrightarrow> \<exists>x a. f s = Some (x, a) \<and> op_step (u_id u) s a"
  obtains x st1 where "on_app f st = Some (x, st1)" "touches (en_session_user env) st st1"
  using assms(2)[of "wb_app st"] session_user_op[OF assms(1)] by (metis on_app_step)

interpretation linkConnect: user_handler linkConnect
proof
  fix env u st r rsp
  assume s: "session_ok env (Some u) st"
  show "\<exists>rsp' ops st'. linkConnect env (Some u) r rsp st = Some (rsp', ops, st') \<and> touches (en_session_user env) st st'"
    unfolding linkConnect_def option.case
    apply (rule limited_action[OF s])
    subgoal premises p for st
    proof -
      obtain x st1 where x: "on_app (Connect (en_lookup env) (en_fetch env) (u_id u) (u_chzzk_id u) (trim_space (FormValue r ''token''))) st = Some (x, st1)"
        "touches (en_session_user env) st st1"
        by (rule session_app_op[OF p Connect_step])
      then show ?thesis
        using then_card[OF x(2), where u = u and rsp = rsp]
          then_card[OF session_touches[OF p, where uid = "en_session_user env"], where u = u and rsp = rsp]
        by (cases x) (simp_all add: Let_def)
    qed
    done
qed

interpretation linkSync: user_handler linkSync
proof
  fix env u st r rsp
  assume s: "session_ok env (Some u) st"
  show "\<exists>rsp' ops st'. linkSync env (Some u) r rsp st = Some (rsp', ops, st') \<and> touches (en_session_user env) st st'"
    unfolding linkSync_def option.case
    apply (rule limited_action[OF s])
    subgoal premises p for st
    proof -
      obtain x st1 where x: "on_app (Sync (en_fetch env) (u_id u) (u_chzzk_id u)) st = Some (x, st1)"
        "touches (en_session_user env) st st1"
        by (rule session_app_op[OF p Sync_step])
      have h: "sr_highest res \<noteq> None" if "x = Inr res" "sr_ok res" for res
        using Sync_highest[of "en_fetch env" "u_id u" "u_chzzk_id u" "wb_app st" res] x(1) that
        by (auto simp: on_app_def split: option.splits)
      note c = then_card[OF x(2), where u = u and rsp = rsp]
      show ?thesis
      proof (cases x)
        case (Inl e)
        then show ?thesis using c x(1) by simp
      next
        case (Inr res)
        then show ?thesis using c x(1) h[OF Inr] by (cases "sr_highest res") auto
      qed
    qed
    done
qed

interpretation linkUnlink: user_handler linkUnlink
proof
  fix env u st r rsp
  assume s: "session_ok env (Some u) st"
  show "\<exists>rsp' ops st'. linkUnlink env (Some u) r rsp st = Some (rsp', ops, st') \<and> touches (en_session_user env) st st'"
  proof -
    obtain x st1 where x: "on_app (Unlink (u_id u) (u_chzzk_id u)) st = Some (x, st1)"
      "touches (en_session_user env) st st1"
      by (rule session_app_op[OF s Unlink_step])
    then show ?thesis using then_card[OF x(2), where u = u and rsp = rsp] by (cases x) (simp_all add: linkUnlink_def)
  qed
qed

interpretation linkPreferredButton: user_handler linkPreferredButton
proof
  fix env u st r rsp
  assume s: "session_ok env (Some u) st"
  show "\<exists>rsp' ops st'. linkPreferredButton env (Some u) r rsp st = Some (rsp', ops, st') \<and> touches (en_session_user env) st st'"
    unfolding linkPreferredButton_def option.case
    apply (rule limited_action[OF s])
    subgoal premises p for st
    proof -
      obtain x st1 where x: "on_app (SetPreferredButton (u_id u) (u_chzzk_id u) (FormValue r ''button'')) st = Some (x, st1)"
        "touches (en_session_user env) st st1"
        by (rule session_app_op[OF p SetPreferredButton_step])
      then show ?thesis using then_card[OF x(2), where u = u and rsp = rsp] by (cases x) simp_all
    qed
    done
qed

section \<open>The endpoints\<close>

text \<open>The endpoints that change the rows of the session user; the callback is the one left.\<close>

definition card_action :: "endpoint \<Rightarrow> bool" where
  "card_action ep \<longleftrightarrow> ep \<in> {EpLinkConnect, EpLinkSync, EpLinkUnlink, EpLinkPreferred}"

lemma open_stream_step:
  assumes "app_ok (wb_app st)" shows "same_db st (snd (snd (open_stream c rsp st)))"
proof -
  obtain q st1 where q: "reading (GetChannelByChzzkID c) st = (q, st1)" "same_db st st1" "wb_hub st1 = wb_hub st"
    by (rule reading_step[OF assms web_reads(2)])
  moreover have "hub_moves st (st1\<lparr>wb_hub := h\<rparr>)" if "Subscribe c (wb_hub st1) = (x, h)" for x h
    unfolding hub_moves_def
  proof (intro allI impI)
    fix mc mt assume "reachable mc mt (wb_hub st)"
    from reachable.step[OF this, of "EvSubscribe c"] that q(3) show "reachable mc mt (wb_hub (st1\<lparr>wb_hub := h\<rparr>))" by simp
  qed
  ultimately show ?thesis
    by (auto simp: open_stream_def same_db_def web_now_def split: sum.split prod.split)
qed

lemma card_action_step:
  assumes "app_ok (wb_app st)" "card_action ep"
  shows "\<exists>rsp' ops st'. run_endpoint sv fl env r ep vs rsp st = Some (rsp', ops, st') \<and> touches (en_session_user env) st st'
    \<and> (same_db st st' \<or> en_session_user env \<in> user_ids (app_db (wb_app st)))"
  using assms(2) linkConnect.guarded.withUser_own[OF assms(1)] linkSync.guarded.withUser_own[OF assms(1)]
    linkUnlink.guarded.withUser_own[OF assms(1)] linkPreferredButton.guarded.withUser_own[OF assms(1)]
  unfolding card_action_def by auto

lemma reading_endpoint_step:
  assumes "app_ok (wb_app st)" "\<not> card_action ep" "ep \<noteq> EpCallback"
  shows "\<exists>rsp' ops st'. run_endpoint sv fl env r ep vs rsp st = Some (rsp', ops, st') \<and> same_db st st'"
proof -
  note refl = same_db_refl[OF assms(1)]
  have stream: "\<exists>rsp' ops st'. widgetStream c rsp st = Some (rsp', ops, st') \<and> same_db st st'" for c
    using open_stream_step[OF assms(1), of c rsp] by (auto simp: widgetStream_def split: prod.splits option.splits)
  show ?thesis
    using assms(2,3) refl stream landing.withUser_reads[OF assms(1)] loginPage.withUser_reads[OF assms(1)]
      startLogin.withUser_reads[OF assms(1)] logout.withUser_reads[OF assms(1)] dashboard.guarded.withUser_reads[OF assms(1)]
      linkPage.guarded.withUser_reads[OF assms(1)] devPage.withUser_reads[OF assms(1)] devChat.withUser_reads[OF assms(1)]
    by (cases ep) (simp_all add: card_action_def widgetPage_def healthz_def)
qed

text \<open>The routes: what changes rows takes a POST.\<close>

lemma wildcard_value: "seg_match (Literal l # Wildcard # ps) ss = Some vs \<Longrightarrow> vs \<noteq> []"
  by (cases ss; cases "tl ss") (auto split: if_splits)

lemma match_route_in:
  "match_route rs m ss = Some (ps, ep, vs) \<Longrightarrow> \<exists>pm. (pm, ps, ep) \<in> set rs \<and> method_match m pm \<and> seg_match ps ss = Some vs"
  by (induction rs m ss rule: match_route.induct) (auto split: if_splits option.splits)

lemma dispatch_serve:
  assumes "dispatch dev r = Serve ep vs"
  shows "\<exists>pm ps. (pm, ps, ep) \<in> set (routes dev) \<and> method_match (req_method r) pm
    \<and> seg_match ps (path_segments (request_escaped_path r)) = Some vs"
  using assms match_route_in[of "routes dev" "req_method r" "path_segments (request_escaped_path r)"]
  by (auto simp: dispatch_def Let_def split: if_splits option.splits prod.splits)

lemma dispatch_card_action:
  assumes "dispatch dev r = Serve ep vs" "card_action ep"
  shows "req_method r = ''POST''"
  using dispatch_serve[OF assms(1)] assms(2) by (auto simp: routes_def card_action_def method_match_def split: if_splits)

text \<open>The widget endpoints always have the id their handlers take from the path.\<close>

lemma dispatch_widget:
  assumes "dispatch dev r = Serve ep vs" "ep \<in> {EpWidgetPage, EpWidgetStream}"
  shows "vs \<noteq> []"
  using dispatch_serve[OF assms(1)] assms(2) wildcard_value by (fastforce simp: routes_def split: if_splits)

end
