(* ===== verification/Login.thy ===== *)
theory Login
  imports Routes
begin

text \<open>
  What logging in does (\<open>auth.go\<close>), and with it what any request may do: the callback stores the user and
  the encrypted tokens and keeps the badge cache right, it leads to the own origin only, and no other request
  changes rows that are not those of its session user.
\<close>

section \<open>Storing the user and the channel\<close>

lemma badge_of_UpsertUser:
  assumes "db_inv d" "UpsertUser c n t d = Inr (u, d')"
  shows "badge_of d' k = badge_of d k \<and> db_channels d' = db_channels d
    \<and> find (\<lambda>u. u_chzzk_id u = c) (db_users d') = Some u \<and> u_chzzk_id u = c \<and> u_nickname u = n"
proof (cases "find (\<lambda>u. u_chzzk_id u = c) (db_users d)")
  case (Some v)
  then have d': "d' = d\<lparr>db_users := update_where (\<lambda>x. u_chzzk_id x = c) (\<lambda>x. x\<lparr>u_nickname := n\<rparr>) (db_users d)\<rparr>"
    "u = v\<lparr>u_nickname := n\<rparr>" using assms(2) by (simp_all add: UpsertUser_def)
  have f: "find (\<lambda>u. u_chzzk_id u = k) (db_users d')
      = map_option (\<lambda>x. if u_chzzk_id x = c then x\<lparr>u_nickname := n\<rparr> else x) (find (\<lambda>u. u_chzzk_id u = k) (db_users d))" for k
    unfolding d' by (simp add: find_update_where)
  have "u_chzzk_id v = c" using Some by (auto simp: find_Some_iff)
  then show ?thesis using f[of k] f[of c] Some by (auto simp: badge_of_def d' split: option.split)
next
  case None
  then have d': "d' = d\<lparr>db_users := db_users d @ [u]\<rparr>" "u_id u = next_id (map u_id (db_users d))"
    "u_chzzk_id u = c" "u_nickname u = n" using assms(2) by (auto simp: UpsertUser_def Let_def)
  have "u_id u \<notin> user_ids d" unfolding user_ids_def d'(2) by (rule next_id_fresh_image)
  then have "\<not> list_ex (\<lambda>l. l_user l = u_id u \<and> l_active l) (db_links d)"
    using assms(1) by (auto simp: db_inv_def links_ok_def list_all_iff list_ex_iff)
  then show ?thesis using None d' by (auto simp: badge_of_def find_append split: option.split)
qed

lemma find_map: "find P (map f xs) = map_option f (find (P \<circ> f) xs)"
  by (induction xs) simp_all

lemma UpsertChannel_rows:
  assumes "UpsertChannel uid c ac re ex t d = Inr (x, d')" "distinct (map ch_chzzk_id (db_channels d))"
  shows "db_users d' = db_users d \<and> db_links d' = db_links d \<and> db_classes d' = db_classes d
    \<and> (\<exists>ch. find (\<lambda>x. ch_chzzk_id x = c) (db_channels d') = Some ch \<and> ch_user ch = uid \<and> ch_access ch = ac
          \<and> ch_refresh ch = re \<and> ch_expires ch = ex)"
proof (cases "find (\<lambda>x. ch_user x = uid) (db_channels d)")
  case None
  let ?ch = "\<lparr>ch_id = next_id (map ch_id (db_channels d)), ch_user = uid, ch_chzzk_id = c, ch_access = ac,
      ch_refresh = re, ch_expires = ex, ch_created = unixepoch t\<rparr>"
  from None assms(1) have d': "d' = d\<lparr>db_channels := db_channels d @ [?ch]\<rparr>" "c \<notin> set (map ch_chzzk_id (db_channels d))"
    by (simp_all add: UpsertChannel_def split: if_splits)
  then have "find (\<lambda>x. ch_chzzk_id x = c) (db_channels d) = None" by (auto simp: find_None_iff)
  then show ?thesis by (simp add: d'(1) find_append)
next
  case (Some o1)
  define f :: "channel_row \<Rightarrow> channel_row" where "f = (\<lambda>x. if ch_user x = uid then x\<lparr>ch_chzzk_id := c, ch_access := ac, ch_refresh := re, ch_expires := ex\<rparr> else x)"
  have d': "d' = d\<lparr>db_channels := map f (db_channels d)\<rparr>"
    and other: "\<forall>x\<in>set (db_channels d). ch_user x \<noteq> uid \<longrightarrow> ch_chzzk_id x \<noteq> c"
    using assms(1) Some by (auto simp: UpsertChannel_def update_where_def f_def split: if_splits)
  have "(\<lambda>x. ch_chzzk_id (f x) = c) y \<longleftrightarrow> ch_user y = uid" if "y \<in> set (db_channels d)" for y
    using other that by (auto simp: f_def)
  then have "find (\<lambda>x. ch_chzzk_id (f x) = c) (db_channels d) = find (\<lambda>x. ch_user x = uid) (db_channels d)"
    by (intro find_cong) simp_all
  then have "find (\<lambda>x. ch_chzzk_id x = c) (map f (db_channels d)) = Some (f o1)"
    using Some by (simp add: find_map o_def)
  moreover have "ch_user o1 = uid" using Some by (auto simp: find_Some_iff)
  ultimately show ?thesis by (simp add: d' f_def)
qed

text \<open>What a stored login is.\<close>

definition logged_in :: "string \<Rightarrow> string \<Rightarrow> string \<Rightarrow> string \<Rightarrow> int \<Rightarrow> user_row \<Rightarrow> db \<Rightarrow> bool" where
  "logged_in c n access refresh expires u d \<longleftrightarrow>
     find (\<lambda>u. u_chzzk_id u = c) (db_users d) = Some u \<and> u_nickname u = n
     \<and> (\<exists>ch. find (\<lambda>x. ch_chzzk_id x = c) (db_channels d) = Some ch \<and> ch_user ch = u_id u \<and> ch_access ch = Some access
          \<and> ch_refresh ch = Some refresh \<and> ch_expires ch = Some expires)"

lemma keeps_save_login [stmt_intros]: "keeps_act (save_login c n access refresh expires held)"
  unfolding save_login_def by (intro stmt_intros)

lemma steady_save_login: "steady (save_login c n access refresh expires held)"
  unfolding save_login_def by (intro frame_intros)

lemma save_login_ok:
  assumes "db_inv (w_db w)" "save_login c n access refresh expires held w = (Inr u, w2)"
  shows "logged_in c n access refresh expires u (w_db w2) \<and> (\<forall>k. badge_of (w_db w2) k = badge_of (w_db w) k)"
proof -
  from assms(2) obtain w1 x where s: "run_stmt (UpsertUser c n) w = (Inr u, w1)"
    "run_stmt (UpsertChannel (u_id u) c (Some access) (Some refresh) (Some expires)) w1 = (Inr x, w2)"
    by (auto simp: save_login_def and_then_def return_ok_def split: prod.splits sum.splits)
  note r1 = run_stmt_ok[OF s(1)] and r2 = run_stmt_ok[OF s(2)]
  note b = badge_of_UpsertUser[OF assms(1) r1[THEN conjunct1]]
  have "db_inv (w_db w1)" using keeps_UpsertUser r1 assms(1) unfolding keeps_stmt_def by blast
  then have "distinct (map ch_chzzk_id (db_channels (w_db w1)))" by (simp add: db_inv_def channels_ok_def)
  note c = UpsertChannel_rows[OF r2[THEN conjunct1] this]
  have "badge_of (w_db w2) k = badge_of (w_db w1) k" for k
    by (simp only: badge_of_def c[THEN conjunct1] c[THEN conjunct2, THEN conjunct1] c[THEN conjunct2, THEN conjunct2, THEN conjunct1])
  then have "badge_of (w_db w2) k = badge_of (w_db w) k" for k using b[of k] by simp
  then show ?thesis using b c by (simp add: logged_in_def)
qed

lemma save_login_step:
  assumes "app_ok (ca, w)" "WriteTx False (save_login c n access refresh expires) w = (x, w')"
  shows "app_ok (ca, w') \<and> w_now w' = w_now w \<and> (case x of Inl e \<Rightarrow> w_db w' = w_db w
    | Inr u \<Rightarrow> logged_in c n access refresh expires u (w_db w'))"
proof -
  have inv: "db_inv (w_db w)" and co: "ttl.sound (\<lambda>k v x. v = badge_of (w_db w) k) ca"
    using assms(1) by (simp_all add: app_ok_def app_db_def coherent_def)
  have inv': "db_inv (w_db w')" using keeps_actD[OF keeps_WriteTx[OF keeps_save_login] inv assms(2)] .
  have now: "w_now w' = w_now w"
    using WriteTx_now[of "save_login c n access refresh expires" False w] steady_save_login assms(2) by (simp add: steady_def)
  show ?thesis
  proof (cases x)
    case (Inl e)
    then have "w_db w' = w_db w" using WriteTx_error[OF assms(2)[unfolded Inl]] by simp
    then show ?thesis using Inl inv co now by (simp add: app_ok_def app_db_def coherent_def)
  next
    case (Inr u)
    then obtain w2 where "save_login c n access refresh expires True (snd (take_fault w)) = (Inr u, w2)" "w_db w' = w_db w2"
      using WriteTx_ok[OF assms(2)[unfolded Inr]] by blast
    with save_login_ok[of "snd (take_fault w)" c n access refresh expires True u w2] inv
    have "logged_in c n access refresh expires u (w_db w')" "\<forall>k. badge_of (w_db w') k = badge_of (w_db w) k" by simp_all
    then show ?thesis using Inr inv' co now by (simp add: app_ok_def app_db_def coherent_def)
  qed
qed

section \<open>The callback\<close>

text \<open>The ways a callback can end: over the limit, failed, or logged in.\<close>

lemma callback_cases:
  assumes "app_ok (wb_app st0)"
  obtains (limited) st where "callback sv env cur r rsp0 st0 = Some (http_error msg_too_many 429 rsp0, [], st)" "same_db st0 st"
  | (failed) ops st rsp where "callback sv env cur r rsp0 st0 = Some (redirect r ''/?error=auth_failed'' 302 rsp, ops, st)"
      "ops = [] \<and> same_db st0 st \<or> ops = [RenewToken] \<and> \<not> en_renew_ok env \<and> Cookie r stateCookie = Some (query r ''state'')
         \<and> query r ''state'' \<noteq> ''''" "app_ok (wb_app st)" "web_now st = web_now st0" "hub_moves st0 st"
  | (success) rsp tok me u st where
      "callback sv env cur r rsp0 st0 = Some (redirect r (case Cookie r nextCookie of Some v \<Rightarrow> safeNextPath v ''/dashboard/'' | None \<Rightarrow> ''/dashboard/'') 302 rsp,
         [RenewToken, PutUser (u_id u)], st)"
      "Cookie r stateCookie = Some (query r ''state'')" "query r ''state'' \<noteq> ''''" "query r ''code'' \<noteq> ''''"
      "ExchangeCode (sv_client sv) (en_exchange env) (query r ''code'') (query r ''state'') = Inr tok"
      "Me (sv_client sv) (en_me env) (tk_access tok) = Inr me"
      "logged_in (cz_channel_id me) (cz_nickname me) (Encrypt (sv_key sv) (fst (en_nonces env)) (tk_access tok))
         (Encrypt (sv_key sv) (snd (en_nonces env)) (tk_refresh tok)) (unixepoch (web_now st0) + tk_expires_in tok) u
         (app_db (wb_app st))" "app_ok (wb_app st)" "web_now st = web_now st0" "hub_moves st0 st"
proof -
  obtain ok st1 where a: "allow r ''auth'' 10 st0 = (ok, st1)" by fastforce
  note app = allow_app[OF a]
  have ok1: "app_ok (wb_app st1)" "web_now st1 = web_now st0" "same_db st0 st1" "hub_moves st0 st1"
    using app assms by (simp_all add: same_db_def web_now_def hub_moves_def)
  define rsp where "rsp = add_cookie (oauthCookie sv nextCookie '''' (- 1)) (add_cookie (oauthCookie sv stateCookie '''' (- 1)) rsp0)"
  define bad where "bad \<longleftrightarrow> Cookie r stateCookie = None \<or> query r ''code'' = '''' \<or> query r ''state'' = '''' \<or>
    the (Cookie r stateCookie) \<noteq> query r ''state''"
  show ?thesis
  proof (cases ok)
    case False
    then show ?thesis using limited[of st1] a ok1 by (simp add: callback_def)
  next
    case True
    note cb = callback_def[of sv env cur r rsp0 st0, unfolded a Let_def, simplified, folded rsp_def, folded bad_def]
    show ?thesis
    proof (cases bad)
      case b: True
      show ?thesis by (rule failed[of rsp "[]" st1]) (simp_all add: cb True b ok1)
    next
      case good: False
      then have g: "Cookie r stateCookie = Some (query r ''state'')" "query r ''state'' \<noteq> ''''" "query r ''code'' \<noteq> ''''"
        unfolding bad_def by auto
      show ?thesis
      proof (cases "ExchangeCode (sv_client sv) (en_exchange env) (query r ''code'') (query r ''state'')")
        case (Inl e)
        show ?thesis by (rule failed[of rsp "[]" st1]) (simp_all add: cb True good Inl ok1)
      next
        case tok: (Inr tok)
        show ?thesis
        proof (cases "Me (sv_client sv) (en_me env) (tk_access tok)")
          case (Inl e)
          show ?thesis by (rule failed[of rsp "[]" st1]) (simp_all add: cb True good tok Inl ok1)
        next
          case me: (Inr me)
          obtain ca w where s: "wb_app st1 = (ca, w)" by fastforce
          obtain x w' where tx: "WriteTx False (save_login (cz_channel_id me) (cz_nickname me)
              (Encrypt (sv_key sv) (fst (en_nonces env)) (tk_access tok)) (Encrypt (sv_key sv) (snd (en_nonces env)) (tk_refresh tok))
              (unixepoch (web_now st1) + tk_expires_in tok)) w = (x, w')" by fastforce
          have step: "app_ok (ca, w')" "w_now w' = w_now w" "case x of Inl e \<Rightarrow> w_db w' = w_db w | Inr u \<Rightarrow>
              logged_in (cz_channel_id me) (cz_nickname me) (Encrypt (sv_key sv) (fst (en_nonces env)) (tk_access tok))
                (Encrypt (sv_key sv) (snd (en_nonces env)) (tk_refresh tok)) (unixepoch (web_now st0) + tk_expires_in tok) u (w_db w')"
            using save_login_step[OF ok1(1)[unfolded s] tx] unfolding ok1(2) by blast+
          have now: "web_now (st1\<lparr>wb_app := (ca, w')\<rparr>) = web_now st0" using step(2) ok1(2) s by (simp add: web_now_def)
          show ?thesis
          proof (cases x)
            case (Inl e)
            have "same_db st0 (st1\<lparr>wb_app := (ca, w')\<rparr>)"
              using step ok1 s now Inl by (simp add: same_db_def app_db_def)
            then show ?thesis using step(1) now ok1(4)
              by (intro failed[of rsp "[]" "st1\<lparr>wb_app := (ca, w')\<rparr>"]) (simp_all add: cb True good tok me s tx Inl)
          next
            case (Inr u)
            show ?thesis
            proof (cases "en_renew_ok env")
              case r: True
              show ?thesis
                by (rule success[OF _ g tok me, of rsp u "st1\<lparr>wb_app := (ca, w')\<rparr>"])
                  (use step now ok1(4) in \<open>simp_all add: cb True good tok me s tx Inr r app_db_def\<close>)
            next
              case r: False
              show ?thesis
                by (rule failed[of rsp "[RenewToken]" "st1\<lparr>wb_app := (ca, w')\<rparr>"])
                  (use step now g ok1(4) in \<open>simp_all add: cb True good tok me s tx Inr r\<close>)
            qed
          qed
        qed
      qed
    qed
  qed
qed

lemma redirect_location: "map_of (rp_header (redirect r t code rsp)) ''Location'' = Some (location_of (req_path r) t)"
  by (simp add: redirect_def Let_def set_header_def AList.update_conv')

lemma error_location: "location_of old ''/?error=auth_failed'' = ''/?error=auth_failed''"
proof -
  have "(case url_parse ''/?error=auth_failed'' of Some u \<Rightarrow> url_scheme u = '''' \<and> url_host u = '''' | None \<Rightarrow> False)"
    by code_simp
  moreover have "clean_target ''/?error=auth_failed'' = ''/?error=auth_failed''"
    "hex_escape_non_ascii ''/?error=auth_failed'' = ''/?error=auth_failed''" by code_simp+
  ultimately show ?thesis by (simp add: location_of_def split: option.splits)
qed

text \<open>
  C10: Logging in. A callback puts a user in the session only after the session token is renewed, for a request whose
  state is the one in its cookie and not empty, when Chzzk exchanged the code and named the channel; the user is
  the row of that channel, and the channel's row holds both tokens, encrypted, with their expiry. Every other
  callback ends over the limit or at the error page, with nobody logged in.
\<close>

theorem callback_outcome:
  assumes "app_ok (wb_app st0)" "callback sv env cur r rsp0 st0 = Some (rsp, ops, st)"
  shows "if \<exists>v. PutUser v \<in> set ops
    then (\<exists>tok me u. Cookie r stateCookie = Some (query r ''state'') \<and> query r ''state'' \<noteq> ''''
      \<and> ExchangeCode (sv_client sv) (en_exchange env) (query r ''code'') (query r ''state'') = Inr tok
      \<and> Me (sv_client sv) (en_me env) (tk_access tok) = Inr me
      \<and> ops = [RenewToken, PutUser (u_id u)]
      \<and> logged_in (cz_channel_id me) (cz_nickname me) (Encrypt (sv_key sv) (fst (en_nonces env)) (tk_access tok))
           (Encrypt (sv_key sv) (snd (en_nonces env)) (tk_refresh tok)) (unixepoch (web_now st0) + tk_expires_in tok) u
           (app_db (wb_app st)))
    else rp_status rsp = 429 \<or> rp_status rsp = 302 \<and> map_of (rp_header rsp) ''Location'' = Some ''/?error=auth_failed''"
proof (cases rule: callback_cases[OF assms(1), where sv = sv and env = env and cur = cur and r = r and ?rsp0.0 = rsp0])
  case (1 st1)
  then show ?thesis using assms(2) by (auto simp: http_error_def)
next
  case (2 ops1 st1 rsp1)
  then have "rsp = redirect r ''/?error=auth_failed'' 302 rsp1" "\<forall>v. PutUser v \<notin> set ops" using assms(2) by auto
  then show ?thesis by (simp add: redirect_location error_location) (simp add: redirect_def Let_def)
next
  case (3 rsp1 tok me u st1)
  then show ?thesis using assms(2) by auto
qed

text \<open>
  C21: Where a login leads. Whatever the cookies hold, every redirect of the callback stays on the own origin, also
  after \<open>http.Redirect\<close> has cleaned the path.
\<close>

theorem login_redirect_same_origin:
  assumes "app_ok (wb_app st0)" "callback sv env cur r rsp0 st0 = Some (rsp, ops, st)" "rp_status rsp = 302"
  shows "\<exists>l. map_of (rp_header rsp) ''Location'' = Some l \<and> same_origin l"
proof -
  have target: "same_origin (safeNextPath v ''/dashboard/'')" for v
    by (rule safeNextPath_same_origin) code_simp
  show ?thesis
  proof (cases rule: callback_cases[OF assms(1), where sv = sv and env = env and cur = cur and r = r and ?rsp0.0 = rsp0])
    case (1 st1)
    then show ?thesis using assms(2,3) by (auto simp: http_error_def)
  next
    case (2 ops1 st1 rsp1)
    have "same_origin ''/?error=auth_failed''" by code_simp
    then have "same_origin (location_of (req_path r) ''/?error=auth_failed'')" by (rule location_same_origin) simp
    then show ?thesis using 2(1) assms(2) redirect_location[of r "''/?error=auth_failed''" 302 rsp1] by auto
  next
    case (3 rsp1 tok me u st1)
    define t where "t = (case Cookie r nextCookie of Some v \<Rightarrow> safeNextPath v ''/dashboard/'' | None \<Rightarrow> ''/dashboard/'')"
    have "same_origin ''/dashboard/''" by code_simp
    then have "same_origin t" unfolding t_def using target by (auto split: option.split)
    moreover have "CHR 0x5C \<notin> set t"
      using Cookie_bytes[of r nextCookie] by (auto simp: t_def safeNextPath_def list_all_iff cookie_byte_def split: option.splits if_splits)
    ultimately have "same_origin (location_of (req_path r) t)" by (rule location_same_origin)
    then show ?thesis using 3(1) assms(2) redirect_location[of r t 302 rsp1] unfolding t_def by auto
  qed
qed

section \<open>After a login\<close>


section \<open>What a request may do\<close>

lemma callback_step:
  assumes "app_ok (wb_app st)"
  shows "\<exists>rsp' ops st'. callback sv env cur r rsp st = Some (rsp', ops, st') \<and> app_ok (wb_app st') \<and> hub_moves st st'
    \<and> (same_db st st' \<or> Cookie r stateCookie = Some (query r ''state'') \<and> query r ''state'' \<noteq> '''')"
  by (cases rule: callback_cases[OF assms, where sv = sv and env = env and cur = cur and r = r and ?rsp0.0 = rsp])
    (auto simp: same_db_def)

lemma callback_endpoint:
  assumes "app_ok (wb_app st)"
  shows "\<exists>rsp' ops st'. run_endpoint sv fl env r EpCallback vs rsp st = Some (rsp', ops, st') \<and> app_ok (wb_app st')
    \<and> hub_moves st st' \<and> (same_db st st' \<or> Cookie r stateCookie = Some (query r ''state'') \<and> query r ''state'' \<noteq> '''')"
proof (cases rule: withUser_cases[OF assms, where h = "callback sv" and env = env and r = r and rsp = rsp])
  case (1 rsp' st')
  then show ?thesis by (simp add: same_db_def)
next
  case (2 cur st1 ops)
  then have "app_ok (wb_app st1)" by (simp add: same_db_def)
  with callback_step[of st1 sv env cur r "set_header ''Cache-Control'' ''no-store'' rsp"] 2(2,3) show ?thesis
    by (fastforce simp: same_db_def intro: hub_moves_trans)
qed

text \<open>Every way through the server, from the check of the origin to the end of a handler.\<close>

lemma Handler_cases:
  assumes "app_ok (wb_app st)"
  obtains (reads) rsp ops st' where "Handler sv fl env r st = Some (rsp, ops, st')" "same_db st st'"
  | (card) ep vs rsp ops st' where "Handler sv fl env r st = Some (rsp, ops, st')" "dispatch (sv_dev sv) r = Serve ep vs"
      "card_action ep" "\<not> cross_origin r" "touches (en_session_user env) st st'"
      "same_db st st' \<or> en_session_user env \<in> user_ids (app_db (wb_app st))"
  | (login) vs rsp ops st' where "Handler sv fl env r st = Some (rsp, ops, st')" "dispatch (sv_dev sv) r = Serve EpCallback vs"
      "app_ok (wb_app st')" "hub_moves st st'" "same_db st st' \<or> Cookie r stateCookie = Some (query r ''state'') \<and> query r ''state'' \<noteq> ''''"
proof (cases "cross_origin r")
  case True
  then show ?thesis using reads same_db_refl[OF assms] by (simp add: Handler_def)
next
  case False
  define rsp0 :: "body response" where "rsp0 = securityHeaders (sv_https sv) blank"
  have H: "Handler sv fl env r st = serve_mux sv fl env r rsp0 st" using False by (simp add: Handler_def rsp0_def)
  show ?thesis
  proof (cases "dispatch (sv_dev sv) r")
    case (Serve ep vs)
    then have S: "Handler sv fl env r st = run_endpoint sv fl env r ep vs rsp0 st" by (simp add: H serve_mux_def)
    consider "card_action ep" | "ep = EpCallback" | "\<not> card_action ep" "ep \<noteq> EpCallback" by blast
    then show ?thesis
    proof cases
      case 1
      with card_action_step[OF assms 1, of sv fl env r vs rsp0] S Serve False card show ?thesis by metis
    next
      case 2
      with callback_endpoint[OF assms, of sv fl env r vs rsp0] S Serve login show ?thesis by metis
    next
      case 3
      with reading_endpoint_step[OF assms 3, of sv fl env r vs rsp0] S reads show ?thesis by metis
    qed
  qed (use reads same_db_refl[OF assms] in \<open>auto simp: H serve_mux_def\<close>)
qed

text \<open>
  C4: The server as a whole. No request makes a handler panic; each leaves a database that meets the schema and a
  badge cache that agrees with it, and a hub that only its own operations have moved; and all but the callback of a login change at most rows of the session's user,
  leaving everybody else's links, classes and preferences, all channels and all sessions as they were.
\<close>

theorem requests_touch_own_rows:
  assumes "app_ok (wb_app st)"
  shows "\<exists>rsp ops st'. Handler sv fl env r st = Some (rsp, ops, st') \<and> app_ok (wb_app st') \<and> hub_moves st st'
    \<and> ((\<forall>vs. dispatch (sv_dev sv) r \<noteq> Serve EpCallback vs) \<longrightarrow>
        only_user (en_session_user env) (app_db (wb_app st)) (app_db (wb_app st')))"
proof (cases rule: Handler_cases[OF assms, where sv = sv and fl = fl and env = env and r = r])
  case (1 rsp ops st')
  then show ?thesis by (auto simp: same_db_def)
next
  case (2 ep vs rsp ops st')
  then show ?thesis by (auto simp: touches_def op_step_def)
next
  case (3 vs rsp ops st')
  then show ?thesis by auto
qed


section \<open>A login, run\<close>

definition empty_web :: web_state where
  "empty_web = \<lparr>wb_app = new_app \<lparr>w_db = empty_db, w_now = 0, w_faults = []\<rparr>, wb_limiter = [], wb_hub = hub_new 0 0\<rparr>"

definition sample_me :: api_http where
  \<open>sample_me rq = NetAnswer 200 ''{"content":{"channelId":"c9","channelName":"n"}}''\<close>

definition sample_server :: server where
  "sample_server = \<lparr>sv_client = new_client ''i'' ''s'' ''u'', sv_key = sha256 (octets ''k''),
     sv_base_url = ''http://localhost:8000'', sv_https = False, sv_dev = False\<rparr>"

definition sample_env :: environment where
  "sample_env = \<lparr>en_session_user = 0, en_renew_ok = True, en_state_bytes = [], en_nonces = (replicate 12 1, replicate 12 2),
     en_exchange = sample_api, en_me = sample_me, en_lookup = (\<lambda>t. Inl ErrUnavailable), en_fetch = (\<lambda>n. []), en_ping_ok = True\<rparr>"

definition sample_callback :: web_request where
  "sample_callback = \<lparr>req_method = ''GET'', req_path = ''/api/auth/chzzk/callback'', req_header = [],
     req_query = [(''code'', ''c''), (''state'', ''s'')], req_form = [], req_cookie = [(''oauth_state'', ''s''), (''oauth_next'', ''/link/'')],
     req_remote = ''1.2.3.4:5'', rq_host = ''localhost:8000'', rq_raw_path = '''', rq_raw_query = ''code=c&state=s''\<rparr>"

lemma empty_web_ok: "app_ok (wb_app empty_web)" "app_db (wb_app empty_web) = empty_db" "web_now empty_web = 0"
  using db_inv_empty coherent_new[of "\<lparr>w_db = empty_db, w_now = 0, w_faults = []\<rparr>"]
  by (simp_all add: empty_web_def app_ok_def app_db_def new_app_def web_now_def)

lemma sample_exchange:
  "cl_token_url c = TokenURL \<Longrightarrow>
     ExchangeCode c sample_api code state = Inr \<lparr>tk_access = ''A'', tk_refresh = ''R'', tk_expires_in = 3600\<rparr>"
  by (simp add: ExchangeCode_def sample_token)

lemma sample_me_answer:
  assumes "cl_api_url c = APIURL"
  shows "Me c sample_me token = Inr \<lparr>cz_channel_id = ''c9'', cz_nickname = ''n''\<rparr>"
proof -
  have "decodeContent me_fields \<lparr>me_channel_id = '''', me_channel_name = ''''\<rparr>
      (take response_limit (case sample_me undefined of NetAnswer s b \<Rightarrow> b)) = Inr \<lparr>me_channel_id = ''c9'', me_channel_name = ''n''\<rparr>"
    unfolding sample_me_def api_answer.case by code_simp
  then show ?thesis using api_urls_parse(2) by (simp add: Me_def do_request_def send_request_def sample_me_def assms)
qed

lemma sample_client: "cl_token_url (sv_client sample_server) = TokenURL" "cl_api_url (sv_client sample_server) = APIURL"
  by (simp_all add: sample_server_def new_client_def)

lemmas sample_answers = sample_exchange[OF sample_client(1)] sample_me_answer[OF sample_client(2)]

lemma sample_allow: "fst (allow sample_callback ''auth'' 10 empty_web)"
  by code_simp

lemma sample_texts:
  "Cookie sample_callback stateCookie = Some ''s''" "query sample_callback ''state'' = ''s''" "query sample_callback ''code'' = ''c''"
  "Cookie sample_callback nextCookie = Some ''/link/''" "safeNextPath ''/link/'' ''/dashboard/'' = ''/link/''"
  by code_simp+

lemma sample_login:
  "\<exists>rsp st. callback sample_server sample_env None sample_callback rsp0 empty_web = Some (rsp, [RenewToken, PutUser 1], st)
    \<and> rp_status rsp = 302 \<and> w_faults (snd (wb_app st)) = [] \<and> app_db (wb_app st) \<noteq> empty_db"
proof -
  obtain st1 where a: "allow sample_callback ''auth'' 10 empty_web = (True, st1)"
    using sample_allow by (cases "allow sample_callback ''auth'' 10 empty_web") simp
  have s: "wb_app st1 = new_app \<lparr>w_db = empty_db, w_now = 0, w_faults = []\<rparr>"
    using allow_app[OF a] by (simp add: empty_web_def)
  have tx: "\<exists>w1. WriteTx False (save_login ''c9'' ''n'' ac re ex) \<lparr>w_db = empty_db, w_now = 0, w_faults = []\<rparr>
      = (Inr \<lparr>u_id = 1, u_chzzk_id = ''c9'', u_nickname = ''n'', u_preferred = None, u_created = 0\<rparr>, w1)
      \<and> w_faults w1 = [] \<and> w_db w1 \<noteq> empty_db" for ac re ex
    by (simp add: WriteTx_def save_login_def and_then_def return_ok_def run_stmt_def UpsertUser_def UpsertChannel_def
        empty_db_def Let_def next_id_def unixepoch_def user_exists_def)
  show ?thesis
    using tx[of "Encrypt (sv_key sample_server) (replicate 12 1) ''A''" "Encrypt (sv_key sample_server) (replicate 12 2) ''R''" "unixepoch (web_now st1) + 3600"]
    by (auto simp: callback_def a s sample_texts sample_answers Let_def sample_env_def new_app_def
        redirect_def app_db_def split: prod.splits)
qed

theorem callback_outcome_witness:
  "\<exists>u d. logged_in ''c9'' ''n'' (Encrypt (sv_key sample_server) (replicate 12 1) ''A'') (Encrypt (sv_key sample_server) (replicate 12 2) ''R'') 3600 u d"
proof -
  obtain rsp st where l: "callback sample_server sample_env None sample_callback blank empty_web = Some (rsp, [RenewToken, PutUser 1], st)"
    using sample_login by blast
  note c = callback_outcome[OF empty_web_ok(1) l]
  have p: "\<exists>v. PutUser v \<in> set [RenewToken, PutUser 1]" by simp
  have e: "en_me sample_env = sample_me" "en_exchange sample_env = sample_api" "en_nonces sample_env = (replicate 12 1, replicate 12 2)"
    by (simp_all add: sample_env_def)
  from c[unfolded if_P[OF p] sample_texts sample_answers e empty_web_ok(3)] show ?thesis
    by (auto simp: unixepoch_def)
qed

theorem login_redirect_same_origin_witness:
  "\<exists>rsp ops st l. callback sample_server sample_env None sample_callback blank empty_web = Some (rsp, ops, st)
    \<and> map_of (rp_header rsp) ''Location'' = Some l \<and> same_origin l"
proof -
  obtain rsp st where l: "callback sample_server sample_env None sample_callback blank empty_web = Some (rsp, [RenewToken, PutUser 1], st)"
    "rp_status rsp = 302" using sample_login by blast
  from login_redirect_same_origin[OF empty_web_ok(1) l] l(1) show ?thesis by blast
qed


lemma sample_dispatch: "dispatch (sv_dev sample_server) sample_callback = Serve EpCallback []"
proof -
  have "dispatch False sample_callback = Serve EpCallback []" by code_simp
  then show ?thesis by (simp add: sample_server_def)
qed

theorem requests_touch_own_rows_witness:
  "\<exists>rsp ops st'. Handler sample_server (\<lambda>p rsp. rsp) sample_env sample_callback empty_web = Some (rsp, ops, st') \<and> app_ok (wb_app st')"
  using requests_touch_own_rows[OF empty_web_ok(1), of sample_server "\<lambda>p rsp. rsp" sample_env sample_callback] by blast


end
