(* ===== verification/Config.thy ===== *)
theory Config
  imports Url
begin

text \<open>
  \<open>internal/config/config.go\<close>: the configuration from the environment, and the dotenv file that may fill the
  environment first. The environment is an association list; the contents of the file are an argument.
\<close>

type_synonym os_env = "(string \<times> string) list"

section \<open>FromEnv\<close>

record config =
  cf_addr :: string
  cf_base_url :: string
  cf_sqlite :: string
  cf_client_id :: string
  cf_client_secret :: string
  cf_token_key :: string
  cf_dev :: bool
  cf_https :: bool

datatype config_error = BadDev string | MissingVars "string list" | BadBaseURL string | DevNotLocal

definition envOr :: "os_env \<Rightarrow> string \<Rightarrow> string \<Rightarrow> string" where
  "envOr env k def = (if get_or_empty env k \<noteq> '''' then get_or_empty env k else def)"

definition ParseBool :: "string \<Rightarrow> bool option" where
  "ParseBool s =
     (if s \<in> {''1'', ''t'', ''T'', ''true'', ''TRUE'', ''True''} then Some True
      else if s \<in> {''0'', ''f'', ''F'', ''false'', ''FALSE'', ''False''} then Some False
      else None)"

definition trim_right :: "char \<Rightarrow> string \<Rightarrow> string" where
  "trim_right c s = rev (dropWhile (\<lambda>x. x = c) (rev s))"

text \<open>
  \<open>strings.EqualFold\<close> with an ASCII text: besides the ASCII letters, the long s (U+017F) folds to s and the
  Kelvin sign (U+212A) to k.
\<close>

fun equal_fold :: "string \<Rightarrow> string \<Rightarrow> bool" where
  "equal_fold [] t = (t = [])"
| "equal_fold (x # s) [] = False"
| "equal_fold (x # s) (c # t) =
     (if byte x < 0x80 then lower_char x = lower_char c \<and> equal_fold s t
      else if prefix [CHR 0xC5, CHR 0xBF] (x # s) then lower_char c = CHR ''s'' \<and> equal_fold (tl s) t
      else if prefix [CHR 0xE2, CHR 0x84, CHR 0xAA] (x # s) then lower_char c = CHR ''k'' \<and> equal_fold (tl (tl s)) t
      else False)"

definition isLoopback :: "string \<Rightarrow> bool" where
  "isLoopback host =
     (if equal_fold host ''localhost'' then True
      else (case ParseIP host of None \<Rightarrow> False | Some ip \<Rightarrow> IsLoopback ip))"

text \<open>The required names; the order in which the map is ranged over is an argument.\<close>

definition required_vars :: "string list" where
  "required_vars = [''CHZZK_CLIENT_ID'', ''CHZZK_CLIENT_SECRET'', ''VARCHIVE_TOKEN_KEY'']"

definition FromEnv :: "string list \<Rightarrow> os_env \<Rightarrow> config_error + config" where
  "FromEnv names env =
     (let v = get_or_empty env ''DEV'';
          dev = (if v = '''' then Some False else ParseBool v);
          base = trim_right CHR ''/'' (envOr env ''BASE_URL'' ''http://localhost:8000'');
          missing = filter (\<lambda>n. get_or_empty env n = '''') names in
      case dev of
        None \<Rightarrow> Inl (BadDev v)
      | Some d \<Rightarrow>
          if missing \<noteq> [] then Inl (MissingVars missing)
          else (case url_parse base of
                  None \<Rightarrow> Inl (BadBaseURL base)
                | Some u \<Rightarrow>
                    if (url_scheme u \<noteq> ''http'' \<and> url_scheme u \<noteq> ''https'') \<or> url_host u = '''' then Inl (BadBaseURL base)
                    else if d \<and> \<not> isLoopback (url_hostname u) then Inl DevNotLocal
                    else Inr \<lparr>cf_addr = envOr env ''ADDR'' '':8000'', cf_base_url = base,
                              cf_sqlite = envOr env ''SQLITE_PATH'' ''djclass.sqlite3'',
                              cf_client_id = get_or_empty env ''CHZZK_CLIENT_ID'',
                              cf_client_secret = get_or_empty env ''CHZZK_CLIENT_SECRET'',
                              cf_token_key = get_or_empty env ''VARCHIVE_TOKEN_KEY'',
                              cf_dev = d, cf_https = (url_scheme u = ''https'')\<rparr>))"

section \<open>LoadDotenv\<close>

text \<open>
  \<open>bufio.Scanner\<close> over the text of the file: the lines without their end, and whether it stopped at a line that
  does not fit its buffer.
\<close>

definition max_token :: nat where "max_token = 65536"

definition drop_cr :: "string \<Rightarrow> string" where
  "drop_cr l = (if l \<noteq> '''' \<and> last l = CHR 0x0D then butlast l else l)"

definition scan_lines :: "string \<Rightarrow> string list \<times> bool" where
  "scan_lines text =
     (let ls = split_on CHR 0x0A text;
          ls1 = (if last ls = '''' then butlast ls else ls);
          good = takeWhile (\<lambda>l. length l < max_token) ls1
      in (map drop_cr good, length good < length ls1))"

datatype dotenv_file = NoFile | Unreadable | Contents string

datatype dotenv_error = OpenFailed | SetenvInvalid | LineTooLong

definition trim_set :: "char set \<Rightarrow> string \<Rightarrow> string" where
  "trim_set cs s = rev (dropWhile (\<lambda>c. c \<in> cs) (rev (dropWhile (\<lambda>c. c \<in> cs) s)))"

text \<open>\<open>os.Setenv\<close>: no empty name, no \<open>=\<close> in the name, no zero bytes.\<close>

definition Setenv :: "string \<Rightarrow> string \<Rightarrow> os_env \<Rightarrow> os_env option" where
  "Setenv k v env =
     (if k = '''' \<or> CHR ''='' \<in> set k \<or> CHR 0x00 \<in> set k \<or> CHR 0x00 \<in> set v then None else Some (AList.update k v env))"

definition dotenv_line :: "string \<Rightarrow> (string \<times> string) option" where
  "dotenv_line raw =
     (let line = trim_space raw in
      if line = '''' \<or> prefix ''#'' line then None
      else (case cut CHR ''='' line of
              (k, None) \<Rightarrow> None
            | (k, Some v) \<Rightarrow> Some (trim_space k, trim_set {CHR 0x22, CHR 0x27} (trim_space v))))"

fun load_lines :: "string list \<Rightarrow> os_env \<Rightarrow> dotenv_error option \<times> os_env" where
  "load_lines [] env = (None, env)"
| "load_lines (l # ls) env =
     (case dotenv_line l of
        None \<Rightarrow> load_lines ls env
      | Some (k, v) \<Rightarrow>
          if map_of env k \<noteq> None then load_lines ls env
          else (case Setenv k v env of None \<Rightarrow> (Some SetenvInvalid, env) | Some env1 \<Rightarrow> load_lines ls env1))"

definition LoadDotenv :: "dotenv_file \<Rightarrow> os_env \<Rightarrow> dotenv_error option \<times> os_env" where
  "LoadDotenv file env =
     (case file of
        NoFile \<Rightarrow> (None, env)
      | Unreadable \<Rightarrow> (Some OpenFailed, env)
      | Contents text \<Rightarrow>
          (case scan_lines text of
             (ls, long) \<Rightarrow>
               (case load_lines ls env of
                  (Some e, env1) \<Rightarrow> (Some e, env1)
                | (None, env1) \<Rightarrow> (if long then Some LineTooLong else None, env1))))"

section \<open>Properties\<close>

lemma trim_right_last: "trim_right c s = [] \<or> last (trim_right c s) \<noteq> c"
proof (cases "dropWhile (\<lambda>x. x = c) (rev s)")
  case (Cons x xs)
  then have "x \<noteq> c" using hd_dropWhile[of "\<lambda>x. x = c" "rev s"] by simp
  then show ?thesis using Cons by (simp add: trim_right_def)
qed (simp add: trim_right_def)


lemma load_lines_map:
  assumes "load_lines ls env = (e, env1)"
  shows "(map_of env k \<noteq> None \<longrightarrow> map_of env1 k = map_of env k)
    \<and> (map_of env k = None \<longrightarrow> e = None \<longrightarrow> map_of env1 k = map_of (List.map_filter dotenv_line ls) k)"
  using assms
proof (induction ls arbitrary: env)
  case (Cons l ls)
  show ?case
  proof (cases "dotenv_line l")
    case None
    then show ?thesis using Cons.IH[of env] Cons.prems by (simp add: List.map_filter_simps)
  next
    case (Some p)
    obtain q v where p: "p = (q, v)" by fastforce
    show ?thesis
    proof (cases "map_of env q = None")
      case False
      then show ?thesis using Cons.IH[of env] Cons.prems Some p by (auto simp: List.map_filter_simps)
    next
      case True
      show ?thesis
      proof (cases "Setenv q v env")
        case None
        then show ?thesis using Cons.prems Some p True by (auto simp: List.map_filter_simps)
      next
        case (Some env2)
        then have "map_of env2 = (map_of env)(q \<mapsto> v)" by (auto simp: Setenv_def AList.update_conv' split: if_splits)
        then show ?thesis using Cons.IH[of env2] Cons.prems Some \<open>dotenv_line l = Some p\<close> p True
          by (auto simp: List.map_filter_simps split: if_splits)
      qed
    qed
  qed
qed (simp add: List.map_filter_simps)

text \<open>
  The environment wins over the file, and in the file the first line that sets a name wins: a variable that is
  set keeps its value, and one that is not gets the value of the first line for it.
\<close>

theorem dotenv_precedence:
  assumes "LoadDotenv (Contents text) env = (None, env1)"
  shows "map_of env1 k = (case map_of env k of Some v \<Rightarrow> Some v | None \<Rightarrow> map_of (List.map_filter dotenv_line (fst (scan_lines text))) k)"
proof -
  obtain ls long where s: "scan_lines text = (ls, long)" by fastforce
  have "load_lines ls env = (None, env1)" using assms s by (auto simp: LoadDotenv_def split: prod.splits option.splits)
  from load_lines_map[OF this, of k] s show ?thesis by (auto split: option.splits)
qed


theorem dotenv_precedence_witness:
  "map_of (snd (LoadDotenv (Contents (''A=1'' @ [CHR 0x0A] @ ''B = x'' @ [CHR 0x0D, CHR 0x0A] @ ''B=y'')) [(''A'', ''0'')])) ''B'' = Some ''x''"
proof -
  let ?text = "''A=1'' @ [CHR 0x0A] @ ''B = x'' @ [CHR 0x0D, CHR 0x0A] @ ''B=y''"
  obtain e env1 where l: "LoadDotenv (Contents ?text) [(''A'', ''0'')] = (e, env1)" by fastforce
  have "fst (LoadDotenv (Contents ?text) [(''A'', ''0'')]) = None" by code_simp
  then have "LoadDotenv (Contents ?text) [(''A'', ''0'')] = (None, env1)" using l by simp
  from dotenv_precedence[OF this, of "''B''"] have "map_of env1 ''B'' = map_of (List.map_filter dotenv_line (fst (scan_lines ?text))) ''B''" by simp
  also have "\<dots> = Some ''x''" by code_simp
  finally show ?thesis using l by simp
qed

end
