(* ===== verification/Boot.thy ===== *)
theory Boot
  imports Login Config
begin

text \<open>
  \<open>cmd/server/main.go\<close> and \<open>internal/store/snapshot.go\<close>: the commands of the binary, the health check, the
  backup, and how \<open>serve\<close> puts the service together and takes it down. SQLite's own work on files is a parameter.
\<close>

section \<open>Snapshot\<close>

type_synonym fs = "string \<rightharpoonup> string"

datatype snapshot_error = TargetExists | OpenDb | VacuumFailed | CheckFailed | BadCopy string

text \<open>
  What is used of SQLite: whether a connection string opens, \<open>VACUUM INTO\<close> from an open database to a path, and
  the answer of \<open>PRAGMA integrity_check\<close>, None when the query fails.
\<close>

record sqlite =
  sq_open :: "string \<Rightarrow> bool"
  sq_vacuum :: "string \<Rightarrow> string \<Rightarrow> fs \<Rightarrow> bool \<times> fs"
  sq_check :: "string \<Rightarrow> fs \<Rightarrow> string option"

definition Snapshot :: "sqlite \<Rightarrow> string \<Rightarrow> string \<Rightarrow> fs \<Rightarrow> snapshot_error option \<times> fs" where
  "Snapshot sq srcPath dstPath fs0 =
     (if fs0 dstPath \<noteq> None then (Some TargetExists, fs0)
      else if \<not> sq_open sq (''file:'' @ srcPath @ ''?mode=ro&_pragma=busy_timeout(5000)'') then (Some OpenDb, fs0)
      else (case sq_vacuum sq srcPath dstPath fs0 of
              (False, fs1) \<Rightarrow> (Some VacuumFailed, fs1)
            | (True, fs1) \<Rightarrow>
                if \<not> sq_open sq (''file:'' @ dstPath @ ''?mode=ro'') then (Some OpenDb, fs1(dstPath := None))
                else (case sq_check sq dstPath fs1 of
                        None \<Rightarrow> (Some CheckFailed, fs1(dstPath := None))
                      | Some res \<Rightarrow>
                          if res \<noteq> ''ok'' then (Some (BadCopy res), fs1(dstPath := None)) else (None, fs1))))"

section \<open>The commands\<close>

datatype command = CmdHealthcheck | CmdBackup string | CmdServe | CmdUsage

text \<open>The arguments after the flags.\<close>

definition main_command :: "string list \<Rightarrow> command" where
  "main_command args =
     (let (cmd, rest) = (case args of [] \<Rightarrow> (''serve'', []) | c # r \<Rightarrow> (c, r)) in
      if cmd = ''healthcheck'' \<and> rest = [] then CmdHealthcheck
      else if cmd = ''backup'' \<and> length rest = 1 then CmdBackup (hd rest)
      else if cmd = ''serve'' \<and> rest = [] then CmdServe
      else CmdUsage)"

datatype 'e with_config = DotenvFailed dotenv_error | ConfigFailed config_error | Ran 'e

definition withConfig :: "string list \<Rightarrow> dotenv_file \<Rightarrow> (config \<Rightarrow> 'e) \<Rightarrow> os_env \<Rightarrow> 'e with_config" where
  "withConfig names file f env =
     (case LoadDotenv file env of
        (Some e, env1) \<Rightarrow> DotenvFailed e
      | (None, env1) \<Rightarrow> (case FromEnv names env1 of Inl e \<Rightarrow> ConfigFailed e | Inr cfg \<Rightarrow> Ran (f cfg)))"

subsection \<open>healthcheck\<close>

datatype health_error = BadAddr addr_error | NoAnswer | HealthStatus int

text \<open>\<open>get\<close> is the HTTP client: the status of the answer, None for an error.\<close>

definition healthcheck :: "os_env \<Rightarrow> (string \<Rightarrow> int option) \<Rightarrow> health_error option" where
  "healthcheck env get =
     (case split_host_port (envOr env ''ADDR'' '':8000'') of
        Inl e \<Rightarrow> Some (BadAddr e)
      | Inr (h, port) \<Rightarrow>
          (case get (''http://127.0.0.1:'' @ port @ ''/healthz'') of
             None \<Rightarrow> Some NoAnswer
           | Some code \<Rightarrow> if code \<noteq> 200 then Some (HealthStatus code) else None))"

subsection \<open>backup\<close>

datatype backup_error = SnapshotFailed snapshot_error | NoTempDir | NoCopy | CopyFailed

text \<open>
  Streaming to standard output: the directory \<open>MkdirTemp\<close> makes, whether the copy opens, and how many bytes
  \<open>io.Copy\<close> gets out before an error. The directory is removed on the way out. The result has the error,
  the files and what was written to standard output.
\<close>

definition remove_all :: "string \<Rightarrow> fs \<Rightarrow> fs" where
  "remove_all dir fs0 = (\<lambda>p. if p = dir \<or> prefix (dir @ ''/'') p then None else fs0 p)"

definition backup ::
  "sqlite \<Rightarrow> string option \<Rightarrow> bool \<Rightarrow> nat option \<Rightarrow> os_env \<Rightarrow> string \<Rightarrow> fs \<Rightarrow> backup_error option \<times> fs \<times> string" where
  "backup sq tempdir opens broken env target fs0 =
     (let src = envOr env ''SQLITE_PATH'' ''djclass.sqlite3'' in
      if target \<noteq> ''-'' then
        (case Snapshot sq src target fs0 of
           (Some e, fs1) \<Rightarrow> (Some (SnapshotFailed e), fs1, '''')
         | (None, fs1) \<Rightarrow> (None, fs1, ''''))
      else
        (case tempdir of
           None \<Rightarrow> (Some NoTempDir, fs0, '''')
         | Some dir \<Rightarrow>
             (let tmp = dir @ ''/snapshot.sqlite3'' in
              case Snapshot sq src tmp fs0 of
                (Some e, fs1) \<Rightarrow> (Some (SnapshotFailed e), remove_all dir fs1, '''')
              | (None, fs1) \<Rightarrow>
                  (case (opens, fs1 tmp) of
                     (True, Some content) \<Rightarrow>
                       (case broken of
                          None \<Rightarrow> (None, remove_all dir fs1, content)
                        | Some n \<Rightarrow> (Some CopyFailed, remove_all dir fs1, take n content))
                   | _ \<Rightarrow> (Some NoCopy, remove_all dir fs1, '''')))))"

section \<open>serve\<close>

datatype serve_error = OpenStore | BadKey crypto_error | SeedFailed db_error

text \<open>
  From the configuration to a server that can take requests: \<open>opened\<close> is the database \<open>store.Open\<close> gives, its
  migrations applied. The badge cache and the hub start empty, after the demo viewers are seeded.
\<close>

definition serve_start :: "config \<Rightarrow> world option \<Rightarrow> serve_error + (server \<times> web_state)" where
  "serve_start cfg opened =
     (case opened of
        None \<Rightarrow> Inl OpenStore
      | Some w \<Rightarrow>
          (case New (cf_token_key cfg) of
             Inl e \<Rightarrow> Inl (BadKey e)
           | Inr key \<Rightarrow>
               (case (if cf_dev cfg then SeedDev w else (Inr (), w)) of
                  (Inl e, w1) \<Rightarrow> Inl (SeedFailed e)
                | (Inr u, w1) \<Rightarrow>
                    Inr (\<lparr>sv_client = new_client (cf_client_id cfg) (cf_client_secret cfg) (cf_base_url cfg @ ''/api/auth/chzzk/callback''),
                          sv_key = key, sv_base_url = cf_base_url cfg, sv_https = cf_https cfg, sv_dev = cf_dev cfg\<rparr>,
                         \<lparr>wb_app = new_app w1, wb_limiter = [], wb_hub = hub_new 0 0\<rparr>))))"

text \<open>How \<open>serve\<close> ends: the listener failed, or a signal came and \<open>Shutdown\<close> returned (None without an error).\<close>

datatype stop = ListenFailed | Signalled "shutdown_error option"
and shutdown_error = ServerClosed | OtherError

datatype stop_step = HubClose | HttpShutdown | StoreClose | SignalStop

definition serve_stop :: "stop \<Rightarrow> stop_step list \<times> bool" where
  "serve_stop s =
     (case s of
        ListenFailed \<Rightarrow> ([HubClose, StoreClose, SignalStop], False)
      | Signalled r \<Rightarrow>
          ([HubClose, HttpShutdown, StoreClose, SignalStop], r = None \<or> r = Some ServerClosed))"

section \<open>Backups\<close>

text \<open>What is relied on: \<open>VACUUM INTO\<close> writes its target and no other file; a new directory has no files.\<close>

definition vacuum_local :: "sqlite \<Rightarrow> bool" where
  "vacuum_local sq \<longleftrightarrow> (\<forall>a b f ok f'. sq_vacuum sq a b f = (ok, f') \<longrightarrow> (\<exists>v. f' = f(b := v)))"

definition empty_dir :: "string \<Rightarrow> fs \<Rightarrow> bool" where
  "empty_dir dir fs0 \<longleftrightarrow> (\<forall>p. p = dir \<or> prefix (dir @ ''/'') p \<longrightarrow> fs0 p = None)"

lemma Snapshot_cases:
  assumes "Snapshot sq src dst fs0 = (e, fs1)"
    and "vacuum_local sq"
  shows "(\<forall>p. p \<noteq> dst \<longrightarrow> fs1 p = fs0 p)
    \<and> (fs0 dst \<noteq> None \<longrightarrow> e = Some TargetExists \<and> fs1 = fs0)
    \<and> (e = None \<longrightarrow> sq_vacuum sq src dst fs0 = (True, fs1) \<and> sq_check sq dst fs1 = Some ''ok'')
    \<and> (e \<notin> {None, Some TargetExists, Some VacuumFailed} \<longrightarrow> fs1 dst = None)"
proof -
  obtain ok fs2 where v: "sq_vacuum sq src dst fs0 = (ok, fs2)" by fastforce
  obtain x where x: "fs2 = fs0(dst := x)" using assms(2) v unfolding vacuum_local_def by blast
  consider "fs0 dst \<noteq> None" | "fs0 dst = None" "\<not> ok" | "fs0 dst = None" ok by blast
  then show ?thesis
  proof cases
    case 1
    then show ?thesis using assms(1) by (auto simp: Snapshot_def)
  next
    case 2
    then show ?thesis using assms(1) v x by (auto simp: Snapshot_def split: if_splits)
  next
    case 3
    then show ?thesis using assms(1) v x by (auto simp: Snapshot_def split: if_splits option.splits)
  qed
qed

text \<open>
  C39: What a snapshot leaves behind. A file that is already
  there is never touched; the snapshot reports success only for a copy that passed the integrity check; and a
  copy that fails it, or cannot be opened, is gone. No other file changes, whatever happens.
\<close>

theorem Snapshot_safe:
  assumes "Snapshot sq src dst fs0 = (e, fs1)"
    and "vacuum_local sq"
  shows "(\<forall>p. p \<noteq> dst \<longrightarrow> fs1 p = fs0 p)
    \<and> (fs0 dst \<noteq> None \<longrightarrow> e = Some TargetExists \<and> fs1 = fs0)
    \<and> (e = None \<longrightarrow> sq_vacuum sq src dst fs0 = (True, fs1) \<and> sq_check sq dst fs1 = Some ''ok'')
    \<and> (e \<notin> {None, Some TargetExists, Some VacuumFailed} \<longrightarrow> fs1 dst = None)"
  by (rule Snapshot_cases[OF assms])

text \<open>
  A streamed backup leaves the files as it found them, and writes to standard output nothing but the checked copy:
  all of it when it reports success, a part of it when the pipe breaks, nothing when there is no such copy.
\<close>

theorem streamed_backup:
  assumes "backup sq (Some dir) opens broken env ''-'' fs0 = (e, fs1, out)"
    and "vacuum_local sq"
    and "empty_dir dir fs0"
  shows "fs1 = fs0 \<and> (if out = '''' \<and> e \<noteq> None then True else
      (\<exists>fs2 content. sq_vacuum sq (envOr env ''SQLITE_PATH'' ''djclass.sqlite3'') (dir @ ''/snapshot.sqlite3'') fs0 = (True, fs2)
        \<and> sq_check sq (dir @ ''/snapshot.sqlite3'') fs2 = Some ''ok'' \<and> fs2 (dir @ ''/snapshot.sqlite3'') = Some content
        \<and> prefix out content \<and> (e = None \<longrightarrow> out = content)))"
proof -
  let ?src = "envOr env ''SQLITE_PATH'' ''djclass.sqlite3''" and ?tmp = "dir @ ''/snapshot.sqlite3''"
  obtain se fs2 where s: "Snapshot sq ?src ?tmp fs0 = (se, fs2)" by fastforce
  have frame: "fs2 p = fs0 p" if "p \<noteq> ?tmp" for p
    using Snapshot_cases[OF s assms(2)] that by auto
  have ok: "se = None \<Longrightarrow> sq_vacuum sq ?src ?tmp fs0 = (True, fs2) \<and> sq_check sq ?tmp fs2 = Some ''ok''"
    using Snapshot_cases[OF s assms(2)] by auto
  have "remove_all dir fs2 = fs0"
  proof
    fix p show "remove_all dir fs2 p = fs0 p"
      using frame[of p] assms(3) by (cases "p = ?tmp") (auto simp: remove_all_def empty_dir_def)
  qed
  then show ?thesis using assms(1) s ok
    by (auto simp: backup_def Let_def take_is_prefix split: option.splits bool.splits if_splits)
qed

section \<open>The running service\<close>

definition with_world :: "web_state \<Rightarrow> world \<Rightarrow> web_state" where
  "with_world st w = st\<lparr>wb_app := (fst (wb_app st), w)\<rparr>"

text \<open>
  The states of the service from its start on: a request served, a session written, deleted or cleaned up by the
  session manager, a badge looked up, the daily sync, an access token handed out, a step of the hub, and the
  clock and the faults of the database moving on by themselves.
\<close>

inductive server_reachable :: "config \<Rightarrow> server \<Rightarrow> web_state \<Rightarrow> bool" for cfg where
  start: "db_inv (w_db w) \<Longrightarrow> serve_start cfg (Some w) = Inr (sv, st) \<Longrightarrow> server_reachable cfg sv st"
| request: "server_reachable cfg sv st \<Longrightarrow> Handler sv fl env r st = Some (rsp, ops, st') \<Longrightarrow> server_reachable cfg sv st'"
| commit: "server_reachable cfg sv st \<Longrightarrow> CommitCtx tok b t (snd (wb_app st)) = (x, w) \<Longrightarrow> server_reachable cfg sv (with_world st w)"
| delete: "server_reachable cfg sv st \<Longrightarrow> DeleteCtx tok (snd (wb_app st)) = (x, w) \<Longrightarrow> server_reachable cfg sv (with_world st w)"
| cleanup: "server_reachable cfg sv st \<Longrightarrow> server_reachable cfg sv (with_world st (Cleanup_tick (snd (wb_app st))))"
| badge: "server_reachable cfg sv st \<Longrightarrow> ResolveSender k (wb_app st) = Some (res, a) \<Longrightarrow> server_reachable cfg sv (st\<lparr>wb_app := a\<rparr>)"
| daily: "server_reachable cfg sv st \<Longrightarrow> SyncAll fetch alive (wb_app st) = Some (n, a) \<Longrightarrow> server_reachable cfg sv (st\<lparr>wb_app := a\<rparr>)"
| token: "server_reachable cfg sv st \<Longrightarrow> AccessToken c http key n1 n2 later cid (snd (wb_app st)) = (y, w) \<Longrightarrow>
    server_reachable cfg sv (with_world st w)"
| hub: "server_reachable cfg sv st \<Longrightarrow> hub_step ev (wb_hub st) = Some h \<Longrightarrow> server_reachable cfg sv (st\<lparr>wb_hub := h\<rparr>)"
| clock: "server_reachable cfg sv st \<Longrightarrow>
    server_reachable cfg sv (with_world st ((snd (wb_app st))\<lparr>w_now := t, w_faults := fs\<rparr>))"

lemma app_ok_world:
  assumes "app_ok (wb_app st)" "db_inv (w_db w)" "db_users (w_db w) = db_users (app_db (wb_app st))"
    "db_links (w_db w) = db_links (app_db (wb_app st))" "db_classes (w_db w) = db_classes (app_db (wb_app st))"
  shows "app_ok (wb_app (with_world st w))"
proof -
  have "badge_of (w_db w) k = badge_of (app_db (wb_app st)) k" for k
    by (simp only: badge_of_def assms(3-5))
  then show ?thesis using assms(1,2) by (simp add: with_world_def app_ok_def coherent_def app_db_def)
qed

text \<open>Actions that leave users, links and classes alone.\<close>

definition badge_safe :: "'a act \<Rightarrow> bool" where
  "badge_safe m \<longleftrightarrow> keeps_act m \<and> (\<forall>w. db_users (w_db (snd (m w))) = db_users (w_db w)
     \<and> db_links (w_db (snd (m w))) = db_links (w_db w) \<and> db_classes (w_db (snd (m w))) = db_classes (w_db w))"

lemma badge_safe_app:
  "badge_safe m \<Longrightarrow> app_ok (wb_app st) \<Longrightarrow> m (snd (wb_app st)) = (x, w) \<Longrightarrow> app_ok (wb_app (with_world st w))"
  using keeps_actD[of m "snd (wb_app st)" x w]
  by (intro app_ok_world) (auto simp: badge_safe_def app_ok_def app_db_def dest: spec[of _ "snd (wb_app st)"])

lemma badge_safe_stmt:
  assumes "keeps_stmt s" "\<And>t d a d'. s t d = Inr (a, d') \<Longrightarrow> db_users d' = db_users d \<and> db_links d' = db_links d \<and> db_classes d' = db_classes d"
  shows "badge_safe (run_stmt s)"
  unfolding badge_safe_def
proof (intro conjI allI)
  show "keeps_act (run_stmt s)" by (rule keeps_run_stmt[OF assms(1)])
  fix w :: world
  show "db_users (w_db (snd (run_stmt s w))) = db_users (w_db w)" "db_links (w_db (snd (run_stmt s w))) = db_links (w_db w)"
    "db_classes (w_db (snd (run_stmt s w))) = db_classes (w_db w)"
    by (cases rule: run_stmt_cases[of s w]; use assms(2) in fastforce)+
qed

lemma badge_safe_WriteTx: "(\<And>h. badge_safe (fn h)) \<Longrightarrow> badge_safe (WriteTx held fn)"
  unfolding badge_safe_def
proof (intro conjI allI)
  assume a: "\<And>h. keeps_act (fn h) \<and> (\<forall>w. db_users (w_db (snd (fn h w))) = db_users (w_db w)
     \<and> db_links (w_db (snd (fn h w))) = db_links (w_db w) \<and> db_classes (w_db (snd (fn h w))) = db_classes (w_db w))"
  show "keeps_act (WriteTx held fn)" using a by (intro keeps_WriteTx) blast
  fix w :: world
  obtain x w' where t: "WriteTx held fn w = (x, w')" by fastforce
  have "db_users (w_db w') = db_users (w_db w) \<and> db_links (w_db w') = db_links (w_db w) \<and> db_classes (w_db w') = db_classes (w_db w)"
  proof (cases x)
    case (Inl e)
    then show ?thesis using WriteTx_error t by metis
  next
    case (Inr y)
    obtain w2 where "fn True (snd (take_fault w)) = (Inr y, w2)" "w_db w' = w_db w2" using WriteTx_ok[OF t[unfolded Inr]] by blast
    then show ?thesis using a[of True, THEN conjunct2, THEN spec, of "snd (take_fault w)"] by simp
  qed
  then show "db_users (w_db (snd (WriteTx held fn w))) = db_users (w_db w)" "db_links (w_db (snd (WriteTx held fn w))) = db_links (w_db w)"
    "db_classes (w_db (snd (WriteTx held fn w))) = db_classes (w_db w)" by (simp_all add: t)
qed

lemma session_writes_safe:
  "badge_safe (CommitCtx tok b t)" "badge_safe (DeleteCtx tok)"
  "badge_safe (WriteTx False (\<lambda>held. run_stmt DeleteExpiredSessions))"
  "badge_safe (WriteTx False (\<lambda>held. run_stmt (UpdateChannelTokens a r e cid)))"
  unfolding CommitCtx_def DeleteCtx_def
  by (intro badge_safe_WriteTx badge_safe_stmt stmt_intros;
      auto simp: CommitSession_def DeleteSession_def DeleteExpiredSessions_def UpdateChannelTokens_def)+

lemma AccessToken_safe:
  assumes "app_ok (wb_app st)" "AccessToken c http key n1 n2 later cid (snd (wb_app st)) = (y, w)"
  shows "app_ok (wb_app (with_world st w))"
proof -
  obtain r0 w0 where q: "run_stmt (GetChannelByChzzkID cid) (snd (wb_app st)) = (r0, w0)" by fastforce
  have s0: "badge_safe (run_stmt (GetChannelByChzzkID cid))"
    by (intro badge_safe_stmt stmt_intros) (auto dest: web_reads(2))
  have ok0: "app_ok (wb_app (with_world st w0))" by (rule badge_safe_app[OF s0 assms(1) q])
  have later: "app_ok (wb_app (with_world st (w0\<lparr>w_now := later\<rparr>)))"
    using ok0 by (simp add: with_world_def app_ok_def coherent_def app_db_def)
  have "w = w0 \<or> w = w0\<lparr>w_now := later\<rparr> \<or>
    (\<exists>a r e i x. WriteTx False (\<lambda>held. run_stmt (UpdateChannelTokens a r e i)) (w0\<lparr>w_now := later\<rparr>) = (x, w))"
    using assms(2) unfolding AccessToken_def q Let_def
    by (simp split: sum.splits option.splits if_splits prod.splits) blast+
  then show ?thesis
  proof (elim disjE exE)
    fix a r e i x
    assume t: "WriteTx False (\<lambda>held. run_stmt (UpdateChannelTokens a r e i)) (w0\<lparr>w_now := later\<rparr>) = (x, w)"
    have "app_ok (wb_app (with_world (with_world st (w0\<lparr>w_now := later\<rparr>)) w))"
      by (rule badge_safe_app[OF session_writes_safe(4) later]) (use t in \<open>simp add: with_world_def\<close>)
    then show ?thesis by (simp add: with_world_def)
  qed (use ok0 later in simp_all)
qed

lemma sync_links_ok:
  "app_ok s \<Longrightarrow> \<forall>l\<in>set ls. (al_user l, al_chzzk_id l) \<in> set (user_keys (app_db s)) \<Longrightarrow>
    sync_links fetch alive ls s = Some (n, s') \<Longrightarrow> app_ok s'"
proof (induction fetch alive ls s arbitrary: n s' rule: sync_links.induct)
  case (3 fetch alive l ls s)
  have k: "(al_user l, al_chzzk_id l) \<in> set (user_keys (app_db s))" using "3.prems"(2) by simp
  obtain x s1 where s1: "syncUser fetch (al_user l) (al_chzzk_id l) (al_nickname l) s = Some (x, s1)" "op_step (al_user l) s s1"
    using syncUser_step[OF "3.prems"(1) k] by blast
  obtain m s2 where "sync_links fetch alive ls s1 = Some (m, s2)" "s' = s2"
    using "3.prems"(3) s1(1) by (auto split: option.splits prod.splits)
  moreover have "app_ok s1" using s1(2) by (simp add: op_step_def)
  moreover note op_step_keys[OF s1(2)]
  ultimately show ?case using "3.IH"[OF s1(1) refl] "3.prems"(2) by simp
qed simp_all

lemma SyncAll_ok:
  assumes "app_ok s" "SyncAll fetch alive s = Some (n, s')"
  shows "app_ok s'"
proof -
  obtain q s1 where q: "read_op ListActiveLinks s = (q, s1)" "op_step 0 s s1" "app_db s1 = app_db s"
    "case q of Inl e \<Rightarrow> e = ErrIO \<or> ListActiveLinks (w_now (snd s)) (app_db s) = Inl e
             | Inr a \<Rightarrow> ListActiveLinks (w_now (snd s)) (app_db s) = Inr (a, app_db s)"
    by (rule read_op_step[OF assms(1) read_queries(3), where uid = 0])
  have ok1: "app_ok s1" using q(2) by (simp add: op_step_def)
  show ?thesis
  proof (cases q)
    case (Inr ls)
    then have "ls = links_of (app_db s1)" using q by (simp add: ListActiveLinks_value)
    then show ?thesis using sync_links_ok[OF ok1, of ls fetch alive n s'] links_of_keys assms(2) q(1) Inr
      by (auto simp: SyncAll_def)
  qed (use assms(2) q ok1 in \<open>simp add: SyncAll_def\<close>)
qed

lemma seed_keeps [stmt_intros]: "keeps_act (seed_rows uid rows)" "keeps_act (seed_senders ds)"
proof -
  show r: "keeps_act (seed_rows uid rows)" for uid rows
    by (induction rows) (auto intro!: stmt_intros)
  show "keeps_act (seed_senders ds)"
    by (induction ds) (auto intro!: stmt_intros r split: option.split)
qed

lemma serve_start_ok:
  assumes "db_inv (w_db w)" "serve_start cfg (Some w) = Inr (sv, st)"
  shows "app_ok (wb_app st) \<and> wb_hub st = hub_new 0 0"
proof -
  obtain x w1 where s: "(if cf_dev cfg then SeedDev w else (Inr (), w)) = (x, w1)" by fastforce
  have "keeps_act SeedDev" unfolding SeedDev_def by (intro keeps_WriteTx stmt_intros)
  then have "db_inv (w_db w1)" using s assms(1) keeps_actD[of SeedDev w x w1] by (auto split: if_splits)
  then show ?thesis using assms(2) s coherent_new[of w1]
    by (auto simp: serve_start_def app_ok_def app_db_def new_app_def split: sum.splits if_splits)
qed

lemma server_reachable_ok:
  "server_reachable cfg sv st \<Longrightarrow> app_ok (wb_app st) \<and> reachable 0 0 (wb_hub st)"
proof (induction rule: server_reachable.induct)
  case (start w sv st)
  then show ?case using serve_start_ok reachable.start by metis
next
  case (request sv st fl env r rsp ops st')
  then have a: "app_ok (wb_app st)" by simp
  show ?case
    by (cases rule: Handler_cases[OF a, where sv = sv and fl = fl and env = env and r = r])
      (use request in \<open>auto simp: same_db_def touches_def op_step_def hub_moves_def\<close>)
next
  case (cleanup sv st)
  obtain x w where t: "WriteTx False (\<lambda>held. run_stmt DeleteExpiredSessions) (snd (wb_app st)) = (x, w)" by fastforce
  then have "Cleanup_tick (snd (wb_app st)) = w" by (simp add: Cleanup_tick_def)
  then show ?case using badge_safe_app[OF session_writes_safe(3) _ t] cleanup by (simp add: with_world_def)
next
  case (badge sv st k res a)
  then have c: "coherent (wb_app st)" "db_inv (w_db (snd (wb_app st)))" by (simp_all add: app_ok_def app_db_def)
  obtain x a1 where "ResolveSender k (wb_app st) = Some (x, a1)" "coherent a1" "w_db (snd a1) = w_db (snd (wb_app st))"
    by (rule ResolveSender_coherent[OF c(1)])
  then show ?case using badge c(2) by (simp add: app_ok_def app_db_def)
next
  case (clock sv st t fs)
  then show ?case by (simp add: with_world_def app_ok_def coherent_def app_db_def)
next
  case (commit sv st tok b t x w)
  then show ?case using badge_safe_app[OF session_writes_safe(1)] by (simp add: with_world_def)
next
  case (delete sv st tok x w)
  then show ?case using badge_safe_app[OF session_writes_safe(2)] by (simp add: with_world_def)
next
  case (daily sv st fetch alive n a)
  then show ?case using SyncAll_ok[of "wb_app st" fetch alive n a] by simp
next
  case (token sv st c http key n1 n2 later cid y w)
  then show ?case using AccessToken_safe[of st c http key n1 n2 later cid y w] by (simp add: with_world_def)
next
  case (hub sv st ev h)
  then show ?case using reachable.step[of 0 0 "wb_hub st" ev h] by simp
qed

text \<open>
  C1: The service at work. Whatever requests, chats, syncs, logins and hub steps have happened since it started, and
  whichever database calls failed: a badge it shows is the one the database now gives the sender, or the lookup
  reports the database's error; no request makes a handler panic; and the hub has not panicked. Requests, syncs and
  lookups are whole steps here; the theory \<open>Race\<close> takes the lookups apart.
\<close>

theorem service_invariant:
  assumes "server_reachable cfg sv st"
  shows "(\<exists>x a. ResolveSender sender (wb_app st) = Some (x, a) \<and> (case x of Inl e \<Rightarrow> e = ErrIO
        | Inr res \<Rightarrow> res = (if sender = '''' then unlinked_result else badge_of (app_db (wb_app st)) sender)))
    \<and> Handler sv fl env r st \<noteq> None \<and> \<not> hb_panic (wb_hub st)"
proof -
  have ok: "app_ok (wb_app st)" "reachable 0 0 (wb_hub st)" using server_reachable_ok[OF assms] by auto
  have "Handler sv fl env r st \<noteq> None"
    by (cases rule: Handler_cases[OF ok(1), where sv = sv and fl = fl and env = env and r = r]) simp_all
  moreover have "\<not> hb_panic (wb_hub st)" using closing_reachable[OF ok(2)] by (simp add: closing_ok_def)
  moreover obtain x a where "ResolveSender sender (wb_app st) = Some (x, a)" "case x of Inl e \<Rightarrow> e = ErrIO
      | Inr res \<Rightarrow> res = (if sender = '''' then unlinked_result else badge_of (w_db (snd (wb_app st))) sender)"
    by (rule ResolveSender_coherent[of "wb_app st" sender]) (use ok(1) in \<open>simp_all add: app_ok_def\<close>)
  ultimately show ?thesis unfolding app_db_def by blast
qed

section \<open>The health check against the server\<close>

text \<open>The request the probe makes for a path, and the client that reaches the server.\<close>

definition probe :: "string \<Rightarrow> web_request" where
  "probe p = \<lparr>req_method = ''GET'', req_path = p, req_header = [], req_query = [], req_form = [], req_cookie = [],
     req_remote = ''127.0.0.1:1'', rq_host = ''127.0.0.1:8000'', rq_raw_path = '''', rq_raw_query = ''''\<rparr>"

definition probe_get :: "server \<Rightarrow> files \<Rightarrow> environment \<Rightarrow> web_state \<Rightarrow> string \<Rightarrow> int option" where
  "probe_get sv fl env st target =
     (case url_parse target of
        None \<Rightarrow> None
      | Some u \<Rightarrow> map_option (\<lambda>(rsp, ops, st'). rp_status rsp) (Handler sv fl env (probe (url_path u)) st))"

lemma probe_dispatch: "dispatch dev (probe ''/healthz'') = Serve EpHealthz []" "\<not> cross_origin (probe p)"
proof -
  have "dispatch True (probe ''/healthz'') = Serve EpHealthz []" "dispatch False (probe ''/healthz'') = Serve EpHealthz []"
    by code_simp+
  then show "dispatch dev (probe ''/healthz'') = Serve EpHealthz []" by (cases dev) simp_all
  show "\<not> cross_origin (probe p)" by (simp add: cross_origin_def probe_def)
qed

text \<open>
  The container probe. With the default address, the health check passes exactly when the database of the server
  answers, and reports a 503 otherwise.
\<close>

theorem healthcheck_database:
  assumes "get_or_empty oenv ''ADDR'' = ''''"
  shows "healthcheck oenv (probe_get sv fl env st) = (if en_ping_ok env then None else Some (HealthStatus 503))"
proof -
  have "split_host_port '':8000'' = Inr ('''', ''8000'')" by code_simp
  moreover have "map_option url_path (url_parse ''http://127.0.0.1:8000/healthz'') = Some ''/healthz''" by code_simp
  then obtain u where "url_parse ''http://127.0.0.1:8000/healthz'' = Some u" "url_path u = ''/healthz''" by auto
  ultimately show ?thesis using assms
    by (simp add: healthcheck_def envOr_def probe_get_def Handler_def serve_mux_def probe_dispatch healthz_def
        http_error_def securityHeaders_def set_header_def blank_def Let_def)
qed

section \<open>Witnesses\<close>

definition copying :: sqlite where
  "copying = \<lparr>sq_open = (\<lambda>s. True), sq_vacuum = (\<lambda>a b f. (f a \<noteq> None, f(b := f a))), sq_check = (\<lambda>p f. Some ''ok'')\<rparr>"

lemma copying_local: "vacuum_local copying"
  by (auto simp: copying_def vacuum_local_def)

theorem Snapshot_safe_witness:
  "snd (Snapshot copying ''a'' ''b'' [''a'' \<mapsto> ''data'']) ''b'' = Some ''data''
    \<and> snd (Snapshot copying ''a'' ''a'' [''a'' \<mapsto> ''data'']) = [''a'' \<mapsto> ''data'']"
proof -
  obtain e fs1 where s: "Snapshot copying ''a'' ''b'' [''a'' \<mapsto> ''data''] = (e, fs1)" by fastforce
  then have "e = None" by (auto simp: Snapshot_def copying_def)
  then have "sq_vacuum copying ''a'' ''b'' [''a'' \<mapsto> ''data''] = (True, fs1)" using Snapshot_safe[OF s copying_local] by blast
  moreover obtain e2 fs2 where t: "Snapshot copying ''a'' ''a'' [''a'' \<mapsto> ''data''] = (e2, fs2)" by fastforce
  then have "fs2 = [''a'' \<mapsto> ''data'']" using Snapshot_safe[OF t copying_local] by auto
  moreover have "sq_vacuum copying ''a'' ''b'' [''a'' \<mapsto> ''data''] = (True, [''a'' \<mapsto> ''data'', ''b'' \<mapsto> ''data''])"
    by (simp add: copying_def)
  ultimately show ?thesis using s t by auto
qed

theorem streamed_backup_witness:
  "backup copying (Some ''/tmp/x'') True None [] ''-'' [''djclass.sqlite3'' \<mapsto> ''data''] = (None, [''djclass.sqlite3'' \<mapsto> ''data''], ''data'')"
proof -
  obtain e fs1 out where b: "backup copying (Some ''/tmp/x'') True None [] ''-'' [''djclass.sqlite3'' \<mapsto> ''data''] = (e, fs1, out)"
    by (metis prod_cases3)
  have "e = None \<and> out = ''data''"
    using b by (auto simp: backup_def Snapshot_def copying_def envOr_def get_or_empty_def Let_def split: if_splits)
  moreover have "fs1 = [''djclass.sqlite3'' \<mapsto> ''data'']"
    using streamed_backup[OF b copying_local] by (simp add: empty_dir_def)
  ultimately show ?thesis using b by simp
qed

theorem healthcheck_database_witness:
  "healthcheck [] (probe_get sample_server (\<lambda>p rsp. rsp) sample_env empty_web) = None"
  using healthcheck_database[of "[]" sample_server "\<lambda>p rsp. rsp" sample_env empty_web]
  by (simp add: get_or_empty_def sample_env_def)

definition sample_config :: config where
  "sample_config = \<lparr>cf_addr = '':8000'', cf_base_url = ''http://localhost:8000'', cf_sqlite = ''d'', cf_client_id = ''i'',
     cf_client_secret = ''s'', cf_token_key = ''k'', cf_dev = False, cf_https = False\<rparr>"

theorem service_invariant_witness:
  "\<exists>sv st x a. serve_start sample_config (Some \<lparr>w_db = empty_db, w_now = 0, w_faults = []\<rparr>) = Inr (sv, st)
    \<and> ResolveSender ''c1'' (wb_app st) = Some (x, a) \<and> (x = Inl ErrIO \<or> x = Inr unlinked_result)"
proof -
  let ?w = "\<lparr>w_db = empty_db, w_now = 0, w_faults = []\<rparr>"
  have key: "New ''k'' = Inr (sha256 (octets ''k''))" by (simp add: New_def)
  obtain sv st where s: "serve_start sample_config (Some ?w) = Inr (sv, st)" "wb_app st = new_app ?w"
    by (simp add: serve_start_def sample_config_def key)
  have "server_reachable sample_config sv st" by (rule server_reachable.start[OF _ s(1)]) (simp add: db_inv_empty)
  note i = service_invariant[OF this, of "''c1''", THEN conjunct1]
  obtain x a where x: "ResolveSender ''c1'' (wb_app st) = Some (x, a)" "case x of Inl e \<Rightarrow> e = ErrIO
      | Inr res \<Rightarrow> res = (if ''c1'' = '''' then unlinked_result else badge_of (app_db (wb_app st)) ''c1'')" using i by blast
  have "badge_of (app_db (wb_app st)) ''c1'' = unlinked_result"
    by (simp add: s(2) new_app_def app_db_def badge_of_def empty_db_def)
  then have "x = Inl ErrIO \<or> x = Inr unlinked_result" using x(2) by (cases x) simp_all
  then show ?thesis using s(1) x(1) by blast
qed

end
