(* ===== verification/Race.thy ===== *)
theory Race
  imports Login
begin

text \<open>
  Lookups that overlap with changes. \<open>Resolve\<close> (resolver.go) holds no lock between its cache miss, its
  three queries and its \<open>Set\<close>, and the methods of link.go commit first and call \<open>InvalidateUser\<close>
  afterwards; the hub's workers and the request handlers run them on different goroutines. A state
  here has any number of lookups under way and of committed changes that still have to invalidate;
  each step is one call of the cache or one statement of the database. It is shown how old an answer
  can be, for which viewers the answers are exact, and that an answer can outlive its invalidation.
\<close>

section \<open>A lookup, one query at a time\<close>

text \<open>The next statement of a lookup, or the result it is about to store.\<close>

datatype phase = AtUser | AtLink user_row | AtRows user_row | AtSet result

definition lookup_query :: "string \<Rightarrow> phase \<Rightarrow> int \<Rightarrow> db \<Rightarrow> phase" where
  "lookup_query sender p t d =
     (case p of
        AtUser \<Rightarrow> (case GetUserByChzzkID sender t d of Inl e \<Rightarrow> AtSet unlinked_result | Inr (u, _) \<Rightarrow> AtLink u)
      | AtLink u \<Rightarrow> (case HasActiveLink (u_id u) t d of
            Inr (True, _) \<Rightarrow> AtRows u
          | _ \<Rightarrow> AtSet unlinked_result)
      | AtRows u \<Rightarrow> (case ListDjClasses (u_id u) t d of
            Inr (stored, _) \<Rightarrow> AtSet (rows_result (map to_row stored) (u_preferred u))
          | Inl e \<Rightarrow> AtSet unlinked_result)
      | AtSet r \<Rightarrow> AtSet r)"

text \<open>The result of a lookup whose remaining queries all see the database \<open>d\<close>.\<close>

definition answer_from :: "string \<Rightarrow> phase \<Rightarrow> db \<Rightarrow> result" where
  "answer_from sender p d =
     (let q = (\<lambda>p. lookup_query sender p 0 d) in case q (q (q p)) of AtSet r \<Rightarrow> r | _ \<Rightarrow> unlinked_result)"

text \<open>The result when the three queries see three databases.\<close>

definition composed :: "string \<Rightarrow> db \<Rightarrow> db \<Rightarrow> db \<Rightarrow> result" where
  "composed sender d1 d2 d3 =
     (case find (\<lambda>u. u_chzzk_id u = sender) (db_users d1) of
        None \<Rightarrow> unlinked_result
      | Some u \<Rightarrow>
          if \<not> list_ex (\<lambda>l. l_user l = u_id u \<and> l_active l) (db_links d2) then unlinked_result
          else rows_result (map to_row (sort_key dc_button (filter (\<lambda>r. dc_user r = u_id u) (db_classes d3))))
                 (u_preferred u))"

lemma composed_same: "composed k d d d = badge_of d k"
  by (simp add: composed_def badge_of_def)

lemma query_AtUser [simp]:
  "lookup_query k AtUser t d = (case find (\<lambda>u. u_chzzk_id u = k) (db_users d) of None \<Rightarrow> AtSet unlinked_result | Some u \<Rightarrow> AtLink u)"
  by (simp add: lookup_query_def GetUserByChzzkID_def one_def split: option.split)

lemma query_AtLink [simp]:
  "lookup_query k (AtLink u) t d =
     (if list_ex (\<lambda>l. l_user l = u_id u \<and> l_active l) (db_links d) then AtRows u else AtSet unlinked_result)"
  by (simp add: lookup_query_def HasActiveLink_def split: bool.split)

lemma query_AtRows [simp]:
  "lookup_query k (AtRows u) t d =
     AtSet (rows_result (map to_row (sort_key dc_button (filter (\<lambda>r. dc_user r = u_id u) (db_classes d)))) (u_preferred u))"
  by (simp add: lookup_query_def ListDjClasses_def)

lemma query_AtSet [simp]: "lookup_query k (AtSet r) t d = AtSet r"
  by (simp add: lookup_query_def)

lemma answer_simps [simp]:
  "answer_from k AtUser d = badge_of d k"
  "answer_from k (AtLink u) d =
     (if list_ex (\<lambda>l. l_user l = u_id u \<and> l_active l) (db_links d)
      then rows_result (map to_row (sort_key dc_button (filter (\<lambda>r. dc_user r = u_id u) (db_classes d)))) (u_preferred u)
      else unlinked_result)"
  "answer_from k (AtRows u) d =
     rows_result (map to_row (sort_key dc_button (filter (\<lambda>r. dc_user r = u_id u) (db_classes d)))) (u_preferred u)"
  "answer_from k (AtSet r) d = r"
  by (simp_all add: answer_from_def Let_def badge_of_def split: option.split)

lemma answer_query: "answer_from k (lookup_query k p t d) d = answer_from k p d"
  by (cases p) (auto simp: badge_of_def split: option.split)

text \<open>Alone, the three queries are \<open>resolve\<close>.\<close>

lemma resolve_by_queries:
  assumes "w_faults w = []"
  shows "resolve k w = (Inr (answer_from k AtUser (w_db w)), w)"
  using assms
  by (auto simp: resolve_def run_stmt_def Let_def and_then_def return_ok_def badge_of_def GetUserByChzzkID_def
      one_def HasActiveLink_def ListDjClasses_def split: option.split)

lemma ResolveSender_by_queries:
  assumes "k \<noteq> ''''" "w_faults w = []"
  shows "ResolveSender k (c, w) =
    (case cache_get k (w_now w) c of
       None \<Rightarrow> None
     | Some (Some r, c1) \<Rightarrow> Some (Inr r, (c1, w))
     | Some (None, c1) \<Rightarrow>
         (let r = answer_from k AtUser (w_db w) in
          map_option (\<lambda>c2. (Inr r, (c2, w))) (cache_set k r (ttl_of (r_status r)) (w_now w) c1)))"
  using assms resolve_by_queries[OF assms(2), of k] by (auto simp: ResolveSender_def Let_def split: option.splits)

section \<open>Interleaved steps\<close>

text \<open>
  \<open>rc_past\<close> and \<open>rc_dirty\<close> are for the statements only, no step depends on them: the databases that have
  been current, with a time, and the viewers for whom a change has not been invalidated while no lookup
  of theirs was under way.
\<close>

record race =
  rc_cache :: "result cache"
  rc_db :: db
  rc_now :: int
  rc_lookups :: "(string \<times> phase) list"
  rc_pending :: "string list"
  rc_past :: "(int \<times> db) set"
  rc_dirty :: "string set"

definition new_race :: "int \<Rightarrow> db \<Rightarrow> race" where
  "new_race t d = \<lparr>rc_cache = cache_new 10000, rc_db = d, rc_now = t, rc_lookups = [], rc_pending = [],
     rc_past = {(t, d)}, rc_dirty = {}\<rparr>"

definition remove_nth :: "nat \<Rightarrow> 'a list \<Rightarrow> 'a list" where
  "remove_nth i xs = List.take i xs @ List.drop (Suc i) xs"

datatype label = Answer string result | Silent

inductive race_step :: "race \<Rightarrow> label \<Rightarrow> race \<Rightarrow> bool" where
  hit: "k \<noteq> '''' \<Longrightarrow> cache_get k (rc_now s) (rc_cache s) = Some (Some r, c) \<Longrightarrow>
    race_step s (Answer k r) (s\<lparr>rc_cache := c\<rparr>)"
| miss: "k \<noteq> '''' \<Longrightarrow> cache_get k (rc_now s) (rc_cache s) = Some (None, c) \<Longrightarrow>
    race_step s Silent (s\<lparr>rc_cache := c, rc_lookups := rc_lookups s @ [(k, AtUser)]\<rparr>)"
| query: "i < length (rc_lookups s) \<Longrightarrow> rc_lookups s ! i = (k, p) \<Longrightarrow>
    race_step s Silent (s\<lparr>rc_lookups := (rc_lookups s)[i := (k, lookup_query k p (rc_now s) (rc_db s))]\<rparr>)"
| fault: "i < length (rc_lookups s) \<Longrightarrow>
    race_step s Silent (s\<lparr>rc_lookups := remove_nth i (rc_lookups s)\<rparr>)"
| finish: "i < length (rc_lookups s) \<Longrightarrow> rc_lookups s ! i = (k, AtSet r) \<Longrightarrow>
    cache_set k r (ttl_of (r_status r)) (rc_now s) (rc_cache s) = Some c \<Longrightarrow>
    race_step s (Answer k r) (s\<lparr>rc_cache := c, rc_lookups := remove_nth i (rc_lookups s)\<rparr>)"
| commit: "only_user uid (rc_db s) d \<Longrightarrow> (uid, k) \<in> set (user_keys (rc_db s)) \<Longrightarrow> db_inv d \<Longrightarrow>
    race_step s Silent (s\<lparr>rc_db := d, rc_pending := k # rc_pending s,
      rc_past := insert (rc_now s, d) (rc_past s), rc_dirty := insert k (rc_dirty s)\<rparr>)"
| invalidate: "k \<in> set (rc_pending s) \<Longrightarrow> cache_delete k (rc_cache s) = Some c \<Longrightarrow>
    race_step s Silent (s\<lparr>rc_cache := c, rc_pending := remove1 k (rc_pending s),
      rc_dirty := (if k \<in> fst ` set (rc_lookups s) then rc_dirty s else rc_dirty s - {k})\<rparr>)"
| login: "UpsertUser c n t (rc_db s) = Inr (u, d) \<Longrightarrow>
    race_step s Silent (s\<lparr>rc_db := d, rc_past := insert (rc_now s, d) (rc_past s)\<rparr>)"
| tick: "rc_now s \<le> t \<Longrightarrow>
    race_step s Silent (s\<lparr>rc_now := t, rc_past := insert (t, rc_db s) (rc_past s)\<rparr>)"

inductive race_from :: "race \<Rightarrow> race \<Rightarrow> bool" for s0 where
  start: "race_from s0 s0"
| step: "race_from s0 s \<Longrightarrow> race_step s l s' \<Longrightarrow> race_from s0 s'"

inductive_cases answer_stepE: "race_step s (Answer k r) s'"


section \<open>How old an answer can be\<close>

text \<open>\<open>r\<close> was composed of three queries made in order, the last no later than \<open>t\<close>.\<close>

definition composed_by :: "(int \<times> db) set \<Rightarrow> int \<Rightarrow> string \<Rightarrow> result \<Rightarrow> bool" where
  "composed_by P t k r \<longleftrightarrow> (\<exists>t1 d1 t2 d2 t3 d3. {(t1, d1), (t2, d2), (t3, d3)} \<subseteq> P
     \<and> t1 \<le> t2 \<and> t2 \<le> t3 \<and> t3 \<le> t \<and> r = composed k d1 d2 d3)"

fun phase_by :: "(int \<times> db) set \<Rightarrow> int \<Rightarrow> string \<Rightarrow> phase \<Rightarrow> bool" where
  "phase_by P t k AtUser = True"
| "phase_by P t k (AtLink u) = (\<exists>t1 d1. (t1, d1) \<in> P \<and> t1 \<le> t \<and> find (\<lambda>u. u_chzzk_id u = k) (db_users d1) = Some u)"
| "phase_by P t k (AtRows u) = (\<exists>t1 d1 t2 d2. (t1, d1) \<in> P \<and> (t2, d2) \<in> P \<and> t1 \<le> t2 \<and> t2 \<le> t
     \<and> find (\<lambda>u. u_chzzk_id u = k) (db_users d1) = Some u
     \<and> list_ex (\<lambda>l. l_user l = u_id u \<and> l_active l) (db_links d2))"
| "phase_by P t k (AtSet r) = composed_by P t k r"

lemma composed_byI:
  "(t1, d1) \<in> P \<Longrightarrow> (t2, d2) \<in> P \<Longrightarrow> (t3, d3) \<in> P \<Longrightarrow> t1 \<le> t2 \<Longrightarrow> t2 \<le> t3 \<Longrightarrow> t3 \<le> t \<Longrightarrow>
     r = composed k d1 d2 d3 \<Longrightarrow> composed_by P t k r"
  unfolding composed_by_def by blast

lemma composed_byE:
  assumes "composed_by P t k r"
  obtains t1 d1 t2 d2 t3 d3 where "(t1, d1) \<in> P" "(t2, d2) \<in> P" "(t3, d3) \<in> P" "t1 \<le> t2" "t2 \<le> t3" "t3 \<le> t"
    "r = composed k d1 d2 d3"
  using assms unfolding composed_by_def by blast

lemma composed_by_mono: "composed_by P t k r \<Longrightarrow> P \<subseteq> P' \<Longrightarrow> t \<le> t' \<Longrightarrow> composed_by P' t' k r"
  by (erule composed_byE, rule composed_byI, (erule (1) subsetD)+) auto

lemma phase_by_mono: "phase_by P t k p \<Longrightarrow> P \<subseteq> P' \<Longrightarrow> t \<le> t' \<Longrightarrow> phase_by P' t' k p"
  by (cases p) (fastforce intro: composed_by_mono)+

lemma phase_by_query:
  assumes "phase_by P t k p" "(t, d) \<in> P"
  shows "phase_by P t k (lookup_query k p t' d)"
proof (cases p)
  case AtUser
  have "composed_by P t k unlinked_result" if "find (\<lambda>u. u_chzzk_id u = k) (db_users d) = None"
    by (rule composed_byI[of t d P t d t d]) (simp_all add: assms(2) composed_def that)
  with assms(2) AtUser show ?thesis by (auto split: option.split)
next
  case (AtLink u)
  with assms(1) obtain t1 d1 where u: "(t1, d1) \<in> P" "t1 \<le> t" "find (\<lambda>u. u_chzzk_id u = k) (db_users d1) = Some u" by auto
  have "composed_by P t k unlinked_result" if "\<not> list_ex (\<lambda>l. l_user l = u_id u \<and> l_active l) (db_links d)"
    by (rule composed_byI[of t1 d1 P t d t d]) (simp_all add: assms(2) u composed_def that)
  then show ?thesis using u assms(2) unfolding AtLink by (simp only: query_AtLink) auto
next
  case (AtRows u)
  with assms(1) obtain t1 d1 t2 d2 where u: "(t1, d1) \<in> P" "(t2, d2) \<in> P" "t1 \<le> t2" "t2 \<le> t"
    "find (\<lambda>u. u_chzzk_id u = k) (db_users d1) = Some u" "list_ex (\<lambda>l. l_user l = u_id u \<and> l_active l) (db_links d2)" by auto
  let ?r = "rows_result (map to_row (sort_key dc_button (filter (\<lambda>r. dc_user r = u_id u) (db_classes d)))) (u_preferred u)"
  have "composed_by P t k ?r"
    by (rule composed_byI[of t1 d1 P t2 d2 t d]) (simp_all add: assms(2) u composed_def)
  with AtRows show ?thesis by simp
qed (use assms in simp)

definition cached_by :: "(int \<times> db) set \<Rightarrow> int \<Rightarrow> string \<Rightarrow> result \<Rightarrow> int \<Rightarrow> bool" where
  "cached_by P t k r x \<longleftrightarrow> (\<exists>ts \<le> t. x = ts + ttl_of (r_status r) \<and> composed_by P ts k r)"

definition recent :: "race \<Rightarrow> bool" where
  "recent s \<longleftrightarrow> (rc_now s, rc_db s) \<in> rc_past s
     \<and> ttl.sound (cached_by (rc_past s) (rc_now s)) (rc_cache s)
     \<and> (\<forall>(k, p)\<in>set (rc_lookups s). phase_by (rc_past s) (rc_now s) k p)"

lemma sound_weaken: "ttl.sound P c \<Longrightarrow> (\<And>k v x. P k v x \<Longrightarrow> Q k v x) \<Longrightarrow> ttl.sound Q c"
  by (auto simp: ttl.sound_def)

lemma recent_phase:
  assumes "recent s" "i < length (rc_lookups s)" "rc_lookups s ! i = (k, p)"
  shows "phase_by (rc_past s) (rc_now s) k p"
proof -
  have "(k, p) \<in> set (rc_lookups s)" using assms(2,3) nth_mem by metis
  with assms(1) show ?thesis by (auto simp: recent_def)
qed

lemma recent_mono:
  assumes "recent s" "rc_past s \<subseteq> P" "rc_now s \<le> t"
  shows "ttl.sound (cached_by P t) (rc_cache s) \<and> (\<forall>(k, p)\<in>set (rc_lookups s). phase_by P t k p)"
proof (rule conjI)
  from assms(1) have "ttl.sound (cached_by (rc_past s) (rc_now s)) (rc_cache s)" by (simp add: recent_def)
  then show "ttl.sound (cached_by P t) (rc_cache s)"
    by (rule sound_weaken) (use assms(2,3) in \<open>auto simp: cached_by_def intro: composed_by_mono order_trans\<close>)
  show "\<forall>(k, p)\<in>set (rc_lookups s). phase_by P t k p"
    using assms by (auto simp: recent_def intro: phase_by_mono)
qed

lemma get_ok: "ttl.sound P c \<Longrightarrow> cache_get k t c = Some (r, c') \<Longrightarrow>
    ttl.sound P c' \<and> (\<forall>v. r = Some v \<longrightarrow> (\<exists>x. t < x \<and> P k v x))"
  by (erule ttl.sound_get[of P c k t]) auto

lemma put_ok: "ttl.sound P c \<Longrightarrow> P k v (t + d) \<Longrightarrow> cache_set k v d t c = Some c' \<Longrightarrow> ttl.sound P c'"
  by (erule ttl.sound_put[of P c k v t d]) auto

lemma del_ok: "ttl.sound P c \<Longrightarrow> (\<And>k' v x. k' \<noteq> k \<Longrightarrow> P k' v x \<Longrightarrow> Q k' v x) \<Longrightarrow> cache_delete k c = Some c' \<Longrightarrow> ttl.sound Q c'"
  by (erule ttl.sound_del[of P c k Q]) auto

lemma set_remove_nth: "set (remove_nth i xs) \<subseteq> set xs"
  unfolding remove_nth_def by (auto dest: in_set_takeD in_set_dropD)

lemma recent_step: "race_step s l s' \<Longrightarrow> recent s \<Longrightarrow> recent s'"
proof (induction rule: race_step.induct)
  case (hit k s r c)
  then show ?case using get_ok[OF _ hit(2)] by (simp add: recent_def)
next
  case (miss k s c)
  then show ?case using get_ok[OF _ miss(2)] by (simp add: recent_def)
next
  case (query i s k p)
  from recent_phase[OF query(3,1,2)] have "phase_by (rc_past s) (rc_now s) k (lookup_query k p (rc_now s) (rc_db s))"
    by (rule phase_by_query) (use query(3) in \<open>simp add: recent_def\<close>)
  with query(3) show ?case by (auto simp: recent_def dest!: set_update_subset_insert[THEN subsetD])
next
  case (fault i s)
  then show ?case using set_remove_nth[of i "rc_lookups s"] by (auto simp: recent_def)
next
  case (finish i s k r c)
  from recent_phase[OF finish(4,1,2)] have "cached_by (rc_past s) (rc_now s) k r (rc_now s + ttl_of (r_status r))" by (auto simp: cached_by_def)
  with put_ok[OF _ _ finish(3)] finish(4) have "ttl.sound (cached_by (rc_past s) (rc_now s)) c" by (simp add: recent_def)
  then show ?case using finish(4) set_remove_nth[of i "rc_lookups s"] by (auto simp: recent_def)
next
  case (commit uid s d k)
  then show ?case using recent_mono[of s "insert (rc_now s, d) (rc_past s)" "rc_now s"] by (auto simp: recent_def)
next
  case (invalidate k s c)
  then show ?case using del_ok[OF _ _ invalidate(2)] by (auto simp: recent_def)
next
  case (login ch n t s u d)
  then show ?case using recent_mono[of s "insert (rc_now s, d) (rc_past s)" "rc_now s"] by (auto simp: recent_def)
next
  case (tick s t)
  then show ?case using recent_mono[of s "insert (t, rc_db s) (rc_past s)" t] by (auto simp: recent_def)
qed

lemma sound_new: "ttl.sound P (cache_new 10000)"
  by (simp add: ttl.sound_def cache_inv_new cache_content_def)

lemma recent_from: "race_from (new_race t0 d0) s \<Longrightarrow> recent s"
proof (induction rule: race_from.induct)
  case start
  show ?case by (simp add: recent_def new_race_def sound_new)
qed (rule recent_step)

lemma ttl_of_pos: "0 < ttl_of x"
  by (simp add: ttl_of_def split: status.split)

text \<open>
  C15: however the lookups, the changes and the invalidations interleave, an answer is one the three queries
  of a lookup give on databases that were current, in this order, before the lookup ended, and that was less
  than the time to live of the answer's status ago: five minutes for a badge, fifteen seconds for a viewer
  without classes, ten for an unlinked one.
\<close>

theorem answers_are_recent:
  assumes "race_from (new_race t0 d0) s" "race_step s (Answer k r) s'"
  shows "\<exists>t1 d1 t2 d2 t3 d3 stored. {(t1, d1), (t2, d2), (t3, d3)} \<subseteq> rc_past s
     \<and> t1 \<le> t2 \<and> t2 \<le> t3 \<and> t3 \<le> stored \<and> stored \<le> rc_now s \<and> rc_now s < stored + ttl_of (r_status r)
     \<and> r = composed k d1 d2 d3"
proof -
  have rs: "recent s" using recent_from[OF assms(1)] .
  from assms(2) have "\<exists>ts \<le> rc_now s. rc_now s < ts + ttl_of (r_status r) \<and> composed_by (rc_past s) ts k r"
  proof (rule answer_stepE)
    fix c assume "cache_get k (rc_now s) (rc_cache s) = Some (Some r, c)"
    with rs get_ok[of _ "rc_cache s" k "rc_now s" "Some r" c] show ?thesis by (fastforce simp: recent_def cached_by_def)
  next
    fix i c assume "i < length (rc_lookups s)" "rc_lookups s ! i = (k, AtSet r)"
    with recent_phase[OF rs] have "phase_by (rc_past s) (rc_now s) k (AtSet r)" by blast
    with ttl_of_pos[of "r_status r"] show ?thesis by (intro exI[of _ "rc_now s"]) simp
  qed
  then show ?thesis unfolding composed_by_def by blast
qed

section \<open>Viewers without an overlap\<close>

definition phase_user :: "phase \<Rightarrow> int option" where
  "phase_user p = (case p of AtLink u \<Rightarrow> Some (u_id u) | AtRows u \<Rightarrow> Some (u_id u) | _ \<Rightarrow> None)"

text \<open>A lookup reads rows of its own viewer only.\<close>

definition own_phase :: "db \<Rightarrow> string \<Rightarrow> phase \<Rightarrow> bool" where
  "own_phase d k p \<longleftrightarrow> (case phase_user p of None \<Rightarrow> True | Some uid \<Rightarrow> (uid, k) \<in> set (user_keys d))"

definition exact :: "race \<Rightarrow> bool" where
  "exact s \<longleftrightarrow> db_inv (rc_db s)
     \<and> ttl.sound (\<lambda>k v x. k \<notin> rc_dirty s \<longrightarrow> v = badge_of (rc_db s) k) (rc_cache s)
     \<and> (\<forall>(k, p)\<in>set (rc_lookups s). own_phase (rc_db s) k p
          \<and> (k \<notin> rc_dirty s \<longrightarrow> answer_from k p (rc_db s) = badge_of (rc_db s) k))"

lemma own_phase_query:
  "own_phase d k p \<Longrightarrow> own_phase d k (lookup_query k p t d)"
  by (cases p) (auto simp: own_phase_def phase_user_def user_keys_def image_iff split: option.splits dest: find_some_in)

lemma own_phase_mono: "own_phase d k p \<Longrightarrow> set (user_keys d) \<subseteq> set (user_keys d') \<Longrightarrow> own_phase d' k p"
  by (auto simp: own_phase_def split: option.splits)

text \<open>A change of another user is invisible to the queries that are left.\<close>

lemma frame_reads:
  assumes "only_user uid d d'" "v \<noteq> uid"
  shows "list_ex (\<lambda>l. l_user l = v \<and> l_active l) (db_links d') = list_ex (\<lambda>l. l_user l = v \<and> l_active l) (db_links d)"
    "filter (\<lambda>r. dc_user r = v) (db_classes d') = filter (\<lambda>r. dc_user r = v) (db_classes d)"
proof -
  have rows: "user_rows d' v = user_rows d v" using assms by (simp add: only_user_def)
  then show "filter (\<lambda>r. dc_user r = v) (db_classes d') = filter (\<lambda>r. dc_user r = v) (db_classes d)"
    by (simp add: user_rows_def)
  have f: "list_ex (\<lambda>l. l_user l = v \<and> l_active l) ls = list_ex l_active (filter (\<lambda>l. l_user l = v) ls)" for ls
    by (induction ls) auto
  from rows show "list_ex (\<lambda>l. l_user l = v \<and> l_active l) (db_links d') = list_ex (\<lambda>l. l_user l = v \<and> l_active l) (db_links d)"
    unfolding f by (simp add: user_rows_def)
qed

lemma keys_inj:
  assumes "db_inv d" "(uid, k) \<in> set (user_keys d)" "(uid, k') \<in> set (user_keys d)" shows "k' = k"
proof -
  from assms(2,3) obtain x y where "x \<in> set (db_users d)" "y \<in> set (db_users d)" "u_id x = uid" "u_id y = uid"
    "u_chzzk_id x = k" "u_chzzk_id y = k'" by (auto simp: user_keys_def)
  with assms(1) show ?thesis by (auto simp: db_inv_def users_ok_def distinct_map dest: inj_onD)
qed

lemma frame_answer:
  assumes "db_inv d" "db_inv d'" "only_user uid d d'" "(uid, k) \<in> set (user_keys d)" "k' \<noteq> k" "own_phase d k' p"
  shows "answer_from k' p d' = answer_from k' p d"
proof -
  have other: "v \<noteq> uid" if "phase_user p = Some v" for v
    using keys_inj[OF assms(1,4)] that assms(5,6) by (auto simp: own_phase_def)
  show ?thesis
  proof (cases p)
    case AtUser
    then show ?thesis using badge_of_frame[OF _ _ assms(3,4,5)] assms(1,2) by (simp add: db_inv_def)
  next
    case (AtLink u)
    with other[of "u_id u"] frame_reads[OF assms(3), of "u_id u"] show ?thesis by (simp add: phase_user_def)
  next
    case (AtRows u)
    with other[of "u_id u"] frame_reads[OF assms(3), of "u_id u"] show ?thesis by (simp add: phase_user_def)
  qed simp
qed

lemma login_frame:
  assumes "db_inv d" "UpsertUser c n t d = Inr (u, d')"
  shows "db_inv d' \<and> (\<forall>k. badge_of d' k = badge_of d k) \<and> (\<forall>k p. answer_from k p d' = answer_from k p d)
    \<and> set (user_keys d) \<subseteq> set (user_keys d')"
proof -
  have inv: "db_inv d'" using assms keeps_UpsertUser by (auto simp: keeps_stmt_def)
  have b: "badge_of d' k = badge_of d k" for k using badge_of_UpsertUser[OF assms] by simp
  have same: "db_links d' = db_links d" "db_classes d' = db_classes d"
    using assms(2) by (auto simp: UpsertUser_def Let_def split: option.splits)
  have "user_keys d' = user_keys d \<or> (\<exists>x. user_keys d' = user_keys d @ [x])"
    using assms(2) by (auto simp: UpsertUser_def Let_def update_where_def user_keys_def split: option.splits)
  then have keys: "set (user_keys d) \<subseteq> set (user_keys d')" by auto
  have "answer_from k p d' = answer_from k p d" for k p by (cases p) (simp_all add: b same)
  with inv b keys show ?thesis by blast
qed

lemma exact_lookup:
  assumes "exact s" "i < length (rc_lookups s)" "rc_lookups s ! i = (k, p)"
  shows "own_phase (rc_db s) k p" "k \<notin> rc_dirty s \<Longrightarrow> answer_from k p (rc_db s) = badge_of (rc_db s) k"
proof -
  have "(k, p) \<in> set (rc_lookups s)" using assms(2,3) nth_mem by metis
  with assms(1) show "own_phase (rc_db s) k p" "k \<notin> rc_dirty s \<Longrightarrow> answer_from k p (rc_db s) = badge_of (rc_db s) k"
    by (auto simp: exact_def)
qed

lemma exact_commit:
  assumes "exact s" "only_user uid (rc_db s) d" "(uid, k) \<in> set (user_keys (rc_db s))" "db_inv d"
  shows "ttl.sound (\<lambda>k' v x. k' \<notin> insert k (rc_dirty s) \<longrightarrow> v = badge_of d k') (rc_cache s)
    \<and> (\<forall>(k', p)\<in>set (rc_lookups s). own_phase d k' p \<and> (k' \<notin> insert k (rc_dirty s) \<longrightarrow> answer_from k' p d = badge_of d k'))"
proof
  have inv: "db_inv (rc_db s)" using assms(1) by (simp add: exact_def)
  have b: "badge_of d k' = badge_of (rc_db s) k'" if "k' \<noteq> k" for k'
    using badge_of_frame[OF _ _ assms(2,3) that] inv assms(4) by (simp add: db_inv_def)
  have keys: "user_keys d = user_keys (rc_db s)" using assms(2) by (simp add: only_user_def)
  have "ttl.sound (\<lambda>k v x. k \<notin> rc_dirty s \<longrightarrow> v = badge_of (rc_db s) k) (rc_cache s)"
    using assms(1) by (simp add: exact_def)
  then show "ttl.sound (\<lambda>k' v x. k' \<notin> insert k (rc_dirty s) \<longrightarrow> v = badge_of d k') (rc_cache s)"
    by (rule sound_weaken) (simp add: b)
  have "own_phase d k' p \<and> (k' \<notin> insert k (rc_dirty s) \<longrightarrow> answer_from k' p d = badge_of d k')"
    if m: "(k', p) \<in> set (rc_lookups s)" for k' p
  proof -
    from m assms(1) have l: "own_phase (rc_db s) k' p"
      "k' \<notin> rc_dirty s \<longrightarrow> answer_from k' p (rc_db s) = badge_of (rc_db s) k'" by (auto simp: exact_def)
    from l(1) have "own_phase d k' p" unfolding own_phase_def keys .
    with l frame_answer[OF inv assms(4,2,3) _ l(1)] b[of k'] show ?thesis by auto
  qed
  then show "\<forall>(k', p)\<in>set (rc_lookups s). own_phase d k' p
      \<and> (k' \<notin> insert k (rc_dirty s) \<longrightarrow> answer_from k' p d = badge_of d k')" by blast
qed

lemma exact_step: "race_step s l s' \<Longrightarrow> exact s \<Longrightarrow> exact s'"
proof (induction rule: race_step.induct)
  case (hit k s r c)
  then show ?case using get_ok[OF _ hit(2)] by (simp add: exact_def)
next
  case (miss k s c)
  then show ?case using get_ok[OF _ miss(2)] by (simp add: exact_def own_phase_def phase_user_def)
next
  case (query i s k p)
  note ex = exact_lookup[OF query(3,1,2)]
  from own_phase_query[OF ex(1)] ex(2) query(3) show ?case
    by (auto simp: exact_def answer_query dest!: set_update_subset_insert[THEN subsetD])
next
  case (fault i s)
  then show ?case using set_remove_nth[of i "rc_lookups s"] by (auto simp: exact_def)
next
  case (finish i s k r c)
  from exact_lookup(2)[OF finish(4,1,2)] have "k \<notin> rc_dirty s \<longrightarrow> r = badge_of (rc_db s) k" by simp
  with put_ok[OF _ _ finish(3)] finish(4)
  have "ttl.sound (\<lambda>k v x. k \<notin> rc_dirty s \<longrightarrow> v = badge_of (rc_db s) k) c" by (simp add: exact_def)
  then show ?case using finish(4) set_remove_nth[of i "rc_lookups s"] by (auto simp: exact_def)
next
  case (commit uid s d k)
  from exact_commit[OF commit(4,1,2,3)] commit(3) show ?case by (simp add: exact_def)
next
  case (invalidate k s c)
  have so: "ttl.sound (\<lambda>k v x. k \<notin> rc_dirty s \<longrightarrow> v = badge_of (rc_db s) k) (rc_cache s)"
    using invalidate(3) by (simp add: exact_def)
  have "ttl.sound (\<lambda>k' v x. k' \<notin> (if k \<in> fst ` set (rc_lookups s) then rc_dirty s else rc_dirty s - {k}) \<longrightarrow> v = badge_of (rc_db s) k') c"
    using del_ok[OF so _ invalidate(2)] by simp
  moreover have "own_phase (rc_db s) k' p \<and> (k' \<notin> (if k \<in> fst ` set (rc_lookups s) then rc_dirty s else rc_dirty s - {k})
      \<longrightarrow> answer_from k' p (rc_db s) = badge_of (rc_db s) k')" if m: "(k', p) \<in> set (rc_lookups s)" for k' p
  proof -
    from m have "k' \<in> fst ` set (rc_lookups s)" by force
    with m invalidate(3) show ?thesis by (cases "k' = k") (auto simp: exact_def)
  qed
  ultimately show ?case using invalidate(3)
    by (cases "k \<in> fst ` set (rc_lookups s)") (auto simp: exact_def)
next
  case (login ch n t s u d)
  from login_frame[OF _ login(1)] login(2) have f: "db_inv d" "\<And>k. badge_of d k = badge_of (rc_db s) k"
    "\<And>k p. answer_from k p d = answer_from k p (rc_db s)" "set (user_keys (rc_db s)) \<subseteq> set (user_keys d)"
    by (simp_all add: exact_def)
  with login(2) own_phase_mono[OF _ f(4)] show ?case by (auto simp: exact_def)
next
  case (tick s t)
  then show ?case by (simp add: exact_def)
qed

lemma exact_from: "race_from (new_race t0 d0) s \<Longrightarrow> db_inv d0 \<Longrightarrow> exact s"
proof (induction rule: race_from.induct)
  case start
  then show ?case by (simp add: exact_def new_race_def sound_new)
qed (blast intro: exact_step)

text \<open>
  C14: a viewer whose last committed change was invalidated while no lookup of theirs was under way gets exactly
  the badge the database gives, whatever happens to everybody else.
\<close>

theorem clean_answers_are_exact:
  assumes "race_from (new_race t0 d0) s" "db_inv d0" "race_step s (Answer k r) s'" "k \<notin> rc_dirty s"
  shows "r = badge_of (rc_db s) k"
proof -
  have ex: "exact s" using exact_from[OF assms(1,2)] .
  from assms(3) show ?thesis
  proof (rule answer_stepE)
    fix c assume "cache_get k (rc_now s) (rc_cache s) = Some (Some r, c)"
    with ex get_ok[of _ "rc_cache s" k "rc_now s" "Some r" c] assms(4) show ?thesis by (fastforce simp: exact_def)
  next
    fix i c assume "i < length (rc_lookups s)" "rc_lookups s ! i = (k, AtSet r)"
    with exact_lookup(2)[OF ex _ _ assms(4)] show ?thesis by fastforce
  qed
qed

section \<open>A badge that outlives its invalidation\<close>

definition unlinked_sample :: db where
  "unlinked_sample = app_db (snd (the (Unlink 1 ''c1'' sample_app)))"

lemma unlinked_sample:
  "only_user 1 sample_db unlinked_sample" "db_inv unlinked_sample" "badge_of unlinked_sample ''c1'' = unlinked_result"
proof -
  obtain q s' where s': "Unlink 1 ''c1'' sample_app = Some (q, s')" "op_step 1 sample_app s'"
    using Unlink_step[OF sample_app_ok(1,2)] by blast
  have "fst (the (Unlink 1 ''c1'' sample_app)) = Inr ()" by code_simp
  with s' have q: "q = Inr ()" by simp
  have d: "unlinked_sample = app_db s'" by (simp add: unlinked_sample_def s')
  from s'(2) show "only_user 1 sample_db unlinked_sample" "db_inv unlinked_sample"
    by (simp_all add: op_step_def d sample_app_ok(3) app_ok_def)
  have i': "db_inv (app_db s')" "(1, ''c1'') \<in> set (user_keys (app_db s'))"
    using s'(2) sample_app_ok(2) by (simp_all add: op_step_def app_ok_def only_user_def)
  obtain x :: user_row where "badge_of (app_db s') ''c1'' = (if active_link_of (app_db s') 1 = None then unlinked_result
                 else rows_result (map to_row (classes_of (app_db s') 1)) (u_preferred x))"
    by (rule badge_of_linked[OF i']) blast
  with Unlink_cases[OF sample_app_ok(1,2) s'(1)[unfolded q]] show "badge_of unlinked_sample ''c1'' = unlinked_result"
    by (simp add: unlinked_user_def d sample_app_ok(3) active_link_of_def sample_db_def split: if_splits)
qed

lemma sample_linked: "r_status (badge_of sample_db ''c1'') = Linked"
  by code_simp

lemma race_steps2: "race_from s0 s \<Longrightarrow> race_step s l s' \<Longrightarrow> s' = s'' \<Longrightarrow> race_from s0 s''"
  by (blast intro: race_from.step)

abbreviation sample_badge :: result where
  "sample_badge \<equiv> badge_of sample_db ''c1''"

lemma empty_cache: "cache_get k t (cache_new 10000) = Some (None, cache_new 10000)" "cache_delete k (cache_new 10000) = Some (cache_new 10000)"
  by (simp_all add: cache_get_def cache_delete_def cache_remove_def cache_new_def)

text \<open>A lookup of the linked viewer that has made its queries.\<close>

definition looked_up :: race where
  "looked_up = (new_race 0 sample_db)\<lparr>rc_lookups := [(''c1'', AtSet sample_badge)]\<rparr>"

lemma looked_up_run: "race_from (new_race 0 sample_db) looked_up"
proof -
  let ?s = "\<lambda>p. (new_race 0 sample_db)\<lparr>rc_lookups := [(''c1'', p)]\<rparr>" and ?q = "\<lambda>p. lookup_query ''c1'' p 0 sample_db"
  have "race_from (new_race 0 sample_db) (?s AtUser)"
    by (rule race_steps2[OF race_from.start race_step.miss[of "''c1''"]]) (simp_all add: new_race_def empty_cache)
  moreover have "race_from (new_race 0 sample_db) (?s (?q p))" if "race_from (new_race 0 sample_db) (?s p)" for p
    by (rule race_steps2[OF that race_step.query[of 0 _ "''c1''" p]]) (simp_all add: new_race_def)
  ultimately have "race_from (new_race 0 sample_db) (?s (?q (?q (?q AtUser))))" by blast
  moreover have "?q (?q (?q AtUser)) = AtSet sample_badge" by code_simp
  ultimately show ?thesis by (simp only: looked_up_def)
qed

lemma store_sample:
  obtains c c' where "cache_set ''c1'' sample_badge (ttl_of Linked) 0 (cache_new 10000) = Some c"
    "cache_get ''c1'' (ttl_of Linked - 1) c = Some (Some sample_badge, c')"
proof -
  from ttl.put_spec[of "cache_new 10000" "''c1''" sample_badge "ttl_of Linked" 0] obtain c where c:
    "cache_set ''c1'' sample_badge (ttl_of Linked) 0 (cache_new 10000) = Some c" "cache_inv c"
    "cache_content c ''c1'' = Some (sample_badge, ttl_of Linked)" by (auto simp: cache_inv_new)
  with ttl.get_spec[OF c(2), of "''c1''" "ttl_of Linked - 1"] that show ?thesis by auto
qed

lemma stale_run:
  obtains s s' where "race_from (new_race 0 sample_db) s" "rc_now s = ttl_of Linked - 1"
    "rc_lookups s = []" "rc_pending s = []" "rc_db s = unlinked_sample" "race_step s (Answer ''c1'' sample_badge) s'"
proof -
  obtain c c' where c: "cache_set ''c1'' sample_badge (ttl_of Linked) 0 (cache_new 10000) = Some c"
    "cache_get ''c1'' (ttl_of Linked - 1) c = Some (Some sample_badge, c')" by (rule store_sample)
  define s5 where "s5 = looked_up\<lparr>rc_db := unlinked_sample, rc_pending := [''c1''],
      rc_past := insert (0, unlinked_sample) {(0, sample_db)}, rc_dirty := {''c1''}\<rparr>"
  define s6 where "s6 = s5\<lparr>rc_pending := []\<rparr>"
  define s7 where "s7 = s6\<lparr>rc_cache := c, rc_lookups := []\<rparr>"
  define s8 where "s8 = s7\<lparr>rc_now := ttl_of Linked - 1, rc_past := insert (ttl_of Linked - 1, rc_db s7) (rc_past s7)\<rparr>"
  note defs = s8_def s7_def s6_def s5_def looked_up_def new_race_def remove_nth_def
  have "race_from (new_race 0 sample_db) s5"
    by (rule race_steps2[OF looked_up_run race_step.commit[of 1 _ unlinked_sample "''c1''"]])
       (simp_all add: defs unlinked_sample sample_app_ok(2)[unfolded sample_app_ok(3)])
  then have "race_from (new_race 0 sample_db) s6"
    by (rule race_steps2[OF _ race_step.invalidate[of "''c1''"]]) (simp_all add: defs empty_cache)
  then have "race_from (new_race 0 sample_db) s7"
    by (rule race_steps2[OF _ race_step.finish[of 0 _ "''c1''" sample_badge c]]) (simp_all add: defs c sample_linked)
  then have "race_from (new_race 0 sample_db) s8"
    by (rule race_steps2[OF _ race_step.tick[of _ "ttl_of Linked - 1"]]) (simp_all add: defs ttl_of_def)
  moreover have "race_step s8 (Answer ''c1'' sample_badge) (s8\<lparr>rc_cache := c'\<rparr>)"
    by (rule race_step.hit) (simp_all add: defs c)
  ultimately show ?thesis by (intro that[of s8 "s8\<lparr>rc_cache := c'\<rparr>"]) (simp_all add: defs)
qed

text \<open>
  C36: a lookup can finish after the invalidation: a viewer unlinks, the change is committed and its
  invalidation done, no lookup is left, and yet chat shows the old badge almost five minutes later.
\<close>

theorem invalidation_can_be_lost:
  "\<exists>s r s'. race_from (new_race 0 sample_db) s \<and> rc_now s = ttl_of Linked - 1
     \<and> rc_lookups s = [] \<and> rc_pending s = [] \<and> badge_of (rc_db s) ''c1'' = unlinked_result
     \<and> race_step s (Answer ''c1'' r) s' \<and> r_status r = Linked"
proof -
  obtain s s' where "race_from (new_race 0 sample_db) s" "rc_now s = ttl_of Linked - 1"
    "rc_lookups s = []" "rc_pending s = []" "rc_db s = unlinked_sample" "race_step s (Answer ''c1'' sample_badge) s'"
    by (rule stale_run)
  then show ?thesis
    by (intro exI[of _ s] exI[of _ sample_badge] exI[of _ s']) (simp add: sample_linked unlinked_sample(3))
qed

theorem answers_are_recent_witness:
  "\<exists>s s' d1 d2 d3 t. race_from (new_race 0 sample_db) s \<and> race_step s (Answer ''c1'' sample_badge) s'
     \<and> sample_badge = composed ''c1'' d1 d2 d3 \<and> rc_now s < t + ttl_of Linked"
proof -
  obtain s s' where s: "race_from (new_race 0 sample_db) s" "race_step s (Answer ''c1'' sample_badge) s'"
    by (rule stale_run)
  from answers_are_recent[OF this] have "\<exists>d1 d2 d3 t. sample_badge = composed ''c1'' d1 d2 d3 \<and> rc_now s < t + ttl_of Linked"
    unfolding sample_linked by blast
  with s show ?thesis by blast
qed

theorem clean_answers_are_exact_witness:
  "\<exists>s r s'. race_step s (Answer ''c1'' r) s' \<and> ''c1'' \<notin> rc_dirty s \<and> r = badge_of (rc_db s) ''c1''"
proof -
  obtain c c' where c: "cache_set ''c1'' sample_badge (ttl_of Linked) 0 (cache_new 10000) = Some c"
    "cache_get ''c1'' (ttl_of Linked - 1) c = Some (Some sample_badge, c')" by (rule store_sample)
  have st: "race_step looked_up (Answer ''c1'' sample_badge) (looked_up\<lparr>rc_cache := c, rc_lookups := remove_nth 0 (rc_lookups looked_up)\<rparr>)"
    by (rule race_step.finish) (simp_all add: looked_up_def new_race_def c sample_linked)
  have clean: "''c1'' \<notin> rc_dirty looked_up" by (simp add: looked_up_def new_race_def)
  have "db_inv sample_db" using sample_app_ok(1,3) by (simp add: app_ok_def)
  from clean_answers_are_exact[OF looked_up_run this st clean] st clean show ?thesis by blast
qed

section \<open>A sync that overlaps with an unlink\<close>

text \<open>
  C37: \<open>Sync\<close> reads the active link, spends seconds with V-ARCHIVE and writes the classes without
  looking at the link again. If the viewer unlinks meanwhile, the classes \<open>Unlink\<close> has cleared come back:
  the viewer stays unlinked in chat, but the rows are stored.
\<close>

theorem late_sync_restores_classes:
  assumes "app_ok s" "(uid, k) \<in> set (user_keys (app_db s))"
    and "active_link_of (app_db s) uid = Some l"
    and "Unlink uid k s = Some (Inr u, s1)"
    and "syncUser (AllDjClasses http order) uid k (l_nickname l) s1 = Some (Inr res, s2)"
    and "AllDjClasses http order (l_nickname l) \<noteq> []"
  shows "classes_of (app_db s1) uid = []
    \<and> map class_payload (classes_of (app_db s2) uid) = map va_payload (AllDjClasses http order (l_nickname l))
    \<and> active_link_of (app_db s2) uid = None \<and> badge_of (app_db s2) k = unlinked_result"
proof -
  have st: "op_step uid s s1" using Unlink_step[OF assms(1,2)] assms(4) by auto
  then have ok1: "app_ok s1" "(uid, k) \<in> set (user_keys (app_db s1))"
    using assms(2) by (simp_all add: op_step_def app_ok_def only_user_def)
  have "op_step uid s1 s2" using syncUser_step[OF ok1] assms(5) by (metis option.inject prod.inject)
  then have i2: "db_inv (app_db s2)" "(uid, k) \<in> set (user_keys (app_db s2))"
    using ok1 by (simp_all add: op_step_def app_ok_def only_user_def)
  have un: "classes_of (app_db s1) uid = []" "active_link_of (app_db s1) uid = None"
    using Unlink_cases[OF assms(1,2,4)] assms(3) by (simp_all add: unlinked_user_def)
  from syncUser_cases[OF ok1 assms(5)] assms(6)
  have sy: "map class_payload (classes_of (app_db s2) uid) = map va_payload (AllDjClasses http order (l_nickname l))"
    "db_links (app_db s2) = db_links (app_db s1)" by simp_all
  have no: "active_link_of (app_db s2) uid = None" using un(2) active_link_frame[OF sy(2)] by simp
  obtain x :: user_row where "badge_of (app_db s2) k = (if active_link_of (app_db s2) uid = None then unlinked_result
                 else rows_result (map to_row (classes_of (app_db s2) uid)) (u_preferred x))"
    by (rule badge_of_linked[OF i2]) blast
  with no un sy(1) show ?thesis by simp
qed

theorem late_sync_restores_classes_witness:
  "\<exists>s1 res s2. Unlink 1 ''c1'' sample_app = Some (Inr (), s1)
     \<and> syncUser (AllDjClasses login_http [0, 1, 2, 3]) 1 ''c1'' ''a/b'' s1 = Some (Inr res, s2)
     \<and> length (classes_of (app_db s2) 1) = 1 \<and> active_link_of (app_db s2) 1 = None"
proof -
  let ?F = "AllDjClasses login_http [0, 1, 2, 3]"
  let ?c = "\<lparr>vc_button = 5, vc_class = ''PRO DJ I'', vc_power_sum = None, vc_max_power = None, vc_conversion = None\<rparr>"
  let ?run = "syncUser (\<lambda>n. [?c]) 1 ''c1'' ''a/b'' (snd (the (Unlink 1 ''c1'' sample_app)))"
  have f: "?F ''a/b'' = [?c]" by code_simp
  have sync: "syncUser ?F 1 ''c1'' ''a/b'' = syncUser (\<lambda>n. [?c]) 1 ''c1'' ''a/b''"
    by (rule ext) (simp only: syncUser_def f)
  obtain q s1 where s1: "Unlink 1 ''c1'' sample_app = Some (q, s1)" "op_step 1 sample_app s1"
    using Unlink_step[OF sample_app_ok(1,2)] by blast
  have "fst (the (Unlink 1 ''c1'' sample_app)) = Inr ()" by code_simp
  with s1 have q: "q = Inr ()" by simp
  have "case ?run of Some (Inr x, s) \<Rightarrow> True | _ \<Rightarrow> False" by code_simp
  then obtain res s2 where s2: "syncUser ?F 1 ''c1'' ''a/b'' s1 = Some (Inr res, s2)"
    unfolding sync s1 option.sel snd_conv by (auto split: option.splits sum.splits)
  let ?l = "\<lparr>l_id = 1, l_user = 1, l_nickname = ''a/b'', l_user_no = Some 7, l_active = True, l_created = 0, l_updated = 0\<rparr>"
  have l: "active_link_of (app_db sample_app) 1 = Some ?l" by (simp add: sample_app_ok(3) active_link_of_def sample_db_def)
  have nick: "l_nickname ?l = ''a/b''" by simp
  from late_sync_restores_classes[OF sample_app_ok(1,2) l s1(1)[unfolded q], unfolded nick, OF s2]
  have c: "map class_payload (classes_of (app_db s2) 1) = map va_payload [?c]" "active_link_of (app_db s2) 1 = None"
    unfolding f by simp_all
  from arg_cong[OF c(1), of length] have "length (classes_of (app_db s2) 1) = 1" by simp
  with c(2) s1 q s2 show ?thesis by blast
qed

end
