(* ===== verification/Writers.thy ===== *)
theory Writers
  imports Store
begin

text \<open>
  \<open>internal/store/store.go\<close>: opening the two pools, and write transactions of many goroutines at once. The
  write pool has one connection, so \<open>BeginTx\<close> waits until the transaction that holds it has ended; the
  statements of a transaction, its commit and its rollback are steps between which readers and other
  callers run. It is shown that the committed transactions are serial, which is what the atomic
  \<open>WriteTx\<close> of \<open>Store\<close> stands for.
\<close>

section \<open>Opening\<close>

text \<open>
  What is used of \<open>database/sql\<close> and goose: whether the driver accepts a data source name, and which call of
  the migrations fails. The last argument of the operations is the list of pools that are open.
\<close>

record sql_pool =
  sp_dsn :: string
  sp_max_open :: int
  sp_max_idle :: int

record pools =
  po_read :: sql_pool
  po_write :: sql_pool

datatype open_error = ErrOpenPool | ErrMigrationFiles | ErrMigrations | ErrMigrate

record goose =
  gz_files :: bool
  gz_provider :: bool
  gz_up :: bool

definition sql_close :: "string \<Rightarrow> string list \<Rightarrow> string list" where
  "sql_close dsn hs = remove1 dsn hs"

definition migrate :: "goose \<Rightarrow> open_error option" where
  "migrate g =
     (if \<not> gz_files g then Some ErrMigrationFiles
      else if \<not> gz_provider g then Some ErrMigrations
      else if \<not> gz_up g then Some ErrMigrate
      else None)"

definition common_pragmas :: string where
  "common_pragmas = ''_pragma=busy_timeout(5000)&_pragma=foreign_keys(1)''"

definition write_dsn :: "string \<Rightarrow> string" where
  "write_dsn path = ''file:'' @ path @ ''?'' @ common_pragmas
     @ ''&_pragma=journal_mode(WAL)&_pragma=synchronous(NORMAL)&_txlock=immediate''"

definition read_dsn :: "string \<Rightarrow> string" where
  "read_dsn path = ''file:'' @ path @ ''?'' @ common_pragmas @ ''&_pragma=query_only(1)''"

definition Open :: "(string \<Rightarrow> bool) \<Rightarrow> goose \<Rightarrow> int \<Rightarrow> string \<Rightarrow> string list \<Rightarrow> (open_error + pools) \<times> string list" where
  "Open accepts g cpus path hs =
     (if \<not> accepts (write_dsn path) then (Inl ErrOpenPool, hs)
      else
        (let hs1 = write_dsn path # hs in
         case migrate g of
           Some e \<Rightarrow> (Inl e, sql_close (write_dsn path) hs1)
         | None \<Rightarrow>
             if \<not> accepts (read_dsn path) then (Inl ErrOpenPool, sql_close (write_dsn path) hs1)
             else
               (let n = max 4 cpus in
                (Inr \<lparr>po_read = \<lparr>sp_dsn = read_dsn path, sp_max_open = n, sp_max_idle = n\<rparr>,
                      po_write = \<lparr>sp_dsn = write_dsn path, sp_max_open = 1, sp_max_idle = 1\<rparr>\<rparr>,
                 read_dsn path # hs1))))"

definition Close_store :: "pools \<Rightarrow> string list \<Rightarrow> string list" where
  "Close_store st hs = sql_close (sp_dsn (po_write st)) (sql_close (sp_dsn (po_read st)) hs)"

lemma dsn_differ: "read_dsn path \<noteq> write_dsn path"
  by (simp add: read_dsn_def write_dsn_def)

text \<open>
  a failed \<open>Open\<close> leaves no pool open, whichever step fails; a successful one has run the migrations and opened
  exactly two, one connection for writes and at least four for reads, and \<open>Close\<close> closes both.
\<close>

theorem Open_releases:
  "case Open accepts g cpus path hs of
     (Inl e, hs') \<Rightarrow> hs' = hs \<and> (e = ErrOpenPool \<or> migrate g = Some e)
   | (Inr st, hs') \<Rightarrow> migrate g = None \<and> hs' = [sp_dsn (po_read st), sp_dsn (po_write st)] @ hs
       \<and> sp_max_open (po_write st) = 1 \<and> 4 \<le> sp_max_open (po_read st) \<and> Close_store st hs' = hs"
  using dsn_differ[of path]
  by (auto simp: Open_def Let_def Close_store_def sql_close_def split: option.split)

section \<open>Write transactions at once\<close>

datatype tx_phase =
    Queued
  | Running "(int \<times> wstmt) list" "wstmt list" db
  | Committed
  | Failed

record writers =
  wr_db :: db
  wr_txs :: "(wstmt list \<times> tx_phase) list"
  wr_log :: "(nat \<times> (int \<times> wstmt) list) list"

definition running :: "tx_phase \<Rightarrow> bool" where
  "running p = (case p of Running _ _ _ \<Rightarrow> True | _ \<Rightarrow> False)"

lemma running_simps [simp]:
  "running (Running a b c)" "\<not> running Queued" "\<not> running Committed" "\<not> running Failed"
  by (simp_all add: running_def)

definition in_use :: "writers \<Rightarrow> nat" where
  "in_use s = length (filter (\<lambda>(xs, p). running p) (wr_txs s))"

definition set_phase :: "nat \<Rightarrow> tx_phase \<Rightarrow> writers \<Rightarrow> writers" where
  "set_phase i p s = s\<lparr>wr_txs := (wr_txs s)[i := (fst (wr_txs s ! i), p)]\<rparr>"

text \<open>
  The steps for a pool of \<open>n\<close> connections. A transaction sees the database committed when it began, with its own
  statements; \<open>wr_log\<close>, which no step reads, is the order of the commits with the statements and their times.
\<close>

inductive writer_step :: "int \<Rightarrow> writers \<Rightarrow> writers \<Rightarrow> bool" for n where
  submit: "writer_step n s (s\<lparr>wr_txs := wr_txs s @ [(xs, Queued)]\<rparr>)"
| begin_tx: "i < length (wr_txs s) \<Longrightarrow> wr_txs s ! i = (xs, Queued) \<Longrightarrow> int (in_use s) < n \<Longrightarrow>
    writer_step n s (set_phase i (Running [] xs (wr_db s)) s)"
| begin_fails: "i < length (wr_txs s) \<Longrightarrow> wr_txs s ! i = (xs, Queued) \<Longrightarrow> writer_step n s (set_phase i Failed s)"
| exec: "i < length (wr_txs s) \<Longrightarrow> wr_txs s ! i = (xs, Running past (x # rest) d) \<Longrightarrow>
    write_stmt x t d = Inr (u, d') \<Longrightarrow> writer_step n s (set_phase i (Running (past @ [(t, x)]) rest d') s)"
| roll_back: "i < length (wr_txs s) \<Longrightarrow> wr_txs s ! i = (xs, Running past rest d) \<Longrightarrow>
    writer_step n s (set_phase i Failed s)"
| commit: "i < length (wr_txs s) \<Longrightarrow> wr_txs s ! i = (xs, Running past [] d) \<Longrightarrow>
    writer_step n s ((set_phase i Committed s)\<lparr>wr_db := d, wr_log := wr_log s @ [(i, past)]\<rparr>)"

definition new_writers :: "db \<Rightarrow> writers" where
  "new_writers d = \<lparr>wr_db = d, wr_txs = [], wr_log = []\<rparr>"

inductive writers_from :: "int \<Rightarrow> db \<Rightarrow> writers \<Rightarrow> bool" for n d0 where
  start: "writers_from n d0 (new_writers d0)"
| step: "writers_from n d0 s \<Longrightarrow> writer_step n s s' \<Longrightarrow> writers_from n d0 s'"

text \<open>The statements of one transaction, or of several one after the other, on a database.\<close>

fun replay :: "(int \<times> wstmt) list \<Rightarrow> db \<Rightarrow> db option" where
  "replay [] d = Some d"
| "replay ((t, x) # xs) d = (case write_stmt x t d of Inl e \<Rightarrow> None | Inr (u, d') \<Rightarrow> replay xs d')"

lemma replay_all_applied: "replay (map (Pair t) xs) d = all_applied xs t d"
  by (induction xs arbitrary: d) (auto split: sum.split)

lemma replay_append: "replay (xs @ ys) d = (case replay xs d of None \<Rightarrow> None | Some d' \<Rightarrow> replay ys d')"
  by (induction xs d rule: replay.induct) (auto split: sum.split)

fun tx_good :: "db \<Rightarrow> bool \<Rightarrow> wstmt list \<times> tx_phase \<Rightarrow> bool" where
  "tx_good d logged (xs, Running past rest d') \<longleftrightarrow> xs = map snd past @ rest \<and> replay past d = Some d' \<and> \<not> logged"
| "tx_good d logged (xs, Committed) \<longleftrightarrow> logged"
| "tx_good d logged (xs, Queued) \<longleftrightarrow> \<not> logged"
| "tx_good d logged (xs, Failed) \<longleftrightarrow> \<not> logged"

lemma tx_good_still: "\<not> running (snd e) \<Longrightarrow> tx_good d logged e \<longleftrightarrow> (snd e = Committed \<longleftrightarrow> logged)"
  by (cases e; cases "snd e") (auto simp: running_def)

definition tx_ok :: "writers \<Rightarrow> nat \<Rightarrow> bool" where
  "tx_ok s i \<longleftrightarrow> tx_good (wr_db s) (i \<in> fst ` set (wr_log s)) (wr_txs s ! i)"

definition log_ok :: "writers \<Rightarrow> bool" where
  "log_ok s \<longleftrightarrow> distinct (map fst (wr_log s))
     \<and> (\<forall>(i, past)\<in>set (wr_log s). i < length (wr_txs s) \<and> wr_txs s ! i = (map snd past, Committed))"

definition serial :: "db \<Rightarrow> writers \<Rightarrow> bool" where
  "serial d0 s \<longleftrightarrow> replay (concat (map snd (wr_log s))) d0 = Some (wr_db s) \<and> log_ok s
     \<and> (\<forall>i<length (wr_txs s). tx_ok s i) \<and> in_use s \<le> 1"

lemma in_use_update:
  assumes "i < length (wr_txs s)"
  shows "in_use (set_phase i p s) + (if running (snd (wr_txs s ! i)) then 1 else 0)
    = in_use s + (if running p then 1 else 0)"
proof -
  let ?P = "\<lambda>(xs, p). running p"
  have s: "wr_txs s = take i (wr_txs s) @ (wr_txs s ! i) # drop (Suc i) (wr_txs s)" by (rule id_take_nth_drop[OF assms])
  have u: "wr_txs (set_phase i p s) = take i (wr_txs s) @ (fst (wr_txs s ! i), p) # drop (Suc i) (wr_txs s)"
    using assms by (simp add: set_phase_def upd_conv_take_nth_drop)
  have "in_use s = length (filter ?P (take i (wr_txs s))) + (if running (snd (wr_txs s ! i)) then 1 else 0)
      + length (filter ?P (drop (Suc i) (wr_txs s)))"
    unfolding in_use_def by (subst s) (simp add: case_prod_beta)
  then show ?thesis unfolding in_use_def u by (simp add: case_prod_beta)
qed

lemma only_running:
  assumes "in_use s \<le> 1" "i < length (wr_txs s)" "j < length (wr_txs s)" "running (snd (wr_txs s ! i))"
    "running (snd (wr_txs s ! j))"
  shows "i = j"
proof (rule ccontr)
  assume "i \<noteq> j"
  have "in_use (set_phase i Failed s) = 0" using in_use_update[OF assms(2), of Failed] assms(1,4) by simp
  moreover have "(fst (wr_txs s ! j), snd (wr_txs s ! j)) \<in> set (wr_txs (set_phase i Failed s))"
    using \<open>i \<noteq> j\<close> assms(3) nth_mem[of j "wr_txs (set_phase i Failed s)"] by (simp add: set_phase_def)
  ultimately show False using assms(5) by (auto simp: in_use_def filter_empty_conv)
qed


lemma tx_ok_other: "i \<noteq> j \<Longrightarrow> tx_ok (set_phase i p s) j \<longleftrightarrow> tx_ok s j"
  by (simp add: tx_ok_def set_phase_def)

lemma log_ok_other:
  assumes "log_ok s" "snd (wr_txs s ! i) \<noteq> Committed" shows "log_ok (set_phase i p s)"
proof -
  have "j \<noteq> i" if "(j, past) \<in> set (wr_log s)" for j past using assms that by (auto simp: log_ok_def)
  with assms(1) show ?thesis by (fastforce simp: log_ok_def set_phase_def)
qed

lemma serial_set_phase:
  assumes "serial d0 s" "i < length (wr_txs s)" "snd (wr_txs s ! i) \<noteq> Committed"
    "tx_ok (set_phase i p s) i" "running p \<Longrightarrow> running (snd (wr_txs s ! i)) \<or> in_use s = 0"
  shows "serial d0 (set_phase i p s)"
proof -
  have "\<forall>j<length (wr_txs (set_phase i p s)). tx_ok (set_phase i p s) j"
    using assms(1,4) tx_ok_other[of i _ p s] by (metis length_list_update serial_def set_phase_def writers.select_convs(2) writers.surjective writers.update_convs(2))
  moreover have "in_use (set_phase i p s) \<le> 1"
    using in_use_update[OF assms(2), of p] assms(1,5) by (auto simp: serial_def split: if_splits)
  moreover have "log_ok (set_phase i p s)" using log_ok_other assms(1,3) by (simp add: serial_def)
  ultimately show ?thesis using assms(1) by (simp add: serial_def set_phase_def)
qed

lemma serial_step: "writer_step 1 s s' \<Longrightarrow> serial d0 s \<Longrightarrow> serial d0 s'"
proof (induction rule: writer_step.induct)
  case (submit s xs)
  let ?s = "s\<lparr>wr_txs := wr_txs s @ [(xs, Queued)]\<rparr>"
  have l: "log_ok s" using submit by (simp add: serial_def)
  then have fresh: "length (wr_txs s) \<notin> fst ` set (wr_log s)" by (auto simp: log_ok_def)
  have "tx_ok ?s j" if "j < length (wr_txs ?s)" for j
    using that submit fresh by (cases "j = length (wr_txs s)") (simp_all add: serial_def tx_ok_def nth_append)
  moreover have "log_ok ?s" using l by (auto simp: log_ok_def nth_append)
  ultimately show ?case using submit by (simp add: serial_def in_use_def)
next
  case (begin_tx i s xs)
  then have "tx_ok s i" by (simp add: serial_def)
  then show ?case using begin_tx by (intro serial_set_phase) (auto simp: tx_ok_def set_phase_def)
next
  case (begin_fails i s xs)
  then have "tx_ok s i" by (simp add: serial_def)
  then show ?case using begin_fails by (intro serial_set_phase) (auto simp: tx_ok_def set_phase_def)
next
  case (exec i s xs past x rest d t u d')
  then have "tx_ok s i" by (simp add: serial_def)
  then show ?case using exec by (intro serial_set_phase) (auto simp: tx_ok_def set_phase_def replay_append)
next
  case (roll_back i s xs past rest d)
  then have "tx_ok s i" by (simp add: serial_def)
  then show ?case using roll_back by (intro serial_set_phase) (auto simp: tx_ok_def set_phase_def)
next
  case (commit i s xs past d)
  let ?s = "(set_phase i Committed s)\<lparr>wr_db := d, wr_log := wr_log s @ [(i, past)]\<rparr>"
  have "tx_ok s i" using commit(1,3) by (simp add: serial_def)
  then have i: "xs = map snd past" "replay past (wr_db s) = Some d" "i \<notin> fst ` set (wr_log s)"
    using commit(2) by (simp_all add: tx_ok_def)
  have use: "in_use s \<le> 1" and log: "log_ok s" and rep: "replay (concat (map snd (wr_log s))) d0 = Some (wr_db s)"
    using commit(3) by (simp_all add: serial_def)
  have other: "\<not> running (snd (wr_txs s ! j))" if "j < length (wr_txs s)" "j \<noteq> i" for j
    using only_running[OF use that(1) commit(1)] commit(2) that(2) by auto
  have "tx_ok ?s j" if j: "j < length (wr_txs ?s)" for j
  proof (cases "j = i")
    case True
    then show ?thesis using commit(1) by (simp add: tx_ok_def set_phase_def split: prod.split)
  next
    case False
    from j have j': "j < length (wr_txs s)" by (simp add: set_phase_def)
    then have "tx_ok s j" using commit(3) by (simp add: serial_def)
    with other[OF j' False] False show ?thesis by (simp add: tx_ok_def set_phase_def tx_good_still)
  qed
  moreover have "log_ok ?s"
    using log_ok_other[OF log, of i Committed] i commit(1,2) by (force simp: log_ok_def set_phase_def)
  moreover have "in_use ?s \<le> 1"
    using in_use_update[OF commit(1), of Committed] use by (simp add: in_use_def)
  ultimately show ?case using rep i(2) by (simp add: serial_def replay_append)
qed

lemma serial_from: "writers_from 1 d0 s \<Longrightarrow> serial d0 s"
proof (induction rule: writers_from.induct)
  case start
  then show ?case by (simp add: serial_def new_writers_def log_ok_def in_use_def)
qed (rule serial_step)

text \<open>
  C8: with the write pool that \<open>Open\<close> makes, any number of concurrent write transactions have the effect of running
  the committed ones one after the other, each with exactly its statements, in the order of the commits; those
  that failed or are not finished have none; and no two hold the connection at once.
\<close>

theorem writers_serializable:
  assumes "Open accepts g cpus path hs = (Inr st, hs')" "writers_from (sp_max_open (po_write st)) d0 s"
  shows "replay (concat (map snd (wr_log s))) d0 = Some (wr_db s) \<and> distinct (map fst (wr_log s))
    \<and> (\<forall>i past. (i, past) \<in> set (wr_log s) \<longrightarrow> i < length (wr_txs s) \<and> wr_txs s ! i = (map snd past, Committed))
    \<and> (\<forall>i<length (wr_txs s). snd (wr_txs s ! i) = Committed \<longrightarrow> i \<in> fst ` set (wr_log s))
    \<and> in_use s \<le> 1"
proof -
  have "sp_max_open (po_write st) = 1" using assms(1) by (auto simp: Open_def Let_def split: if_splits option.splits)
  with assms(2) have s: "serial d0 s" using serial_from by simp
  then have t: "tx_ok s i" if "i < length (wr_txs s)" for i using that by (simp add: serial_def)
  have "i \<in> fst ` set (wr_log s)" if "i < length (wr_txs s)" "snd (wr_txs s ! i) = Committed" for i
    using t[OF that(1)] tx_good_still[of "wr_txs s ! i"] that(2) by (simp add: tx_ok_def)
  with s show ?thesis by (auto simp: serial_def log_ok_def)
qed

text \<open>A pool that opens, and a first viewer stored while a second transaction waits.\<close>

definition good_goose :: goose where
  "good_goose = \<lparr>gz_files = True, gz_provider = True, gz_up = True\<rparr>"

definition one_commit :: writers where
  "one_commit = \<lparr>wr_db = the (all_applied [WUser ''c1'' ''Nick''] 0 empty_db),
     wr_txs = [([WUser ''c1'' ''Nick''], Committed), ([WUnlink 1], Queued)],
     wr_log = [(0, [(0, WUser ''c1'' ''Nick'')])]\<rparr>"

lemma one_commit_run: "writers_from 1 empty_db one_commit"
proof -
  let ?x = "WUser ''c1'' ''Nick''"
  obtain d where d: "write_stmt ?x 0 empty_db = Inr ((), d)" "all_applied [?x] 0 empty_db = Some d"
    by (auto simp: drop_result_def UpsertUser_def empty_db_def Let_def)
  let ?s = "\<lambda>p. \<lparr>wr_db = empty_db, wr_txs = [([?x], p), ([WUnlink 1], Queued)], wr_log = []\<rparr>"
  have next_state: "writers_from 1 empty_db s'" if "writers_from 1 empty_db s" "writer_step 1 s s1" "s1 = s'" for s s1 s'
    using that writers_from.step by blast
  have "writers_from 1 empty_db (?s Queued)"
    by (rule next_state[OF next_state[OF writers_from.start writer_step.submit[of 1 _ "[?x]"] refl]
          writer_step.submit[of 1 _ "[WUnlink 1]"]]) (simp add: new_writers_def)
  then have "writers_from 1 empty_db (?s (Running [] [?x] empty_db))"
    by (rule next_state[OF _ writer_step.begin_tx[of 0 _ "[?x]"]]) (simp_all add: in_use_def set_phase_def)
  then have "writers_from 1 empty_db (?s (Running [(0, ?x)] [] d))"
    by (rule next_state[OF _ writer_step.exec[of 0 _ "[?x]" "[]" ?x "[]" empty_db 0 "()" d]]) (simp_all add: set_phase_def d del: write_stmt.simps)
  then show ?thesis
    by (rule next_state[OF _ writer_step.commit[of 0 _ "[?x]" "[(0, ?x)]" d]]) (simp_all add: set_phase_def one_commit_def d del: all_applied.simps)
qed

lemma good_open: "Open (\<lambda>dsn. True) good_goose 2 ''db'' [] = (Inr \<lparr>po_read = \<lparr>sp_dsn = read_dsn ''db'', sp_max_open = 4, sp_max_idle = 4\<rparr>,
    po_write = \<lparr>sp_dsn = write_dsn ''db'', sp_max_open = 1, sp_max_idle = 1\<rparr>\<rparr>, [read_dsn ''db'', write_dsn ''db''])"
  by (simp add: Open_def Let_def migrate_def good_goose_def)

theorem writers_serializable_witness:
  "replay [(0, WUser ''c1'' ''Nick'')] empty_db = Some (wr_db one_commit) \<and> in_use one_commit \<le> 1"
  using writers_serializable[OF good_open, unfolded pools.select_convs sql_pool.select_convs, OF one_commit_run]
  by (simp add: one_commit_def del: replay.simps)

lemma keeps_write_stmt: "write_stmt x t d = Inr (u, d') \<Longrightarrow> db_inv d \<Longrightarrow> db_inv d'"
proof -
  have "keeps_stmt (write_stmt x)" by (cases x) (auto intro: stmt_intros)
  then show "write_stmt x t d = Inr (u, d') \<Longrightarrow> db_inv d \<Longrightarrow> db_inv d'" by (auto simp: keeps_stmt_def)
qed

lemma replay_keeps: "replay xs d = Some d' \<Longrightarrow> db_inv d \<Longrightarrow> db_inv d'"
  by (induction xs d rule: replay.induct) (auto split: sum.splits dest: keeps_write_stmt)



end
