(* ===== verification/InFlight.thy ===== *)
theory InFlight
  imports VArchive
begin

text \<open>
  The in-flight cap of \<open>internal/varchive/varchive.go\<close>: every call of \<open>get\<close> takes a token of the channel \<open>sem\<close>
  before it talks to V-ARCHIVE, unless its context ends first, and gives it back when it returns, whatever
  happened in between. The calls of all goroutines are steps of one state; what the network answers, and when,
  is up to the steps. It is shown that the cap holds, that no token is lost, and that every call ends.
\<close>

section \<open>Calls and tokens\<close>

definition maxInFlight :: nat where
  "maxInFlight = 8"

datatype call =
    Waiting string string
  | Sent string string
  | Returned "va_error + (int \<times> string)"

record client =
  cl_sem :: nat
  cl_calls :: "call list"

definition new_client :: client where
  "new_client = \<lparr>cl_sem = 0, cl_calls = []\<rparr>"

inductive call_step :: "client \<Rightarrow> client \<Rightarrow> bool" where
  arrive: "call_step s (s\<lparr>cl_calls := cl_calls s @ [Waiting path bearer]\<rparr>)"
| acquire: "i < length (cl_calls s) \<Longrightarrow> cl_calls s ! i = Waiting path bearer \<Longrightarrow> cl_sem s < maxInFlight \<Longrightarrow>
    call_step s (s\<lparr>cl_sem := cl_sem s + 1, cl_calls := (cl_calls s)[i := Sent path bearer]\<rparr>)"
| give_up: "i < length (cl_calls s) \<Longrightarrow> cl_calls s ! i = Waiting path bearer \<Longrightarrow>
    call_step s (s\<lparr>cl_calls := (cl_calls s)[i := Returned (Inl ErrUnavailable)]\<rparr>)"
| answer: "i < length (cl_calls s) \<Longrightarrow> cl_calls s ! i = Sent path bearer \<Longrightarrow>
    call_step s (s\<lparr>cl_sem := cl_sem s - 1, cl_calls := (cl_calls s)[i := Returned (va_get http path bearer)]\<rparr>)"

inductive client_reachable :: "client \<Rightarrow> bool" where
  start: "client_reachable new_client"
| step: "client_reachable s \<Longrightarrow> call_step s s' \<Longrightarrow> client_reachable s'"

definition is_sent :: "call \<Rightarrow> bool" where
  "is_sent c = (case c of Sent _ _ \<Rightarrow> True | _ \<Rightarrow> False)"

definition is_returned :: "call \<Rightarrow> bool" where
  "is_returned c = (case c of Returned _ \<Rightarrow> True | _ \<Rightarrow> False)"

lemma call_simps [simp]:
  "is_sent (Sent p b)" "\<not> is_sent (Waiting p b)" "\<not> is_sent (Returned r)"
  "is_returned (Returned r)" "\<not> is_returned (Waiting p b)" "\<not> is_returned (Sent p b)"
  by (simp_all add: is_sent_def is_returned_def)

text \<open>The steps a call still has to make.\<close>

definition call_work :: "call \<Rightarrow> nat" where
  "call_work c = (case c of Waiting _ _ \<Rightarrow> 2 | Sent _ _ \<Rightarrow> 1 | Returned _ \<Rightarrow> 0)"

lemma call_work_simps [simp]:
  "call_work (Waiting p b) = 2" "call_work (Sent p b) = 1" "call_work (Returned r) = 0"
  by (simp_all add: call_work_def)

definition work :: "client \<Rightarrow> nat" where
  "work s = sum_list (map call_work (cl_calls s))"

section \<open>The cap\<close>

definition sent_calls :: "client \<Rightarrow> call list" where
  "sent_calls s = filter is_sent (cl_calls s)"

lemma sent_update:
  assumes "i < length cs"
  shows "length (filter is_sent (cs[i := c])) + (if is_sent (cs ! i) then 1 else 0)
    = length (filter is_sent cs) + (if is_sent c then 1 else 0)"
proof -
  have s: "cs = take i cs @ cs ! i # drop (Suc i) cs" by (rule id_take_nth_drop[OF assms])
  have "length (filter is_sent cs) = length (filter is_sent (take i cs)) + (if is_sent (cs ! i) then 1 else 0)
      + length (filter is_sent (drop (Suc i) cs))" by (subst s) simp
  then show ?thesis using assms by (simp add: upd_conv_take_nth_drop)
qed

lemma work_update:
  "i < length cs \<Longrightarrow> sum_list (map call_work (cs[i := c])) + call_work (cs ! i) = sum_list (map call_work cs) + call_work c"
  by (simp add: map_update sum_list_update) (metis elem_le_sum_list length_map nth_map add.commute le_add_diff_inverse2 trans_le_add1)

lemma tokens_step:
  "call_step s s' \<Longrightarrow> cl_sem s = length (sent_calls s) \<and> cl_sem s \<le> maxInFlight \<Longrightarrow>
     cl_sem s' = length (sent_calls s') \<and> cl_sem s' \<le> maxInFlight"
proof (induction rule: call_step.induct)
  case (arrive s path bearer)
  then show ?case by (simp add: sent_calls_def)
next
  case (acquire i s path bearer)
  then show ?case using sent_update[OF acquire(1), of "Sent path bearer"] by (simp add: sent_calls_def)
next
  case (give_up i s path bearer)
  then show ?case using sent_update[OF give_up(1), of "Returned (Inl ErrUnavailable)"] by (simp add: sent_calls_def)
next
  case (answer i s path bearer http)
  then show ?case using sent_update[OF answer(1), of "Returned (va_get http path bearer)"] by (auto simp: sent_calls_def)
qed

lemma tokens: "client_reachable s \<Longrightarrow> cl_sem s = length (sent_calls s) \<and> cl_sem s \<le> maxInFlight"
proof (induction rule: client_reachable.induct)
  case start
  show ?case by (simp add: new_client_def sent_calls_def)
qed (rule tokens_step)

text \<open>
  C22: at most eight requests are at V-ARCHIVE at any time, from all goroutines together; the tokens that are taken
  are those of the requests under way, so none is lost, and as long as a call has not returned some call can go
  on without a context ending.
\<close>

theorem in_flight_cap:
  assumes "client_reachable s"
  shows "length (sent_calls s) \<le> 8 \<and> cl_sem s = length (sent_calls s)
    \<and> (list_all is_returned (cl_calls s) \<or> (\<exists>i < length (cl_calls s). (\<exists>p b. cl_calls s ! i = Sent p b)
         \<or> (\<exists>p b. cl_calls s ! i = Waiting p b \<and> call_step s (s\<lparr>cl_sem := cl_sem s + 1, cl_calls := (cl_calls s)[i := Sent p b]\<rparr>))))"
proof -
  from tokens[OF assms] have t: "cl_sem s = length (sent_calls s)" "cl_sem s \<le> maxInFlight" by auto
  have "\<exists>i < length (cl_calls s). (\<exists>p b. cl_calls s ! i = Sent p b)
         \<or> (\<exists>p b. cl_calls s ! i = Waiting p b \<and> call_step s (s\<lparr>cl_sem := cl_sem s + 1, cl_calls := (cl_calls s)[i := Sent p b]\<rparr>))"
    if "\<not> list_all is_returned (cl_calls s)"
  proof -
    from that obtain i where i: "i < length (cl_calls s)" "\<not> is_returned (cl_calls s ! i)" by (auto simp: list_all_length)
    show ?thesis
    proof (cases "sent_calls s = []")
      case True
      then have "\<not> is_sent (cl_calls s ! i)" using i(1) by (auto simp: sent_calls_def filter_empty_conv)
      with i(2) obtain p b where w: "cl_calls s ! i = Waiting p b" by (cases "cl_calls s ! i") auto
      have "cl_sem s < maxInFlight" using True t by (simp add: maxInFlight_def)
      with i(1) w call_step.acquire[OF i(1) w] show ?thesis by blast
    next
      case False
      then obtain c where "c \<in> set (cl_calls s)" "is_sent c" by (auto simp: sent_calls_def filter_empty_conv)
      then obtain j where "j < length (cl_calls s)" "is_sent (cl_calls s ! j)" by (auto simp: in_set_conv_nth)
      then show ?thesis by (intro exI[of _ j]) (cases "cl_calls s ! j"; auto)
    qed
  qed
  with t show ?thesis by (auto simp: maxInFlight_def)
qed

definition one_call :: "nat \<Rightarrow> call \<Rightarrow> client" where
  "one_call n c = \<lparr>cl_sem = n, cl_calls = [c]\<rparr>"

lemma one_call_waiting: "client_reachable (one_call 0 (Waiting ''/x'' ''''))"
  using client_reachable.step[OF client_reachable.start call_step.arrive] by (simp add: new_client_def one_call_def)

lemma one_call_sent: "call_step (one_call 0 (Waiting ''/x'' '''')) (one_call 1 (Sent ''/x'' ''''))"
  using call_step.acquire[of 0 "one_call 0 (Waiting ''/x'' '''')" "''/x''" "''''"] by (simp add: one_call_def maxInFlight_def)

lemma one_call_answered:
  "call_step (one_call 1 (Sent ''/x'' '''')) (one_call 0 (Returned (Inl ErrUnavailable)))"
  using call_step.answer[of 0 "one_call 1 (Sent ''/x'' '''')" "''/x''" "''''" "\<lambda>p b. None"] by (simp add: one_call_def va_get_def)

theorem in_flight_cap_witness:
  "length (sent_calls (one_call 1 (Sent ''/x'' ''''))) = 1 \<and> cl_sem (one_call 1 (Sent ''/x'' '''')) = 1"
  using in_flight_cap[OF client_reachable.step[OF one_call_waiting one_call_sent]] by (simp add: one_call_def)

section \<open>Every call ends\<close>

text \<open>A step that is not the arrival of a new call.\<close>

definition goes_on :: "client \<Rightarrow> client \<Rightarrow> bool" where
  "goes_on s s' \<longleftrightarrow> call_step s s' \<and> length (cl_calls s') = length (cl_calls s)"

lemma goes_on_work: "goes_on s s' \<Longrightarrow> work s' < work s"
proof -
  assume g: "goes_on s s'"
  then have "call_step s s'" by (simp add: goes_on_def)
  then show ?thesis
  proof cases
    case (arrive path bearer)
    with g show ?thesis by (simp add: goes_on_def)
  next
    case (acquire i path bearer)
    then show ?thesis using work_update[OF acquire(2), of "Sent path bearer"] by (simp add: work_def)
  next
    case (give_up i path bearer)
    then show ?thesis using work_update[OF give_up(2), of "Returned (Inl ErrUnavailable)"] by (simp add: work_def)
  next
    case (answer i path bearer http)
    then show ?thesis using work_update[OF answer(2), of "Returned (va_get http path bearer)"] by (simp add: work_def)
  qed
qed

inductive goes_on_for :: "nat \<Rightarrow> client \<Rightarrow> client \<Rightarrow> bool" where
  none: "goes_on_for 0 s s"
| more: "goes_on s s' \<Longrightarrow> goes_on_for n s' s'' \<Longrightarrow> goes_on_for (Suc n) s s''"

lemma goes_on_for_work: "goes_on_for n s s' \<Longrightarrow> n + work s' \<le> work s"
  by (induction rule: goes_on_for.induct) (auto dest: goes_on_work)

lemma goes_on_reachable: "goes_on_for n s s' \<Longrightarrow> client_reachable s \<Longrightarrow> client_reachable s' \<and> length (cl_calls s') = length (cl_calls s)"
  by (induction rule: goes_on_for.induct) (auto simp: goes_on_def intro: client_reachable.step)

lemma work_bound: "work s \<le> 2 * length (cl_calls s)"
proof -
  have c: "call_work c \<le> 2" for c by (cases c) simp_all
  have "sum_list (map call_work cs) \<le> 2 * length cs" for cs
  proof (induction cs)
    case (Cons a cs)
    then show ?case using c[of a] by simp
  qed simp
  then show ?thesis by (simp add: work_def)
qed

text \<open>
  once no new call arrives, at most two steps per call are left, and a run that cannot go on has ended every
  call and given back every token.
\<close>

theorem every_call_ends:
  assumes "client_reachable s" "goes_on_for n s s'"
  shows "n \<le> 2 * length (cl_calls s)
    \<and> ((\<exists>s''. goes_on s' s'') \<or> list_all is_returned (cl_calls s') \<and> cl_sem s' = 0)"
proof -
  have "n \<le> 2 * length (cl_calls s)" using goes_on_for_work[OF assms(2)] work_bound[of s] by simp
  moreover have "list_all is_returned (cl_calls s') \<and> cl_sem s' = 0" if stuck: "\<not> (\<exists>s''. goes_on s' s'')"
  proof -
    have r: "client_reachable s'" using goes_on_reachable[OF assms(2,1)] by simp
    have "is_returned (cl_calls s' ! i)" if i: "i < length (cl_calls s')" for i
    proof (cases "cl_calls s' ! i")
      case (Waiting p b)
      from call_step.give_up[OF i this] have "goes_on s' (s'\<lparr>cl_calls := (cl_calls s')[i := Returned (Inl ErrUnavailable)]\<rparr>)"
        by (simp add: goes_on_def)
      with stuck show ?thesis by blast
    next
      case (Sent p b)
      from call_step.answer[OF i this] have "\<exists>s''. goes_on s' s''" by (fastforce simp: goes_on_def)
      with stuck show ?thesis by blast
    qed simp
    then have all: "list_all is_returned (cl_calls s')" by (simp add: list_all_length)
    then have "sent_calls s' = []" unfolding sent_calls_def filter_empty_conv
      by (metis call_simps(4-6) call_simps(3) call.exhaust list.pred_set)
    with all tokens[OF r] show ?thesis by simp
  qed
  ultimately show ?thesis by blast
qed

theorem every_call_ends_witness:
  "(2::nat) \<le> 2 * length (cl_calls (one_call 0 (Waiting ''/x'' '''')))
   \<and> ((\<exists>s. goes_on (one_call 0 (Returned (Inl ErrUnavailable))) s)
      \<or> list_all is_returned [Returned (Inl ErrUnavailable)] \<and> cl_sem (one_call 0 (Returned (Inl ErrUnavailable))) = 0)"
proof -
  have "goes_on (one_call 0 (Waiting ''/x'' '''')) (one_call 1 (Sent ''/x'' ''''))"
    "goes_on (one_call 1 (Sent ''/x'' '''')) (one_call 0 (Returned (Inl ErrUnavailable)))"
    using one_call_sent one_call_answered by (simp_all add: goes_on_def one_call_def)
  then have "goes_on_for 2 (one_call 0 (Waiting ''/x'' '''')) (one_call 0 (Returned (Inl ErrUnavailable)))"
    by (simp add: numeral_2_eq_2 goes_on_for.intros)
  from every_call_ends[OF one_call_waiting this] show ?thesis by (simp add: one_call_def)
qed

end
