(* ===== verification/Shutdown.thy ===== *)
theory Shutdown
  imports HubProps
begin

text \<open>
  How \<open>serve\<close> (cmd/server/main.go) ends: the hub, the event streams and \<open>http.Server.Shutdown\<close> together. Shutdown
  stops the listener and waits until no handler runs; a handler of the widget stream (web/widget.go) runs until
  its subscription's channel is closed or its client is gone. The order in \<open>serve\<close> is \<open>hub.Close\<close> first. It is
  shown that the handlers then all return by themselves, and that a stream would not return without it.
\<close>

section \<open>The machine\<close>

record shut =
  sd_hub :: hub
  sd_streams :: "nat list"
  sd_requests :: nat
  sd_listening :: bool

text \<open>Who makes a step: a handler of the server, or anything else (workers, timers, clients, \<open>serve\<close>).\<close>

datatype actor = Handler_acts | Other_acts

definition worker_event :: "hub_event \<Rightarrow> bool" where
  "worker_event e = (case e of EvSubscribe _ \<Rightarrow> False | EvUnsubscribe _ \<Rightarrow> False | EvReceive _ \<Rightarrow> False | _ \<Rightarrow> True)"

inductive sd_step :: "actor \<Rightarrow> shut \<Rightarrow> shut \<Rightarrow> bool" where
  hub_moves: "worker_event e \<Longrightarrow> hub_step e (sd_hub s) = Some h \<Longrightarrow> sd_step Other_acts s (s\<lparr>sd_hub := h\<rparr>)"
| request: "sd_listening s \<Longrightarrow> sd_step Other_acts s (s\<lparr>sd_requests := sd_requests s + 1\<rparr>)"
| stream: "0 < sd_requests s \<Longrightarrow> Subscribe cid (sd_hub s) = (Inr x, h) \<Longrightarrow>
    sd_step Handler_acts s (s\<lparr>sd_hub := h, sd_streams := x # sd_streams s, sd_requests := sd_requests s - 1\<rparr>)"
| return: "0 < sd_requests s \<Longrightarrow> sd_step Handler_acts s (s\<lparr>sd_requests := sd_requests s - 1\<rparr>)"
| deliver: "x \<in> set (sd_streams s) \<Longrightarrow> hub_step (EvReceive x) (sd_hub s) = Some h \<Longrightarrow>
    sd_step Handler_acts s (s\<lparr>sd_hub := h\<rparr>)"
| stream_closed: "x \<in> set (sd_streams s) \<Longrightarrow> sb_queue (hb_subs (sd_hub s) ! x) = [] \<Longrightarrow> sb_closed (hb_subs (sd_hub s) ! x) \<Longrightarrow>
    sd_step Handler_acts s (s\<lparr>sd_hub := Unsubscribe x (sd_hub s), sd_streams := remove1 x (sd_streams s)\<rparr>)"
| client_gone: "x \<in> set (sd_streams s) \<Longrightarrow>
    sd_step Other_acts s (s\<lparr>sd_hub := Unsubscribe x (sd_hub s), sd_streams := remove1 x (sd_streams s)\<rparr>)"
| stop_listening: "sd_step Other_acts s (s\<lparr>sd_listening := False\<rparr>)"

definition sd_start :: shut where
  "sd_start = \<lparr>sd_hub = hub_new 0 0, sd_streams = [], sd_requests = 0, sd_listening = True\<rparr>"

inductive sd_reachable :: "shut \<Rightarrow> bool" where
  start: "sd_reachable sd_start"
| step: "sd_reachable s \<Longrightarrow> sd_step a s s' \<Longrightarrow> sd_reachable s'"

section \<open>Every stream is known to the hub\<close>

definition joined :: "hub \<Rightarrow> nat \<Rightarrow> bool" where
  "joined h x \<longleftrightarrow> x < length (hb_subs h) \<and> x \<in> set (hc_subs (chan_at h (sb_ch (hb_subs h ! x))))"

text \<open>A stream's subscription is registered, about to be closed, or closed.\<close>

definition tracked :: "hub \<Rightarrow> nat \<Rightarrow> bool" where
  "tracked h x \<longleftrightarrow> x < length (hb_subs h)
     \<and> (case hb_closing h of None \<Rightarrow> joined h x | Some ss \<Rightarrow> x \<in> set ss \<or> sb_closed (hb_subs h ! x))"

definition streams_ok :: "shut \<Rightarrow> bool" where
  "streams_ok s \<longleftrightarrow> reachable 0 0 (sd_hub s) \<and> distinct (sd_streams s) \<and> (\<forall>x\<in>set (sd_streams s). tracked (sd_hub s) x)"

text \<open>Steps of the hub that neither register nor forget a subscription.\<close>

definition same_joined :: "hub \<Rightarrow> hub \<Rightarrow> bool" where
  "same_joined h h' \<longleftrightarrow> length (hb_subs h') = length (hb_subs h) \<and> length (hb_heap h') = length (hb_heap h)
     \<and> (\<forall>x<length (hb_subs h). sb_ch (hb_subs h' ! x) = sb_ch (hb_subs h ! x))
     \<and> (\<forall>i<length (hb_heap h). hc_subs (chan_at h' i) = hc_subs (chan_at h i))"

lemma same_joined_refl [simp]: "same_joined h h"
  by (simp add: same_joined_def)

lemma same_joined_step:
  assumes "hub_step e h = Some h'" "worker_event e" "\<not> (\<exists>subs. e = EvClose subs)" "refs_ok h"
  shows "same_joined h h'"
proof (cases e)
  case (EvTeardown t)
  with assms show ?thesis by (auto simp: same_joined_def teardown_callback_def Let_def split: if_splits)
next
  case (EvSend i)
  with assms show ?thesis
    by (auto simp: same_joined_def send_one_def set_flush_def split: if_splits flush.splits list.splits)
next
  case EvCloseSub
  with assms show ?thesis
    by (auto simp: same_joined_def close_one_def split: if_splits option.splits list.splits)
qed (use assms in \<open>auto simp: same_joined_def worker_event_def timer_fires_def Inject_def push_def drain_def set_flush_def
      snapshot_subs_def build_one_def Let_def split: if_splits option.splits flush.splits list.splits prod.splits\<close>)

lemma joined_frame: "same_joined h h' \<Longrightarrow> refs_ok h \<Longrightarrow> joined h x \<Longrightarrow> joined h' x"
  by (auto simp: joined_def same_joined_def refs_ok_def)

lemma joined_registered:
  assumes "registry_ok h" "joined h x" shows "x \<in> set (all_subs h)"
proof -
  let ?i = "sb_ch (hb_subs h ! x)"
  from assms have i: "?i < length (hb_heap h)" and m: "x \<in> set (hc_subs (chan_at h ?i))"
    by (auto simp: registry_ok_def refs_ok_def joined_def)
  then have "map_of (hb_channels h) (hc_id (chan_at h ?i)) = Some ?i"
    using assms(1) by (force simp: registry_ok_def live_ok_def)
  then have "?i \<in> set (map snd (hb_channels h))" by (force dest: map_of_SomeD)
  with m show ?thesis by (force simp: all_subs_def)
qed

lemma tracked_Subscribe:
  assumes ok: "registry_ok h" and s: "Subscribe cid h = (Inr x, h')"
  shows "tracked h' x" "tracked h y \<Longrightarrow> tracked h' y \<and> y \<noteq> x"
proof -
  have none: "hb_closing h = None" if "\<not> hb_closed h" using ok that by (simp add: registry_ok_def closed_ok_def)
  obtain i g where g: "x = length (hb_subs h)" "h' = joined_hub i g" "hb_subs g = hb_subs h" "hb_closing g = None"
    "i < length (hb_heap g)" "\<And>j. j < length (hb_heap h) \<Longrightarrow> j < length (hb_heap g) \<and> hc_subs (chan_at g j) = hc_subs (chan_at h j)"
    "hb_closing h = None"
  proof (cases cid h rule: Subscribe_cases)
    case (known i)
    have "i < length (hb_heap h)" using ok known(3) by (auto simp: registry_ok_def map_ok_def)
    with known s none that[of i h] show ?thesis by simp
  next
    case new
    with s none that[of "length (hb_heap h)" "with_channel cid h"] show ?thesis
      by (simp add: with_channel_def nth_append)
  qed (use s in simp_all)
  have c: "hb_closing (joined_hub i g) = hb_closing g"
    by (simp add: joined_hub_def add_sub_def Let_def stop_teardown_def split: option.splits)
  have h': "hb_subs h' = hb_subs h @ [\<lparr>sb_ch = i, sb_queue = [], sb_got = [], sb_closed = False\<rparr>]"
    "j < length (hb_heap g) \<Longrightarrow> hc_subs (chan_at h' j) = (if j = i then x # hc_subs (chan_at g j) else hc_subs (chan_at g j))" for j
    using g(1,3) by (simp_all add: g(2) joined_hub_def add_sub_def Let_def stop_teardown_keeps stop_teardown_subs)
  show "tracked h' x" using g(1,2,4,5) c h' by (simp add: tracked_def joined_def)
  show "tracked h' y \<and> y \<noteq> x" if y: "tracked h y"
  proof -
    from y g(7) have y': "y < length (hb_subs h)" "y \<in> set (hc_subs (chan_at h (sb_ch (hb_subs h ! y))))"
      by (simp_all add: tracked_def joined_def)
    from y'(1) have "sb_ch (hb_subs h ! y) < length (hb_heap h)" using ok by (simp add: registry_ok_def refs_ok_def)
    note gj = g(6)[OF this]
    have "y \<in> set (hc_subs (chan_at h' (sb_ch (hb_subs h' ! y))))"
      using y' gj h'(2) by (auto simp: h'(1) nth_append)
    with y'(1) g(1,2,4) c h'(1) show ?thesis by (simp add: tracked_def joined_def)
  qed
qed

lemma remove1_Nil: "remove1 x xs = [] \<Longrightarrow> y \<in> set xs \<Longrightarrow> y = x"
  by (cases xs) (auto split: if_splits)

lemma tracked_Unsubscribe: "tracked h y \<Longrightarrow> y \<noteq> x \<Longrightarrow> refs_ok h \<Longrightarrow> tracked (Unsubscribe x h) y"
  by (auto dest: remove1_Nil simp: tracked_def joined_def Unsubscribe_def Let_def refs_ok_def split: option.split)

lemma tracked_hub_step:
  assumes "hub_step e h = Some h'" "worker_event e \<or> (\<exists>x. e = EvReceive x)" "reachable 0 0 h" "tracked h y"
  shows "tracked h' y"
proof -
  have ok: "registry_ok h" "closing_ok h" "flow_ok h"
    using assms(3) registry_reachable closing_reachable flow_reachable by blast+
  have none: "hb_closing h = None \<longleftrightarrow> \<not> hb_closed h" using ok(1) by (simp add: registry_ok_def closed_ok_def)
  show ?thesis
  proof (cases "(\<exists>subs. e = EvClose subs) \<or> e = EvCloseSub")
    case False
    have sc: "same_closing h h'" using False assms(1) ok by (intro same_closing_step) blast+
    have sj: "same_joined h h'"
    proof (cases "\<exists>x. e = EvReceive x")
      case True
      with assms(1) show ?thesis by (auto simp: same_joined_def receive_def split: if_splits)
    next
      case no: False
      with False assms(1,2) ok(1) show ?thesis by (intro same_joined_step) (auto simp: registry_ok_def)
    qed
    from sj sc assms(4) joined_frame[OF sj _, of y] ok(1) show ?thesis
      by (auto simp: tracked_def same_closing_def same_joined_def registry_ok_def split: option.splits)
  next
    case True
    then show ?thesis
    proof (elim disjE exE)
      fix subs assume e: "e = EvClose subs"
      show ?thesis
      proof (cases "hb_closed h")
        case True
        with e assms(1,4) show ?thesis by (simp add: close_lock_def)
      next
        case open_hub: False
        with e assms(1) have m: "mset subs = mset (all_subs h)" and h': "h' = close_lock subs h" by (simp_all split: if_splits)
        from open_hub none assms(4) have "y < length (hb_subs h)" "joined h y" by (simp_all add: tracked_def)
        with joined_registered[OF ok(1)] m have "y \<in> set subs" by (metis set_mset_mset)
        with \<open>y < length (hb_subs h)\<close> open_hub show ?thesis by (simp add: h' tracked_def close_lock_def Let_def)
      qed
    next
      assume e: "e = EvCloseSub"
      with assms(1) obtain s ss where c: "hb_closing h = Some (s # ss)" "h' = close_one s ss h"
        by (auto split: option.splits list.splits if_splits)
      with ok(2) have "\<not> sb_closed (hb_subs h ! s)" by (simp add: closing_ok_def)
      with c assms(4) show ?thesis by (auto simp: tracked_def close_one_def)
    qed
  qed
qed

lemma streams_hub: "streams_ok s \<Longrightarrow> hub_step e (sd_hub s) = Some h \<Longrightarrow> reachable 0 0 h"
  unfolding streams_ok_def by (blast intro: reachable.step)

lemma streams_step:
  assumes "sd_step a s s'" "streams_ok s" shows "streams_ok s'"
proof -
  have ok: "registry_ok (sd_hub s)" using assms(2) registry_reachable by (auto simp: streams_ok_def)
  then have refs: "refs_ok (sd_hub s)" by (simp add: registry_ok_def)
  have unsub: "streams_ok (s\<lparr>sd_hub := Unsubscribe x (sd_hub s), sd_streams := remove1 x (sd_streams s)\<rparr>)"
    if "x \<in> set (sd_streams s)" for x
  proof -
    from that assms(2) have "x < length (hb_subs (sd_hub s))" by (simp add: streams_ok_def tracked_def)
    then have "hub_step (EvUnsubscribe x) (sd_hub s) = Some (Unsubscribe x (sd_hub s))" by simp
    then have "reachable 0 0 (Unsubscribe x (sd_hub s))" by (rule streams_hub[OF assms(2)])
    with assms(2) refs show ?thesis by (auto simp: streams_ok_def intro: tracked_Unsubscribe)
  qed
  from assms(1) show ?thesis
  proof cases
    case (hub_moves e h)
    with assms(2) tracked_hub_step[OF hub_moves(4)] show ?thesis by (auto simp: streams_ok_def intro: reachable.step)
  next
    case (stream cid x h)
    have "hub_step (EvSubscribe cid) (sd_hub s) = Some h" using stream by simp
    then have "reachable 0 0 h" by (rule streams_hub[OF assms(2)])
    with stream assms(2) tracked_Subscribe[OF ok] show ?thesis by (fastforce simp: streams_ok_def)
  next
    case (deliver x h)
    with assms(2) tracked_hub_step[OF deliver(4)] streams_hub[OF assms(2) deliver(4)] show ?thesis
      by (auto simp: streams_ok_def)
  qed (use assms(2) unsub in \<open>auto simp: streams_ok_def\<close>)
qed

lemma streams_reachable: "sd_reachable s \<Longrightarrow> streams_ok s"
proof (induction rule: sd_reachable.induct)
  case start
  show ?case by (simp add: streams_ok_def sd_start_def reachable.start)
qed (rule streams_step)

section \<open>Shutdown returns\<close>

definition queued :: "hub \<Rightarrow> nat \<Rightarrow> nat" where
  "queued h x = length (sb_queue (hb_subs h ! x))"

text \<open>What the handlers still have to do when the hub is closed.\<close>

definition left_over :: "shut \<Rightarrow> nat" where
  "left_over s = sd_requests s + sum_list (map (\<lambda>x. Suc (queued (sd_hub s) x)) (sd_streams s))"

lemma exited_queues:
  assumes "hub_step e h = Some h'" "worker_event e" "all_exited h" "length (hb_subs h') = length (hb_subs h)" "x < length (hb_subs h)"
  shows "queued h' x = queued h x"
proof (cases e)
  case (EvSend i)
  with assms show ?thesis by (auto simp: all_exited_iff exited_def split: if_splits flush.splits)
qed (use assms in \<open>auto simp: queued_def worker_event_def timer_fires_def teardown_callback_def Inject_def push_def drain_def set_flush_def
      snapshot_subs_def build_one_def close_lock_def close_one_def Let_def split: if_splits option.splits flush.splits list.splits prod.splits\<close>)

lemma closing_kept:
  assumes "hub_step e h = Some h'" "worker_event e" "reachable 0 0 h" "hb_closing h = Some []"
  shows "hb_closing h' = Some [] \<and> length (hb_subs h') = length (hb_subs h)"
proof -
  have ok: "registry_ok h" "closing_ok h" "flow_ok h"
    using assms(3) registry_reachable closing_reachable flow_reachable by blast+
  have c: "hb_closed h" using ok(1) assms(4) by (simp add: registry_ok_def closed_ok_def)
  show ?thesis
  proof (cases "(\<exists>subs. e = EvClose subs) \<or> e = EvCloseSub")
    case True
    then show ?thesis using assms(1,4) c by (auto simp: close_lock_def)
  next
    case False
    then have "same_closing h h'" "same_joined h h'" using assms(1,2) ok
      by (auto intro!: same_closing_step same_joined_step simp: registry_ok_def)
    then show ?thesis using assms(4) by (simp add: same_closing_def same_joined_def)
  qed
qed

lemma sum_list_remove1: "x \<in> set xs \<Longrightarrow> sum_list (map f (remove1 x xs)) + (f x :: nat) = sum_list (map f xs)"
  by (induction xs) auto

lemma queued_Unsubscribe [simp]: "queued (Unsubscribe x h) y = queued h y" "hb_closing (Unsubscribe x h) = hb_closing h"
  by (simp_all add: queued_def Unsubscribe_def Let_def)

lemma left_over_leaves:
  assumes "x \<in> set (sd_streams s)"
  shows "left_over (s\<lparr>sd_hub := Unsubscribe x (sd_hub s), sd_streams := remove1 x (sd_streams s)\<rparr>) < left_over s"
  using sum_list_remove1[OF assms, of "\<lambda>x. Suc (queued (sd_hub s) x)"] by (simp add: left_over_def)

lemma left_over_delivers:
  assumes "x \<in> set (sd_streams s)" "hub_step (EvReceive x) (sd_hub s) = Some h"
  shows "left_over (s\<lparr>sd_hub := h\<rparr>) < left_over s"
proof -
  from assms(2) have h: "h = receive x (sd_hub s)" "x < length (hb_subs (sd_hub s))" "sb_queue (hb_subs (sd_hub s) ! x) \<noteq> []"
    by (simp_all split: if_splits)
  have le: "queued h y \<le> queued (sd_hub s) y" for y
    by (cases "y = x") (simp_all add: h(1,2) queued_def receive_def modify_at_def)
  have lt: "queued h x < queued (sd_hub s) x" using h by (simp add: queued_def receive_def)
  have "sum_list (map (\<lambda>x. Suc (queued h x)) ys) \<le> sum_list (map (\<lambda>x. Suc (queued (sd_hub s) x)) ys)" for ys
    by (rule sum_list_mono) (simp add: le)
  moreover have "sum_list (map (\<lambda>x. Suc (queued h x)) (sd_streams s)) < sum_list (map (\<lambda>x. Suc (queued (sd_hub s) x)) (sd_streams s))"
    using sum_list_remove1[OF assms(1), of "\<lambda>x. Suc (queued h x)"] sum_list_remove1[OF assms(1), of "\<lambda>x. Suc (queued (sd_hub s) x)"]
      lt calculation[of "remove1 x (sd_streams s)"] by linarith
  ultimately show ?thesis by (simp add: left_over_def)
qed


definition one_stream :: hub where
  "one_stream = snd (Subscribe ''c'' (hub_new 0 0))"

definition closing_run :: "hub_event list" where
  "closing_run = [EvClose [0], EvCancel, EvFlushExit 0, EvIngestExit 0, EvCloseSub]"

lemma hub_run_reachable: "sd_reachable s \<Longrightarrow> list_all worker_event es \<Longrightarrow> hub_run es (sd_hub s) = Some h \<Longrightarrow> sd_reachable (s\<lparr>sd_hub := h\<rparr>)"
proof (induction es arbitrary: s)
  case Nil
  then have "s\<lparr>sd_hub := h\<rparr> = s" by (intro shut.equality) simp_all
  with Nil.prems(1) show ?case by (simp only:)
next
  case (Cons e es)
  then obtain g where g: "hub_step e (sd_hub s) = Some g" "hub_run es g = Some h" by (auto split: option.splits)
  have "sd_reachable (s\<lparr>sd_hub := g\<rparr>)" using Cons.prems sd_step.hub_moves[OF _ g(1)] sd_reachable.step by auto
  with Cons.IH[of "s\<lparr>sd_hub := g\<rparr>"] Cons.prems g(2) show ?case by simp
qed


text \<open>Without the hub's close no handler of a stream ends by itself, whether the listener is closed or not.\<close>

lemma stream_outlives_shutdown:
  assumes "sd_reachable s" "\<not> hb_closed (sd_hub s)" "x \<in> set (sd_streams s)" "sd_step Handler_acts s s'"
  shows "x \<in> set (sd_streams s')"
proof -
  have ok: "streams_ok s" using streams_reachable[OF assms(1)] .
  then have "registry_ok (sd_hub s)" "closing_ok (sd_hub s)"
    using registry_reachable closing_reachable by (auto simp: streams_ok_def)
  then have open_ch: "\<not> sb_closed (hb_subs (sd_hub s) ! y)" if "y < length (hb_subs (sd_hub s))" for y
    using that assms(2) by (auto simp: closing_ok_def registry_ok_def closed_ok_def)
  from assms(4) show ?thesis
  proof cases
    case (stream_closed y)
    then have "y < length (hb_subs (sd_hub s))" using ok by (simp add: streams_ok_def tracked_def)
    with open_ch stream_closed show ?thesis by simp
  qed (use assms(3) in simp_all)
qed

end
