(* ===== verification/Spec2Isabelle.thy ===== *)
theory Spec2Isabelle
  imports DjClass TtlCache RateLimit Schedule Store VArchive Resolver Link LinkCard LinkSync HubProps Ingest Web Widget Routes Login Config Boot Race Writers InFlight Shutdown
begin

text \<open>
  The chat overlay service of this repository: a streamer opens the widget of a Chzzk channel in OBS, and
  each chat message carries the V-ARCHIVE DJ CLASS badge of its sender, if the sender has linked an account.
  One process serves the pages, keeps one chat session per channel that is being watched, and syncs the
  classes of all linked viewers once a day. The development models the Go code under \<open>src/internal\<close> and
  \<open>src/cmd/server\<close>; names are those of the source where HOL allows it.

  How the parts interact, and where each is modelled.

  A widget opens \<open>/widget/{id}/stream\<close> (\<open>web\<close>); the handler subscribes to the channel at the \<open>hub\<close>, which starts
  a worker for the first subscriber and stops it some time after the last one has left. The worker gets an access
  token (\<open>tokens\<close>, from the encrypted columns of the \<open>store\<close>, refreshed at \<open>chzzk\<close> when it runs out), a session
  URL, and an \<open>eio3\<close> connection, subscribes to the chat, and pushes each message (\<open>chat\<close>) into the hub's buffer.
  Every flush takes the buffer, asks the \<open>resolver\<close> for the badge of each sender (through a \<open>ttlcache\<close>, from the
  store), and sends one batch to every widget of the channel. A viewer logs in over Chzzk and links, syncs, unlinks
  or picks a button on \<open>/link\<close> (\<open>web\<close> over \<open>link\<close> over \<open>varchive\<close>); each committed change drops the viewer's cached
  badge.

    \<^item> \<open>Prelude\<close>, \<open>Strconv\<close>, \<open>Json\<close>, \<open>JsonOut\<close>, \<open>Url\<close>, \<open>GoNet\<close>: what is used of Go's standard library, written out:
      \<open>strings\<close>, integers, \<open>encoding/json\<close> in both directions, \<open>net/url\<close>, requests and addresses. A \<open>string\<close>
      is the list of its bytes; a Go map is an association list with distinct keys.
    \<^item> \<open>DjClass\<close> (djclass.go): parsing class names, the order of badges, the selection and its display. It is shown
      that the selection is the first maximum in the documented order.
    \<^item> \<open>TtlCache\<close> (ttlcache.go): the map and the insertion list as the code keeps them; every run of operations
      refines an association list with expiry. The locale \<open>timed_map\<close> is what the resolver needs of a cache.
    \<^item> \<open>RateLimit\<close> (ratelimit.go), \<open>Schedule\<close> (schedule.go): the fixed-window limiter with its eviction, the daily job.
    \<^item> \<open>Store\<close> (store.go, sessions.go, db/queries.sql.go, the schema): the tables as lists of rows with their
      constraints (\<open>db_inv\<close>), every query, \<open>WriteTx\<close> with rollback, the session store. Go code over the database is
      an action on a \<open>world\<close>: the committed database, the clock, and which of the next statements fail.
    \<^item> \<open>Writers\<close> (store.go): opening and closing the two pools, and write transactions of many goroutines interleaved
      statement by statement on the one write connection: they are serial, and nobody ever sees a database that
      violates the schema.
    \<^item> \<open>Resolver\<close> (resolver.go): \<open>badge_of\<close> is the specification, the badge a database gives a sender; the cached
      lookup is shown to implement it while it is not interleaved with changes.
    \<^item> \<open>VArchive\<close> (varchive.go), \<open>Link\<close>, \<open>LinkCard\<close>, \<open>LinkSync\<close> (link.go): linking, syncing, unlinking, the preferred
      button, the /link card and the daily sync, with their effect on rows, cache and badge on every branch.
    \<^item> \<open>InFlight\<close> (varchive.go): the cap on concurrent V-ARCHIVE requests, which holds, loses no token and blocks nobody.
    \<^item> \<open>Race\<close> (resolver.go with link.go): the same lookups and changes, but interleaved statement by statement.
    \<^item> \<open>AesGcm\<close>, \<open>Crypto\<close> (crypto.go): tokens at rest, over SHA-256 and AES-256-GCM written out on words.
    \<^item> \<open>Chzzk\<close> (chzzk/client.go), \<open>Tokens\<close> (tokens.go), \<open>Chat\<close> (chat.go), \<open>Eio3\<close> (eio3.go), \<open>Ingest\<close> (ingest.go): the API
      client, the token of a channel, the messages, the socket and the worker that joins them.
    \<^item> \<open>Hub\<close> (hub.go) with \<open>HubInv\<close>, \<open>HubFlow\<close>, \<open>HubProps\<close>: the subscriptions, timers, flushes and shutdown as a step
      relation over every interleaving of the goroutines (\<open>hub_step\<close>), its invariant, what flows through it, and the
      properties of every reachable state.
    \<^item> \<open>Shutdown\<close> (main.go, widget.go over \<open>Hub\<close>): the end of the service; once the hub is closed the handlers of all
      streams return by themselves, so that \<open>http.Server.Shutdown\<close> does.
    \<^item> \<open>WebBase\<close>, \<open>Web\<close>, \<open>Widget\<close>, \<open>Routes\<close>, \<open>Login\<close> (internal/web): middleware, every handler, the event stream up to
      what a browser reads from it, the route table and the whole request path (\<open>Handler\<close>), and what requests may
      do: locales \<open>read_handler\<close>, \<open>own_handler\<close>, \<open>user_handler\<close>, \<open>user_reader\<close> are the contracts each handler meets.
    \<^item> \<open>Config\<close> (config.go), \<open>Boot\<close> (main.go, snapshot.go): configuration, the commands, snapshots and backups, and the
      service as a whole: \<open>server_reachable\<close> starts where \<open>serve\<close> does and takes any sequence of requests, daily
      syncs, session clean-ups, token refreshes, badge lookups and hub steps.

  What is a parameter. Code that is not in the repository is an argument of the definitions: SQLite (which
  statements fail, whether a file opens, \<open>VACUUM INTO\<close>, the integrity check), the network (the answer to a request,
  or that there was none), the session manager, the file server, the clock, random nonces, the order in which Go
  visits a map or runs goroutines. The theorems hold for every value of these arguments, unless a hypothesis says
  otherwise.

  Granularity. In \<open>Hub\<close> a step is what one goroutine does while it holds the mutex, one call of the resolver, or one
  channel operation. In \<open>Race\<close> and \<open>Writers\<close> a step is one cache call or one statement. In the other theories an operation (a
  request, a token refresh, a sync) runs alone: \<open>Boot\<close> interleaves whole operations. \<open>Race\<close> shows what changes when
  they overlap: an answer can be stale, for at most the time to live of its status after it was stored, and a sync
  that overlaps with an unlink restores the classes. \<open>Writers\<close> shows why a transaction may be taken as one step.

  Bounds and fuel. Where a loop is not structural its fuel is the length of the text it consumes (JSON values, URLs,
  paths) or a bound proved to be enough where it is used; \<open>shortest\<close> decimals try at most 17 digits, which always
  determine a double; delays are integers of nanoseconds, with the wrap-around of \<open>time.Duration\<close> written out where
  an input can reach it (\<open>Eio3\<close>). A float64 of a query or of JSON is the rational it denotes.

  Not modelled. The templates and \<open>html/template\<close>: a page is the template's name with the data it gets. The embedded
  files. What the goose migrations do: the schema is modelled as constraints of \<open>Store\<close>. The
  timeouts of \<open>http.Server\<close>, the settings of the session cookie, signals, flags and log output, apart from the
  access-log entry. The \<open>Trace\<close> option of
  \<open>eio3\<close> and the websocket itself. The special request \<open>OPTIONS *\<close>.
\<close>

end
